(* ===== verification/Prelude.thy ===== *)
theory Prelude
  imports Main "HOL-Library.Word" "HOL-Library.AList" "HOL-Library.Char_ord"
    "HOL-Library.List_Lexorder" "HOL-Library.Option_ord" "HOL-Library.Product_Lexorder"
    "HOL-Library.Multiset"
begin

text \<open>
  What every component of the model shares: the names of the machine types, the outcome type of
  a C++ call that may leave by an exception, run into undefined behaviour or spin for ever, the
  association lists that stand for the hash maps, and the collections of rewrite rules that the
  component theories fill.
\<close>

section \<open>Types\<close>

text \<open>
  \<open>std::string\<close> is a sequence of bytes, which is what a HOL \<^typ>\<open>string\<close> is; file contents
  are byte sequences too. \<open>uint64_t\<close> and \<open>uint32_t\<close> keep their width.
\<close>

type_synonym bytes = string
type_synonym u64 = "64 word"
type_synonym u16 = "16 word"

type_synonym u32 = "32 word"
type_synonym path = string

text \<open>
  The outcome of running a piece of C++: it returns, it leaves by an exception that the code
  modelled does not catch, it runs into undefined behaviour, or it never returns.
\<close>

datatype 'a exec = Ret 'a | Throw | Undef | Hang

fun exec_bind :: "'a exec \<Rightarrow> ('a \<Rightarrow> 'b exec) \<Rightarrow> 'b exec" where
  "exec_bind (Ret x) f = f x"
| "exec_bind Throw f = Throw"
| "exec_bind Undef f = Undef"
| "exec_bind Hang f = Hang"

text \<open>The same for a step that also changes a state; the state is what the failing step left.\<close>

definition st_bind :: "'a exec \<times> 's \<Rightarrow> ('a \<Rightarrow> 's \<Rightarrow> 'b exec \<times> 's) \<Rightarrow> 'b exec \<times> 's" where
  "st_bind m f = (case m of
       (Ret x, s) \<Rightarrow> f x s
     | (Throw, s) \<Rightarrow> (Throw, s)
     | (Undef, s) \<Rightarrow> (Undef, s)
     | (Hang, s) \<Rightarrow> (Hang, s))"

section \<open>Collections of facts\<close>

named_theorems op_defs \<open>the definitions of the operations of a component\<close>
named_theorems frame_simps \<open>what an operation leaves unchanged\<close>
named_theorems view_simps \<open>what an operation does to the abstract view of a state\<close>

section \<open>Sequencing\<close>

lemma exec_bind_Ret_iff:
  "exec_bind m f = Ret y \<longleftrightarrow> (\<exists>x. m = Ret x \<and> f x = Ret y)"
  by (cases m) auto

lemma exec_bind_assoc:
  "exec_bind (exec_bind m f) g = exec_bind m (\<lambda>x. exec_bind (f x) g)"
  by (cases m) auto

lemma exec_bind_Ret_right [simp]: "exec_bind m Ret = m"
  by (cases m) auto

lemma exec_bind_cong [fundef_cong]:
  "m = m' \<Longrightarrow> (\<And>x. m' = Ret x \<Longrightarrow> f x = g x) \<Longrightarrow> exec_bind m f = exec_bind m' g"
  by (cases m') auto

lemma st_bind_simps [simp]:
  "st_bind (Ret x, s) f = f x s" "st_bind (Throw, s) f = (Throw, s)"
  "st_bind (Undef, s) f = (Undef, s)" "st_bind (Hang, s) f = (Hang, s)"
  by (simp_all add: st_bind_def)

section \<open>Association lists as maps\<close>

declare update_conv' [simp] delete_conv' [simp] distinct_update [simp] distinct_delete [simp]

lemma set_alist_map_of:
  "distinct (map fst xs) \<Longrightarrow> p \<in> set xs \<longleftrightarrow> map_of xs (fst p) = Some (snd p)"
  by (cases p) simp

lemma map_of_eq_None_keys: "map_of xs k = None \<longleftrightarrow> k \<notin> fst ` set xs"
  by (rule map_of_eq_None_iff)

section \<open>Lists\<close>

lemma sorted_wrt_nth_less_strict:
  "sorted_wrt R xs \<Longrightarrow> i < j \<Longrightarrow> j < length xs \<Longrightarrow> R (xs ! i) (xs ! j)"
  by (rule sorted_wrt_nth_less)

lemma find_rev_append:
  "List.find P (xs @ ys) = (case List.find P xs of Some x \<Rightarrow> Some x | None \<Rightarrow> List.find P ys)"
  by (induction xs) auto

lemma takeWhile_neq_id: "c \<notin> set xs \<Longrightarrow> takeWhile (\<lambda>x. x \<noteq> c) xs = xs"
  by (induction xs) auto

lemma takeWhile_neq_append: "c \<notin> set xs \<Longrightarrow> takeWhile (\<lambda>x. x \<noteq> c) (xs @ c # ys) = xs"
  by (induction xs) auto

lemma dropWhile_neq_append: "c \<notin> set xs \<Longrightarrow> dropWhile (\<lambda>x. x \<noteq> c) (xs @ c # ys) = c # ys"
  by (induction xs) auto

lemma split_at_first_unique:
  assumes "xs @ c # ys = xs' @ c # ys'" "c \<notin> set xs" "c \<notin> set xs'"
  shows "xs = xs' \<and> ys = ys'"
proof -
  have "takeWhile (\<lambda>x. x \<noteq> c) (xs @ c # ys) = takeWhile (\<lambda>x. x \<noteq> c) (xs' @ c # ys')"
    using assms(1) by simp
  then have "xs = xs'"
    by (simp add: takeWhile_neq_append assms(2,3))
  then show ?thesis using assms(1) by simp
qed

section \<open>Words\<close>

lemma unat_of_nat64: "n < 2 ^ 64 \<Longrightarrow> unat (of_nat n :: u64) = n"
  by (simp add: unat_of_nat)

end
