(* ===== verification/Errors.thy ===== *)
theory Errors
  imports Prelude
begin

text \<open>
  \<open>logic/result\<close>: the error value with its chain of wrapped causes (\<open>error.hpp\<close>,
  \<open>error.cpp\<close>) and the result type that every fallible operation returns (\<open>result.hpp\<close>,
  \<open>result.cpp\<close>). A \<open>Result<T>\<close> is \<^typ>\<open>'e + 'a\<close> with the error on the left;
  \<open>Result<>\<close> carries \<open>()\<close>.
\<close>

section \<open>Error values\<close>

datatype ErrorType = kUnknown | kNotFound | kNotMaster | kNotConnected

record ErrorData =
  ed_type :: ErrorType
  ed_message :: string

record Error =
  wrapped :: "ErrorData list"
  what_opt :: "string option"

type_synonym 'a res = "Error + 'a"

definition new_Error :: "ErrorType \<Rightarrow> string \<Rightarrow> Error" where
  "new_Error t msg = \<lparr>wrapped = [\<lparr>ed_type = t, ed_message = msg\<rparr>], what_opt = None\<rparr>"

text \<open>
  \<open>Error::What\<close> prints the chain from the last wrapper to the first cause. \<open>back()\<close> of an
  empty chain would be undefined; the constructor and \<open>Wrap\<close> keep the chain non-empty
  (\<open>error_wf\<close> below), so the first equation is never reached from the code.
\<close>

definition What :: "Error \<Rightarrow> string" where
  "What e = (case rev (wrapped e) of
       [] \<Rightarrow> []
     | d # view_without_first \<Rightarrow>
         ed_message d @ concat (map (\<lambda>el. '': '' @ ed_message el) view_without_first))"

definition Wrap :: "Error \<Rightarrow> ErrorType \<Rightarrow> string \<Rightarrow> Error" where
  "Wrap e t msg = e\<lparr>wrapped := wrapped e @ [\<lparr>ed_type = t, ed_message = msg\<rparr>]\<rparr>"

definition Wraps :: "Error \<Rightarrow> ErrorType \<Rightarrow> bool" where
  "Wraps e t = (List.find (\<lambda>d. ed_type d = t) (wrapped e) \<noteq> None)"

definition kWhat :: string where
  "kWhat = ''no data''"

definition what :: "Error \<Rightarrow> string" where
  "what e = kWhat"

section \<open>Results\<close>

text \<open>
  \<open>MakeError<type>(fmt, args)\<close> with the formatted message; \<open>WrapError\<close> of a failed result
  wraps the error that the result holds.
\<close>

definition MakeError :: "ErrorType \<Rightarrow> string \<Rightarrow> Error" where
  "MakeError t msg = new_Error t msg"

definition WrapError :: "Error \<Rightarrow> ErrorType \<Rightarrow> string \<Rightarrow> Error" where
  "WrapError e t msg = Wrap e t msg"

definition has_value :: "'a res \<Rightarrow> bool" where
  "has_value r = (case r of Inl _ \<Rightarrow> False | Inr _ \<Rightarrow> True)"

definition has_failure :: "'a res \<Rightarrow> bool" where
  "has_failure r = (\<not> has_value r)"

section \<open>Lemmas\<close>

definition error_wf :: "Error \<Rightarrow> bool" where
  "error_wf e \<longleftrightarrow> wrapped e \<noteq> []"

lemma has_value_simps [simp]:
  "has_value (Inl e) = False" "has_value (Inr x) = True"
  "has_failure (Inl e) = True" "has_failure (Inr x) = False"
  by (simp_all add: has_value_def has_failure_def)

lemma has_value_iff: "has_value r \<longleftrightarrow> (\<exists>x. r = Inr x)"
  by (cases r) auto

lemma error_wf_MakeError [simp, intro]: "error_wf (MakeError t msg)"
  by (simp add: error_wf_def MakeError_def new_Error_def)

lemma error_wf_WrapError [simp, intro]: "error_wf (WrapError e t msg)"
  by (simp add: error_wf_def WrapError_def Wrap_def)

lemma Wraps_iff: "Wraps e t \<longleftrightarrow> t \<in> ed_type ` set (wrapped e)"
  by (auto simp: Wraps_def find_None_iff)

lemma Wraps_MakeError [simp]: "Wraps (MakeError t msg) u \<longleftrightarrow> u = t"
  by (auto simp: Wraps_iff MakeError_def new_Error_def)

lemma Wraps_Wrap [simp]: "Wraps (Wrap e t msg) u \<longleftrightarrow> u = t \<or> Wraps e u"
  by (auto simp: Wraps_iff Wrap_def)

lemma Wraps_WrapError [simp]: "Wraps (WrapError e t msg) u \<longleftrightarrow> u = t \<or> Wraps e u"
  by (simp add: WrapError_def)

lemma What_MakeError [simp]: "What (MakeError t msg) = msg"
  by (simp add: What_def MakeError_def new_Error_def)

lemma What_Wrap: "error_wf e \<Longrightarrow> What (Wrap e t msg) = msg @ '': '' @ What e"
  by (cases "rev (wrapped e)") (auto simp: What_def Wrap_def error_wf_def)

lemma What_WrapError: "error_wf e \<Longrightarrow> What (WrapError e t msg) = msg @ '': '' @ What e"
  by (simp add: WrapError_def What_Wrap)

text \<open>Wrapping puts the new message in front, keeps every earlier type findable, and adds no other.\<close>

lemma wrapped_error_message:
  "What (foldl (\<lambda>e (t, m). WrapError e t m) (MakeError t0 m0) ws) =
     concat (map (\<lambda>(t, m). m @ '': '') (rev ws)) @ m0 \<and>
   (Wraps (foldl (\<lambda>e (t, m). WrapError e t m) (MakeError t0 m0) ws) t \<longleftrightarrow> t = t0 \<or> t \<in> fst ` set ws)"
proof -
  have "error_wf (foldl (\<lambda>e (t, m). WrapError e t m) (MakeError t0 m0) ws)" for ws
    by (induction ws rule: rev_induct) auto
  then show ?thesis
    by (induction ws rule: rev_induct) (auto simp: What_WrapError)
qed

end
