(* ===== verification/Filesystem.thy ===== *)
theory Filesystem
  imports Errors
begin

text \<open>
  \<open>logic/filesystem\<close>: the paths the program builds and the few file operations it uses, over an
  explicit file system. A directory maps paths to inodes and an inode has contents, so that a
  file that is renamed, truncated or unlinked behaves as on a POSIX system for a descriptor
  that is already open. Every operation that the operating system may refuse asks the
  environment: \<open>fs_fault n\<close> says whether the \<open>n\<close>-th operation fails (and how many bytes a failed
  write still put on disk), \<open>fs_spill n\<close> whether the stream library writes through to the file at
  its \<open>n\<close>-th write or keeps the bytes in its buffer, \<open>fs_read_fault n i k\<close> whether reading the inode
  \<open>i\<close> from offset \<open>k\<close> fails when \<open>n\<close> operations have been made. All are arbitrary functions.
\<close>

section \<open>Paths\<close>

text \<open>
  The parts of \<open>std::filesystem::path\<close> that the program uses. \<open>filename\<close> is what follows the last
  slash; \<open>extension\<close> starts at the last dot of the filename, except that a leading dot starts no
  extension and \<open>.\<close> and \<open>..\<close> have none; \<open>operator/\<close> drops its left side for an absolute right side.
\<close>

definition filename :: "path \<Rightarrow> path" where
  "filename p = rev (takeWhile (\<lambda>c. c \<noteq> CHR ''/'') (rev p))"

definition parent_path :: "path \<Rightarrow> path" where
  "parent_path p = rev (tl (dropWhile (\<lambda>c. c \<noteq> CHR ''/'') (rev p)))"

definition is_absolute :: "path \<Rightarrow> bool" where
  "is_absolute p = (case p of [] \<Rightarrow> False | c # _ \<Rightarrow> c = CHR ''/'')"

definition path_append :: "path \<Rightarrow> path \<Rightarrow> path" where
  "path_append d p =
     (if is_absolute p then p
      else if d = [] \<or> last d = CHR ''/'' then d @ p
      else d @ ''/'' @ p)"

definition stem_of :: "path \<Rightarrow> path" where
  "stem_of f = rev (tl (dropWhile (\<lambda>c. c \<noteq> CHR ''.'') (rev f)))"

definition extension :: "path \<Rightarrow> string" where
  "extension p =
     (let f = filename p in
      if f = ''.'' \<or> f = ''..'' \<or> CHR ''.'' \<notin> set f \<or> stem_of f = [] then []
      else drop (length (stem_of f)) f)"

definition replace_extension :: "path \<Rightarrow> string \<Rightarrow> path" where
  "replace_extension p ext =
     take (length p - length (extension p)) p @
     (if ext = [] \<or> hd ext = CHR ''.'' then ext else ''.'' @ ext)"

section \<open>State\<close>

text \<open>
  An open descriptor is the inode it refers to. An output stream holds its inode, the position of
  the bytes it has written through, the bytes it still buffers and its error bit.
\<close>

type_synonym fd = nat

record ofstream =
  os_ino :: nat
  os_pos :: nat
  os_buf :: bytes
  os_bad :: bool

datatype openmode = om_out | om_in | om_trunc

text \<open>
  \<open>fs_kdir\<close> is the static \<open>kDir\<close>, \<open>fs_dirs\<close> the directories that exist, \<open>fs_uuid\<close> the identifiers
  that the random generator will hand out, \<open>fs_order\<close> the order in which a directory iterator
  lists the files, \<open>fs_what\<close> the text of a file system exception.
\<close>

record fs =
  fs_dir :: "(path \<times> nat) list"
  fs_data :: "nat \<Rightarrow> bytes"
  fs_next :: nat
  fs_kdir :: path
  fs_dirs :: "path list"
  fs_uuid :: "nat \<Rightarrow> string"
  fs_uuid_pos :: nat
  fs_fault :: "nat \<Rightarrow> nat option"
  fs_spill :: "nat \<Rightarrow> bool"
  fs_read_fault :: "nat \<Rightarrow> nat \<Rightarrow> nat \<Rightarrow> bool"
  fs_clock :: nat
  fs_what :: string
  fs_order :: "path list \<Rightarrow> path list"

definition tick :: "fs \<Rightarrow> fs" where
  "tick fs = fs\<lparr>fs_clock := Suc (fs_clock fs)\<rparr>"

definition faulty :: "fs \<Rightarrow> nat option" where
  "faulty fs = fs_fault fs (fs_clock fs)"

definition read_file :: "fs \<Rightarrow> path \<Rightarrow> bytes option" where
  "read_file fs p = map_option (fs_data fs) (map_of (fs_dir fs) p)"

section \<open>The data directory and fresh paths\<close>

definition kVersion :: string where
  "kVersion = ''v1''"

definition GetDataDir :: "fs \<Rightarrow> path" where
  "GetDataDir fs = fs_kdir fs"

definition SetDataDir :: "path \<Rightarrow> fs \<Rightarrow> fs" where
  "SetDataDir p fs = fs\<lparr>fs_kdir := p\<rparr>"

definition format_path :: "fs \<Rightarrow> string \<Rightarrow> string \<Rightarrow> path" where
  "format_path fs uuid ext = GetDataDir fs @ ''/'' @ kVersion @ ''-'' @ uuid @ ''.'' @ ext"

definition GetPath :: "string \<Rightarrow> fs \<Rightarrow> path \<times> fs" where
  "GetPath ext fs =
     (format_path fs (fs_uuid fs (fs_uuid_pos fs)) ext, fs\<lparr>fs_uuid_pos := Suc (fs_uuid_pos fs)\<rparr>)"

section \<open>Opening files\<close>

definition new_ofstream :: "nat \<Rightarrow> ofstream" where
  "new_ofstream i = \<lparr>os_ino = i, os_pos = 0, os_buf = [], os_bad = False\<rparr>"

text \<open>
  \<open>CreateBinaryFile(path, mode)\<close> opens for writing: \<open>out\<close> and \<open>trunc\<close> create the file or cut it to
  length 0, \<open>in\<close> keeps the contents and needs an existing file. The exception of a failed open
  becomes an error value.
\<close>

definition CreateBinaryFile :: "path \<Rightarrow> openmode \<Rightarrow> fs \<Rightarrow> ofstream res \<times> fs" where
  "CreateBinaryFile p mode fs =
     (let fs1 = tick fs;
          err = Inl (MakeError kUnknown
                  (''failed to create file at '' @ p @ '': '' @ fs_what fs)) in
      if faulty fs \<noteq> None \<or> parent_path p \<notin> set (fs_dirs fs) then (err, fs1)
      else case map_of (fs_dir fs) p of
        Some i \<Rightarrow>
          (Inr (new_ofstream i),
           if mode = om_in then fs1 else fs1\<lparr>fs_data := (fs_data fs1)(i := [])\<rparr>)
      | None \<Rightarrow>
          if mode = om_in then (err, fs1)
          else (Inr (new_ofstream (fs_next fs)),
                fs1\<lparr>fs_dir := AList.update p (fs_next fs) (fs_dir fs1),
                    fs_data := (fs_data fs1)(fs_next fs := []),
                    fs_next := Suc (fs_next fs)\<rparr>))"

definition OpenBinaryFile :: "path \<Rightarrow> fs \<Rightarrow> fd res \<times> fs" where
  "OpenBinaryFile p fs =
     (let err = Inl (MakeError kUnknown
                  (''failed to open file at '' @ p @ '': '' @ fs_what fs)) in
      (if faulty fs \<noteq> None then err
       else case map_of (fs_dir fs) p of Some i \<Rightarrow> Inr i | None \<Rightarrow> err, tick fs))"

definition OpenBinaryFD :: "path \<Rightarrow> fs \<Rightarrow> fd res \<times> fs" where
  "OpenBinaryFD p fs =
     (let err = Inl (MakeError kUnknown (''failed to open file at '' @ p)) in
      (if faulty fs \<noteq> None then err
       else case map_of (fs_dir fs) p of Some i \<Rightarrow> Inr i | None \<Rightarrow> err, tick fs))"

section \<open>Output streams\<close>

definition write_at :: "nat \<Rightarrow> bytes \<Rightarrow> bytes \<Rightarrow> bytes" where
  "write_at pos bs c =
     take pos c @ replicate (pos - length c) (CHR 0x00) @ bs @ drop (pos + length bs) c"

text \<open>
  \<open>flush()\<close> (also run by the destructor) hands the buffer to the operating system. A failed write
  sets the error bit, leaves the bytes that did get written, and drops the rest.
\<close>

definition os_flush :: "ofstream \<Rightarrow> fs \<Rightarrow> ofstream \<times> fs" where
  "os_flush s fs =
     (if os_bad s \<or> os_buf s = [] then (s, fs)
      else let i = os_ino s; bs = (case faulty fs of None \<Rightarrow> os_buf s | Some k \<Rightarrow> take k (os_buf s)) in
        (s\<lparr>os_pos := os_pos s + length bs, os_buf := [], os_bad := faulty fs \<noteq> None\<rparr>,
         (tick fs)\<lparr>fs_data := (fs_data fs)(i := write_at (os_pos s) bs (fs_data fs i))\<rparr>))"

text \<open>\<open>ostream::write\<close>, with the success flag that the protobuf serialisers return.\<close>

definition os_write :: "bytes \<Rightarrow> ofstream \<Rightarrow> fs \<Rightarrow> bool \<times> ofstream \<times> fs" where
  "os_write bs s fs =
     (if os_bad s then (False, s, fs)
      else let s1 = s\<lparr>os_buf := os_buf s @ bs\<rparr> in
        if fs_spill fs (fs_clock fs)
        then let (s2, fs2) = os_flush s1 (tick fs) in (\<not> os_bad s2, s2, fs2)
        else (True, s1, tick fs))"

definition tellp :: "ofstream \<Rightarrow> u64" where
  "tellp s = (if os_bad s then - 1 else of_nat (os_pos s + length (os_buf s)))"

definition seekp :: "nat \<Rightarrow> ofstream \<Rightarrow> fs \<Rightarrow> ofstream \<times> fs" where
  "seekp n s fs = (let (s1, fs1) = os_flush s fs in (s1\<lparr>os_pos := n\<rparr>, fs1))"

section \<open>Renaming and removing\<close>

text \<open>
  \<open>fs::rename\<close> and the one-argument \<open>fs::remove\<close> throw on failure; removing a file that does not
  exist is no failure. The two-argument \<open>fs::remove\<close> reports through its error code, which the
  program ignores.
\<close>

definition fs_rename :: "path \<Rightarrow> path \<Rightarrow> fs \<Rightarrow> unit exec \<times> fs" where
  "fs_rename p q fs =
     (if faulty fs \<noteq> None \<or> parent_path q \<notin> set (fs_dirs fs) then (Throw, tick fs)
      else case map_of (fs_dir fs) p of
        None \<Rightarrow> (Throw, tick fs)
      | Some i \<Rightarrow>
          (Ret (), (tick fs)\<lparr>fs_dir := AList.update q i (AList.delete p (fs_dir fs))\<rparr>))"

definition fs_remove :: "path \<Rightarrow> fs \<Rightarrow> unit exec \<times> fs" where
  "fs_remove p fs =
     (if faulty fs \<noteq> None then (Throw, tick fs)
      else (Ret (), (tick fs)\<lparr>fs_dir := AList.delete p (fs_dir fs)\<rparr>))"

definition fs_remove_ec :: "path \<Rightarrow> fs \<Rightarrow> fs" where
  "fs_remove_ec p fs =
     (if faulty fs \<noteq> None then tick fs
      else (tick fs)\<lparr>fs_dir := AList.delete p (fs_dir fs)\<rparr>)"


section \<open>Well-behaved file systems\<close>

text \<open>
  The hypotheses under which the storage layer is proved correct: the environment refuses
  nothing, the data directory exists and is given by an absolute path, the random identifiers do
  not repeat and contain neither a dot nor a slash, and the directory is consistent. Each is kept
  by every operation above.
\<close>

definition reads_ok :: "fs \<Rightarrow> bool" where
  "reads_ok fs \<longleftrightarrow> (\<forall>n i k. \<not> fs_read_fault fs n i k)"

definition no_faults :: "fs \<Rightarrow> bool" where
  "no_faults fs \<longleftrightarrow> (\<forall>n. fs_fault fs n = None) \<and> reads_ok fs"

definition datadir_ok :: "fs \<Rightarrow> bool" where
  "datadir_ok fs \<longleftrightarrow> is_absolute (fs_kdir fs) \<and> last (fs_kdir fs) \<noteq> CHR ''/'' \<and>
     fs_kdir fs \<in> set (fs_dirs fs)"

definition uuids_ok :: "fs \<Rightarrow> bool" where
  "uuids_ok fs \<longleftrightarrow> inj (fs_uuid fs) \<and>
     (\<forall>n. CHR ''.'' \<notin> set (fs_uuid fs n) \<and> CHR ''/'' \<notin> set (fs_uuid fs n))"

definition dir_ok :: "fs \<Rightarrow> bool" where
  "dir_ok fs \<longleftrightarrow> distinct (map fst (fs_dir fs)) \<and>
     (\<forall>p i. map_of (fs_dir fs) p = Some i \<longrightarrow> i < fs_next fs) \<and>
     (\<forall>p q i. map_of (fs_dir fs) p = Some i \<longrightarrow> map_of (fs_dir fs) q = Some i \<longrightarrow> p = q)"

definition file_extensions :: "string list" where
  "file_extensions = [''data'', ''index'', ''wal'']"

definition fresh_ok :: "fs \<Rightarrow> bool" where
  "fresh_ok fs \<longleftrightarrow> (\<forall>n \<ge> fs_uuid_pos fs. \<forall>ext \<in> set file_extensions.
     map_of (fs_dir fs) (format_path fs (fs_uuid fs n) ext) = None)"

definition fs_ok :: "fs \<Rightarrow> bool" where
  "fs_ok fs \<longleftrightarrow> no_faults fs \<and> datadir_ok fs \<and> uuids_ok fs \<and> dir_ok fs \<and> fresh_ok fs"

lemmas fs_ok_defs = fs_ok_def no_faults_def reads_ok_def datadir_ok_def uuids_ok_def dir_ok_def fresh_ok_def
  format_path_def GetDataDir_def

lemma fs_ok_data [simp]: "fs_ok (fs\<lparr>fs_data := d\<rparr>) = fs_ok fs"
  by (simp add: fs_ok_defs)

lemma fs_ok_clock [simp]: "fs_ok (fs\<lparr>fs_clock := n\<rparr>) = fs_ok fs"
  by (simp add: fs_ok_defs)

lemma fs_ok_tick [simp]: "fs_ok (tick fs) = fs_ok fs"
  by (simp add: tick_def)

lemma fs_ok_reads: "fs_ok fs \<Longrightarrow> reads_ok fs"
  by (simp add: fs_ok_def no_faults_def)

lemma faulty_None [simp]: "fs_ok fs \<Longrightarrow> faulty fs = None"
  by (simp add: fs_ok_def no_faults_def faulty_def)

lemma tick_simps [simp]:
  "fs_dir (tick fs) = fs_dir fs" "fs_data (tick fs) = fs_data fs" "fs_next (tick fs) = fs_next fs"
  "fs_kdir (tick fs) = fs_kdir fs" "fs_dirs (tick fs) = fs_dirs fs"
  "fs_uuid (tick fs) = fs_uuid fs" "fs_uuid_pos (tick fs) = fs_uuid_pos fs"
  "fs_fault (tick fs) = fs_fault fs" "fs_spill (tick fs) = fs_spill fs"
  "fs_what (tick fs) = fs_what fs" "fs_order (tick fs) = fs_order fs"
  "fs_read_fault (tick fs) = fs_read_fault fs"
  "read_file (tick fs) p = read_file fs p" "GetDataDir (tick fs) = GetDataDir fs"
  by (simp_all add: tick_def read_file_def GetDataDir_def)

lemma fs_ok_inode_bound: "fs_ok fs \<Longrightarrow> map_of (fs_dir fs) p = Some i \<Longrightarrow> i < fs_next fs"
  by (simp add: fs_ok_def dir_ok_def)

lemma fs_ok_inode_inj:
  "fs_ok fs \<Longrightarrow> map_of (fs_dir fs) p = Some i \<Longrightarrow> map_of (fs_dir fs) q = Some i \<Longrightarrow> p = q"
  by (simp add: fs_ok_def dir_ok_def)

section \<open>Path lemmas\<close>

lemma filename_append [simp]: "CHR ''/'' \<notin> set f \<Longrightarrow> filename (d @ CHR ''/'' # f) = f"
  by (simp add: filename_def takeWhile_neq_append)

lemma parent_append [simp]:
  "CHR ''/'' \<notin> set f \<Longrightarrow> parent_path (d @ CHR ''/'' # f) = d"
  by (simp add: parent_path_def dropWhile_neq_append)

lemma filename_format:
  "uuids_ok fs \<Longrightarrow> CHR ''/'' \<notin> set ext \<Longrightarrow>
   filename (format_path fs (fs_uuid fs n) ext) = kVersion @ ''-'' @ fs_uuid fs n @ ''.'' @ ext"
  by (simp add: format_path_def uuids_ok_def kVersion_def)

lemma parent_format:
  "uuids_ok fs \<Longrightarrow> CHR ''/'' \<notin> set ext \<Longrightarrow>
   parent_path (format_path fs (fs_uuid fs n) ext) = fs_kdir fs"
  by (simp add: format_path_def uuids_ok_def GetDataDir_def kVersion_def)

lemma append_filename_format:
  assumes "uuids_ok fs" "datadir_ok fs" "CHR ''/'' \<notin> set ext"
  shows "path_append (GetDataDir fs) (filename (format_path fs (fs_uuid fs n) ext)) =
    format_path fs (fs_uuid fs n) ext"
proof -
  have "fs_kdir fs \<noteq> []" "last (fs_kdir fs) \<noteq> CHR ''/''"
    using assms(2) by (auto simp: datadir_ok_def is_absolute_def)
  then show ?thesis
    unfolding filename_format [OF assms(1,3)]
    by (simp add: path_append_def is_absolute_def kVersion_def format_path_def GetDataDir_def)
qed

lemma stem_of_dot: "CHR ''.'' \<notin> set e \<Longrightarrow> stem_of (f @ CHR ''.'' # e) = f"
  by (simp add: stem_of_def dropWhile_neq_append)

lemma extension_format:
  assumes "uuids_ok fs" "CHR ''/'' \<notin> set ext" "CHR ''.'' \<notin> set ext"
  shows "extension (format_path fs (fs_uuid fs n) ext) = ''.'' @ ext"
  using assms stem_of_dot [of ext "kVersion @ ''-'' @ fs_uuid fs n"]
  by (simp add: extension_def filename_format Let_def kVersion_def)

lemma replace_extension_format:
  assumes "uuids_ok fs" "CHR ''/'' \<notin> set ext" "CHR ''.'' \<notin> set ext"
  shows "replace_extension (format_path fs (fs_uuid fs n) ext) (CHR ''.'' # ext') =
    format_path fs (fs_uuid fs n) ext'"
  using assms by (simp add: replace_extension_def extension_format) (simp add: format_path_def)

lemma format_path_inject:
  assumes "uuids_ok fs"
  shows "format_path fs (fs_uuid fs n) ext = format_path fs (fs_uuid fs m) ext' \<longleftrightarrow>
    n = m \<and> ext = ext'"
proof
  assume eq: "format_path fs (fs_uuid fs n) ext = format_path fs (fs_uuid fs m) ext'"
  have "fs_uuid fs n = fs_uuid fs m \<and> ext = ext'"
  proof (rule split_at_first_unique)
    show "fs_uuid fs n @ CHR ''.'' # ext = fs_uuid fs m @ CHR ''.'' # ext'"
      using eq by (simp add: format_path_def)
  qed (use assms in \<open>simp_all add: uuids_ok_def\<close>)
  then show "n = m \<and> ext = ext'"
    using assms by (auto simp: uuids_ok_def dest: injD)
qed simp

section \<open>Stream lemmas\<close>

lemma write_at_end: "pos = length c \<Longrightarrow> write_at pos bs c = c @ bs"
  by (simp add: write_at_def)

lemma write_at_Nil: "pos \<le> length c \<Longrightarrow> write_at pos [] c = c"
  by (simp add: write_at_def)

lemma write_at_append:
  "pos \<le> length c \<Longrightarrow> write_at pos (a @ b) c = write_at (pos + length a) b (write_at pos a c)"
  by (simp add: write_at_def add.assoc add.commute [of "length b"])

text \<open>
  A stream whose file had contents \<open>base\<close> and that has been given the bytes \<open>acc\<close> from position
  \<open>pos\<close> on, whether they are in the file or still in its buffer.
\<close>

definition stream_at :: "ofstream \<Rightarrow> fs \<Rightarrow> bytes \<Rightarrow> nat \<Rightarrow> bytes \<Rightarrow> bool" where
  "stream_at s fs base pos acc \<longleftrightarrow>
     \<not> os_bad s \<and> pos \<le> length base \<and> os_pos s \<le> length (fs_data fs (os_ino s)) \<and>
     os_pos s + length (os_buf s) = pos + length acc \<and>
     write_at (os_pos s) (os_buf s) (fs_data fs (os_ino s)) = write_at pos acc base"

text \<open>A step that changes the contents of one inode and the clock, and nothing else.\<close>

definition touches :: "nat \<Rightarrow> fs \<Rightarrow> fs \<Rightarrow> bool" where
  "touches i fs fs' \<longleftrightarrow> (\<exists>c n. fs' = fs\<lparr>fs_data := (fs_data fs)(i := c), fs_clock := n\<rparr>)"

lemma touchesI:
  "fs' = fs\<lparr>fs_data := (fs_data fs)(i := c), fs_clock := n\<rparr> \<Longrightarrow> touches i fs fs'"
  by (auto simp: touches_def)

lemma touches_refl [simp]: "touches i fs fs"
  unfolding touches_def by (rule exI [of _ "fs_data fs i"], rule exI [of _ "fs_clock fs"]) simp

lemma touches_tick: "touches i fs (tick fs)"
  unfolding touches_def tick_def
  by (rule exI [of _ "fs_data fs i"], rule exI [of _ "Suc (fs_clock fs)"]) simp

lemma touches_trans: "touches i fs fs1 \<Longrightarrow> touches i fs1 fs2 \<Longrightarrow> touches i fs fs2"
  unfolding touches_def by (elim exE) (rule touchesI [unfolded touches_def], simp)

lemma touches_same:
  assumes "touches i fs fs'"
  shows "fs_ok fs' = fs_ok fs" "fs_dir fs' = fs_dir fs" "fs_next fs' = fs_next fs"
    "fs_kdir fs' = fs_kdir fs" "fs_dirs fs' = fs_dirs fs" "fs_uuid fs' = fs_uuid fs"
    "fs_uuid_pos fs' = fs_uuid_pos fs" "fs_order fs' = fs_order fs" "fs_what fs' = fs_what fs"
    "GetDataDir fs' = GetDataDir fs" "format_path fs' = format_path fs"
    "j \<noteq> i \<Longrightarrow> fs_data fs' j = fs_data fs j"
    "fs_read_fault fs' = fs_read_fault fs"
  using assms by (auto simp: touches_def GetDataDir_def format_path_def fun_eq_iff)

lemma touches_read_file:
  assumes "touches i fs fs'" "map_of (fs_dir fs) p \<noteq> Some i"
  shows "read_file fs' p = read_file fs p"
  using assms by (cases "map_of (fs_dir fs) p") (auto simp: read_file_def touches_def)

lemma stream_at_new: "stream_at (new_ofstream i) fs (fs_data fs i) 0 []"
  by (simp add: stream_at_def new_ofstream_def)

lemma os_flush_spec:
  assumes "stream_at s fs base pos acc" "fs_ok fs" "os_flush s fs = (s', fs')"
  shows "stream_at s' fs' base pos acc" "fs_data fs' (os_ino s) = write_at pos acc base"
    "os_buf s' = []" "os_ino s' = os_ino s" "touches (os_ino s) fs fs'"
proof -
  show "stream_at s' fs' base pos acc" "fs_data fs' (os_ino s) = write_at pos acc base"
    "os_buf s' = []" "os_ino s' = os_ino s"
    using assms
    by (auto simp: os_flush_def stream_at_def write_at_Nil Let_def split: if_splits)
      (auto simp: write_at_def)
  show "touches (os_ino s) fs fs'"
  proof (cases "os_bad s \<or> os_buf s = []")
    case True
    with assms(3) show ?thesis by (auto simp: os_flush_def)
  next
    case False
    with assms(2,3) show ?thesis
      by (intro touchesI [where n = "Suc (fs_clock fs)"
            and c = "write_at (os_pos s) (os_buf s) (fs_data fs (os_ino s))"])
        (auto simp: os_flush_def Let_def tick_def)
  qed
qed

lemma os_write_spec:
  assumes "stream_at s fs base pos acc" "fs_ok fs" "os_write bs s fs = (ok, s', fs')"
  shows "ok" "stream_at s' fs' base pos (acc @ bs)" "os_ino s' = os_ino s"
    "touches (os_ino s) fs fs'"
proof -
  let ?s = "s\<lparr>os_buf := os_buf s @ bs\<rparr>"
  have at: "stream_at ?s (tick fs) base pos (acc @ bs)"
    using assms(1) by (auto simp: stream_at_def write_at_append)
  have "\<not> os_bad s" using assms(1) by (simp add: stream_at_def)
  then consider (spill) "os_flush ?s (tick fs) = (s', fs')" "ok = (\<not> os_bad s')"
    | (buffer) "s' = ?s" "fs' = tick fs" "ok"
    using assms(3) by (auto simp: os_write_def Let_def split: if_splits prod.splits)
  then have "ok \<and> stream_at s' fs' base pos (acc @ bs) \<and> os_ino s' = os_ino s \<and>
    touches (os_ino s) fs fs'"
  proof cases
    case spill
    from assms(2) have ok': "fs_ok (tick fs)" by simp
    note fl = os_flush_spec [OF at ok' spill(1)]
    have "touches (os_ino s) fs fs'"
      using touches_trans [OF touches_tick fl(5)] by simp
    with fl(1,4) spill(2) show ?thesis by (simp add: stream_at_def)
  next
    case buffer
    with at show ?thesis by (simp add: touches_tick)
  qed
  then show "ok" "stream_at s' fs' base pos (acc @ bs)" "os_ino s' = os_ino s"
    "touches (os_ino s) fs fs'" by simp_all
qed

lemma tellp_stream_at:
  "stream_at s fs base pos acc \<Longrightarrow> tellp s = of_nat (pos + length acc)"
  by (simp add: stream_at_def tellp_def)


section \<open>Opening, naming, renaming, removing\<close>

text \<open>\<open>not_future fs p\<close>: the path is not one that \<open>GetPath\<close> will still hand out.\<close>

definition not_future :: "fs \<Rightarrow> path \<Rightarrow> bool" where
  "not_future fs p \<longleftrightarrow> (\<forall>n \<ge> fs_uuid_pos fs. \<forall>ext \<in> set file_extensions.
     p \<noteq> format_path fs (fs_uuid fs n) ext)"

definition created :: "path \<Rightarrow> fs \<Rightarrow> fs" where
  "created p fs = (tick fs)\<lparr>fs_dir := AList.update p (fs_next fs) (fs_dir fs),
     fs_data := (fs_data fs)(fs_next fs := []), fs_next := Suc (fs_next fs)\<rparr>"

lemma CreateBinaryFile_new:
  "fs_ok fs \<Longrightarrow> map_of (fs_dir fs) p = None \<Longrightarrow> parent_path p \<in> set (fs_dirs fs) \<Longrightarrow> mode \<noteq> om_in \<Longrightarrow>
   CreateBinaryFile p mode fs = (Inr (new_ofstream (fs_next fs)), created p fs)"
  by (simp add: CreateBinaryFile_def created_def)

lemma CreateBinaryFile_trunc:
  "fs_ok fs \<Longrightarrow> map_of (fs_dir fs) p = Some i \<Longrightarrow> parent_path p \<in> set (fs_dirs fs) \<Longrightarrow> mode \<noteq> om_in \<Longrightarrow>
   CreateBinaryFile p mode fs =
     (Inr (new_ofstream i), (tick fs)\<lparr>fs_data := (fs_data fs)(i := [])\<rparr>)"
  by (simp add: CreateBinaryFile_def)

lemma CreateBinaryFile_keep:
  "fs_ok fs \<Longrightarrow> map_of (fs_dir fs) p = Some i \<Longrightarrow> parent_path p \<in> set (fs_dirs fs) \<Longrightarrow>
   CreateBinaryFile p om_in fs = (Inr (new_ofstream i), tick fs)"
  by (simp add: CreateBinaryFile_def)

lemma created_simps [simp]:
  "map_of (fs_dir (created p fs)) = (map_of (fs_dir fs))(p \<mapsto> fs_next fs)"
  "fs_data (created p fs) = (fs_data fs)(fs_next fs := [])"
  "fs_next (created p fs) = Suc (fs_next fs)" "fs_kdir (created p fs) = fs_kdir fs"
  "fs_dirs (created p fs) = fs_dirs fs" "fs_uuid (created p fs) = fs_uuid fs"
  "fs_uuid_pos (created p fs) = fs_uuid_pos fs" "fs_order (created p fs) = fs_order fs"
  "GetDataDir (created p fs) = GetDataDir fs" "format_path (created p fs) = format_path fs"
  "fs_read_fault (created p fs) = fs_read_fault fs"
  by (simp_all add: created_def GetDataDir_def format_path_def fun_eq_iff)

lemma dir_ok_created: "dir_ok fs \<Longrightarrow> map_of (fs_dir fs) p = None \<Longrightarrow> dir_ok (created p fs)"
  unfolding dir_ok_def created_simps
  by (auto simp: less_Suc_eq created_def) blast+

lemma fs_ok_created:
  assumes "fs_ok fs" "map_of (fs_dir fs) p = None" "not_future fs p"
  shows "fs_ok (created p fs)"
proof -
  have "dir_ok (created p fs)" using assms(1,2) by (simp add: fs_ok_def dir_ok_created)
  moreover have "fresh_ok (created p fs)"
    using assms unfolding fs_ok_def fresh_ok_def not_future_def by auto
  ultimately show ?thesis
    using assms(1)
    by (simp add: fs_ok_def no_faults_def reads_ok_def datadir_ok_def uuids_ok_def)
      (simp add: created_def tick_def)
qed

lemma read_file_created:
  assumes "fs_ok fs"
  shows "read_file (created p fs) q = (if q = p then Some [] else read_file fs q)"
  using assms by (cases "map_of (fs_dir fs) q")
    (auto simp: read_file_def dest: fs_ok_inode_bound)

lemma fs_ok_GetPath:
  assumes "fs_ok fs" "ext \<in> set file_extensions" "GetPath ext fs = (p, fs')"
  shows "p = format_path fs (fs_uuid fs (fs_uuid_pos fs)) ext"
    "fs' = fs\<lparr>fs_uuid_pos := Suc (fs_uuid_pos fs)\<rparr>" "fs_ok fs'"
    "map_of (fs_dir fs') p = None" "parent_path p = fs_kdir fs" "not_future fs' p"
    "fs_kdir fs \<in> set (fs_dirs fs)"
proof -
  show p: "p = format_path fs (fs_uuid fs (fs_uuid_pos fs)) ext"
    and fs': "fs' = fs\<lparr>fs_uuid_pos := Suc (fs_uuid_pos fs)\<rparr>"
    using assms(3) by (simp_all add: GetPath_def)
  show "fs_ok fs'" using assms(1) unfolding fs' by (auto simp: fs_ok_defs)
  show "map_of (fs_dir fs') p = None"
    using assms(1,2) unfolding p fs' by (simp add: fs_ok_def fresh_ok_def)
  have "CHR ''/'' \<notin> set ext" using assms(2) by (auto simp: file_extensions_def)
  then show "parent_path p = fs_kdir fs"
    using assms(1) unfolding p by (simp add: fs_ok_def parent_format)
  have "uuids_ok fs" using assms(1) by (simp add: fs_ok_def)
  then show "not_future fs' p"
    using format_path_inject [of fs] unfolding fs' p
    by (auto simp: not_future_def format_path_def GetDataDir_def)
  show "fs_kdir fs \<in> set (fs_dirs fs)" using assms(1) by (simp add: fs_ok_defs)
qed

lemma fs_remove_ok:
  assumes "fs_ok fs" "fs_remove p fs = (r, fs')"
  shows "r = Ret ()" "fs_ok fs'" "read_file fs' = (read_file fs)(p := None)"
    "fs' = (tick fs)\<lparr>fs_dir := AList.delete p (fs_dir fs)\<rparr>"
proof -
  show "r = Ret ()" and fs': "fs' = (tick fs)\<lparr>fs_dir := AList.delete p (fs_dir fs)\<rparr>"
    using assms by (simp_all add: fs_remove_def)
  have "dir_ok fs'" using assms(1) unfolding fs' by (auto simp: fs_ok_def dir_ok_def)
  moreover have "fresh_ok fs'"
    using assms(1) unfolding fs' fs_ok_def fresh_ok_def by (simp add: format_path_def GetDataDir_def)
  ultimately show "fs_ok fs'"
    using assms(1) unfolding fs' fs_ok_def no_faults_def reads_ok_def datadir_ok_def uuids_ok_def by simp
  show "read_file fs' = (read_file fs)(p := None)"
    unfolding fs' by (auto simp: read_file_def fun_eq_iff)
qed

lemma fs_remove_ec_eq: "fs_ok fs \<Longrightarrow> fs_remove_ec p fs = snd (fs_remove p fs)"
  by (simp add: fs_remove_ec_def fs_remove_def)

lemma fs_rename_ok:
  assumes "fs_ok fs" "map_of (fs_dir fs) p = Some i" "parent_path q \<in> set (fs_dirs fs)"
    "not_future fs q" "p \<noteq> q" "fs_rename p q fs = (r, fs')"
  shows "r = Ret ()" "fs_ok fs'" "read_file fs' = (read_file fs)(p := None, q := read_file fs p)"
    "fs' = (tick fs)\<lparr>fs_dir := AList.update q i (AList.delete p (fs_dir fs))\<rparr>"
proof -
  show "r = Ret ()" and fs': "fs' = (tick fs)\<lparr>fs_dir := AList.update q i (AList.delete p (fs_dir fs))\<rparr>"
    using assms by (simp_all add: fs_rename_def)
  have m: "map_of (fs_dir fs') = (map_of (fs_dir fs))(p := None, q \<mapsto> i)"
    unfolding fs' by simp
  have inj: "\<And>x y j. map_of (fs_dir fs) x = Some j \<Longrightarrow> map_of (fs_dir fs) y = Some j \<Longrightarrow> x = y"
    using fs_ok_inode_inj [OF assms(1)] .
  have "dir_ok fs'"
    unfolding dir_ok_def m
  proof (intro conjI allI impI)
    show "distinct (map fst (fs_dir fs'))"
      using assms(1) unfolding fs' by (simp add: fs_ok_def dir_ok_def)
    show "j < fs_next fs'" if "((map_of (fs_dir fs))(p := None, q \<mapsto> i)) x = Some j" for x j
      using that assms(1,2) fs_ok_inode_bound unfolding fs' by (auto split: if_splits)
    show "x = y" if "((map_of (fs_dir fs))(p := None, q \<mapsto> i)) x = Some j"
      "((map_of (fs_dir fs))(p := None, q \<mapsto> i)) y = Some j" for x y j
      using that inj assms(2) by (simp split: if_splits)
  qed
  moreover have "fresh_ok fs'"
    using assms(1,4) unfolding fs' fs_ok_def fresh_ok_def not_future_def
    by (auto simp: format_path_def GetDataDir_def)
  ultimately show "fs_ok fs'"
    using assms(1) unfolding fs' fs_ok_def no_faults_def reads_ok_def datadir_ok_def uuids_ok_def by simp
  show "read_file fs' = (read_file fs)(p := None, q := read_file fs p)"
    using assms(2) unfolding fs' by (auto simp: read_file_def fun_eq_iff)
qed


lemma stream_at_cong:
  "fs_data fs' (os_ino s) = fs_data fs (os_ino s) \<Longrightarrow>
   stream_at s fs' base pos acc = stream_at s fs base pos acc"
  by (simp add: stream_at_def)

lemma OpenBinaryFD_ok:
  "fs_ok fs \<Longrightarrow> map_of (fs_dir fs) p = Some i \<Longrightarrow> OpenBinaryFD p fs = (Inr i, tick fs)"
  by (simp add: OpenBinaryFD_def)

lemma OpenBinaryFile_ok:
  "fs_ok fs \<Longrightarrow> map_of (fs_dir fs) p = Some i \<Longrightarrow> OpenBinaryFile p fs = (Inr i, tick fs)"
  by (simp add: OpenBinaryFile_def)

lemma OpenBinaryFile_missing:
  "map_of (fs_dir fs) p = None \<Longrightarrow> \<exists>e. OpenBinaryFile p fs = (Inl e, tick fs)"
  by (simp add: OpenBinaryFile_def Let_def del: map_of_eq_None_iff)

text \<open>
  Growth of the file system: the environment is the same, and every inode that existed keeps
  its contents and every path its inode.
\<close>

definition same_env :: "fs \<Rightarrow> fs \<Rightarrow> bool" where
  "same_env fs fs' \<longleftrightarrow> fs_kdir fs' = fs_kdir fs \<and> fs_dirs fs' = fs_dirs fs \<and>
     fs_uuid fs' = fs_uuid fs \<and> fs_uuid_pos fs \<le> fs_uuid_pos fs' \<and>
     fs_order fs' = fs_order fs \<and> fs_next fs \<le> fs_next fs' \<and> fs_read_fault fs' = fs_read_fault fs"

definition fs_extends :: "fs \<Rightarrow> fs \<Rightarrow> bool" where
  "fs_extends fs fs' \<longleftrightarrow> same_env fs fs' \<and> (\<forall>i < fs_next fs. fs_data fs' i = fs_data fs i) \<and>
     (\<forall>p i. map_of (fs_dir fs) p = Some i \<longrightarrow> map_of (fs_dir fs') p = Some i)"

lemma same_env_refl [simp]: "same_env fs fs"
  by (simp add: same_env_def)

lemma same_env_trans: "same_env a b \<Longrightarrow> same_env b c \<Longrightarrow> same_env a c"
  by (auto simp: same_env_def)

lemma same_env_dir: "same_env fs fs' \<Longrightarrow> GetDataDir fs' = GetDataDir fs"
  by (simp add: same_env_def GetDataDir_def)

lemma same_env_reads: "same_env fs fs' \<Longrightarrow> reads_ok fs' = reads_ok fs"
  by (simp add: same_env_def reads_ok_def)

lemma same_env_format: "same_env fs fs' \<Longrightarrow> format_path fs' = format_path fs"
  by (simp add: same_env_def GetDataDir_def format_path_def fun_eq_iff)

lemma same_env_tick [simp]: "same_env fs (tick fs)"
  by (simp add: same_env_def)

lemma same_env_touches: "touches i fs fs' \<Longrightarrow> same_env fs fs'"
  by (simp add: same_env_def touches_same)

lemma fs_extends_refl [simp]: "fs_extends fs fs"
  by (simp add: fs_extends_def)

lemma fs_extends_trans: "fs_extends a b \<Longrightarrow> fs_extends b c \<Longrightarrow> fs_extends a c"
  unfolding fs_extends_def by (auto intro: same_env_trans simp: same_env_def)

lemma fs_extends_tick [simp]: "fs_extends fs (tick fs)"
  by (simp add: fs_extends_def)

lemma fs_extends_created:
  "fs_ok fs \<Longrightarrow> map_of (fs_dir fs) p = None \<Longrightarrow> fs_extends fs (created p fs)"
  by (auto simp: fs_extends_def same_env_def)

lemma fs_extends_touches:
  "touches i fs1 fs2 \<Longrightarrow> fs_extends fs fs1 \<Longrightarrow> fs_next fs \<le> i \<Longrightarrow> fs_extends fs fs2"
  unfolding fs_extends_def by (auto simp: touches_same same_env_def)

lemma fs_extends_GetPath: "GetPath ext fs = (p, fs') \<Longrightarrow> fs_extends fs fs'"
  by (auto simp: GetPath_def fs_extends_def same_env_def)

lemma fs_extends_env: "fs_extends fs fs' \<Longrightarrow> same_env fs fs'"
  by (simp add: fs_extends_def)

lemma fs_extends_dir:
  "fs_extends fs fs' \<Longrightarrow> map_of (fs_dir fs) p = Some i \<Longrightarrow> map_of (fs_dir fs') p = Some i"
  by (simp add: fs_extends_def)

lemma fs_extends_data: "fs_extends fs fs' \<Longrightarrow> i < fs_next fs \<Longrightarrow> fs_data fs' i = fs_data fs i"
  by (simp add: fs_extends_def)


text \<open>
  Agreement on a set of paths: same inode, same contents. \<open>wrote q bs\<close>: the file \<open>q\<close> now holds
  \<open>bs\<close>, and everything else is as it was.
\<close>

definition agree_on :: "path set \<Rightarrow> fs \<Rightarrow> fs \<Rightarrow> bool" where
  "agree_on S fs fs' \<longleftrightarrow> same_env fs fs' \<and>
     (\<forall>p \<in> S. map_of (fs_dir fs') p = map_of (fs_dir fs) p \<and>
       (\<forall>i. map_of (fs_dir fs) p = Some i \<longrightarrow> fs_data fs' i = fs_data fs i))"

definition wrote :: "path \<Rightarrow> bytes \<Rightarrow> fs \<Rightarrow> fs \<Rightarrow> bool" where
  "wrote q bs fs fs' \<longleftrightarrow> fs_ok fs' \<and> agree_on (- {q}) fs fs' \<and> read_file fs' q = Some bs \<and>
     fs_uuid_pos fs' = fs_uuid_pos fs"

lemma agree_on_refl [simp]: "agree_on S fs fs"
  by (simp add: agree_on_def)

lemma agree_on_mono: "agree_on S fs fs' \<Longrightarrow> T \<subseteq> S \<Longrightarrow> agree_on T fs fs'"
  by (auto simp: agree_on_def)

lemma agree_on_trans: "agree_on S a b \<Longrightarrow> agree_on S b c \<Longrightarrow> agree_on S a c"
  unfolding agree_on_def by (auto intro: same_env_trans)

lemma agree_on_env: "agree_on S fs fs' \<Longrightarrow> same_env fs fs'"
  by (simp add: agree_on_def)

lemma agree_on_dir: "agree_on S fs fs' \<Longrightarrow> p \<in> S \<Longrightarrow> map_of (fs_dir fs') p = map_of (fs_dir fs) p"
  by (simp add: agree_on_def)

lemma agree_on_data:
  "agree_on S fs fs' \<Longrightarrow> p \<in> S \<Longrightarrow> map_of (fs_dir fs) p = Some i \<Longrightarrow> fs_data fs' i = fs_data fs i"
  unfolding agree_on_def by blast

lemma agree_on_read: "agree_on S fs fs' \<Longrightarrow> p \<in> S \<Longrightarrow> read_file fs' p = read_file fs p"
  by (cases "map_of (fs_dir fs) p") (auto simp: read_file_def agree_on_dir agree_on_data)

lemma agree_on_extends:
  assumes "fs_ok fs" "fs_extends fs fs'" "S \<subseteq> dom (map_of (fs_dir fs))"
  shows "agree_on S fs fs'"
proof -
  have "map_of (fs_dir fs') p = map_of (fs_dir fs) p \<and>
      (\<forall>i. map_of (fs_dir fs) p = Some i \<longrightarrow> fs_data fs' i = fs_data fs i)" if pS: "p \<in> S" for p
  proof -
    obtain i where i: "map_of (fs_dir fs) p = Some i" using subsetD [OF assms(3) pS] by auto
    then show ?thesis
      using fs_extends_dir [OF assms(2) i] fs_extends_data [OF assms(2)]
        fs_ok_inode_bound [OF assms(1) i] by simp
  qed
  then show ?thesis by (simp add: agree_on_def fs_extends_env [OF assms(2)])
qed

lemma agree_on_tick [simp]: "agree_on S fs (tick fs)"
  by (simp add: agree_on_def)

lemma agree_on_clock [simp]: "agree_on S fs (fs\<lparr>fs_clock := n\<rparr>)"
  by (simp add: agree_on_def same_env_def)

lemma agree_on_touches:
  "fs_ok fs \<Longrightarrow> touches i fs fs' \<Longrightarrow> map_of (fs_dir fs) q = Some i \<Longrightarrow> agree_on (- {q}) fs fs'"
  unfolding agree_on_def
  by (auto simp: same_env_touches touches_same) (metis fs_ok_inode_inj touches_same(12))

lemma agree_on_created:
  "fs_ok fs \<Longrightarrow> agree_on (- {q}) fs (created q fs)"
  unfolding agree_on_def by (auto simp: same_env_def) (use fs_ok_inode_bound in fastforce)

lemma agree_on_remove: "fs_ok fs \<Longrightarrow> fs_remove q fs = (r, fs') \<Longrightarrow> agree_on (- {q}) fs fs'"
  by (drule (1) fs_remove_ok(4)) (simp add: agree_on_def same_env_def)

lemma agree_on_rename:
  assumes "fs_ok fs" "map_of (fs_dir fs) p = Some i" "parent_path q \<in> set (fs_dirs fs)"
    "not_future fs q" "p \<noteq> q" "fs_rename p q fs = (r, fs')"
  shows "agree_on (- {p, q}) fs fs'"
  unfolding fs_rename_ok(4) [OF assms] by (simp add: agree_on_def same_env_def)

lemma create_empty:
  assumes ok: "fs_ok fs" and q: "parent_path q \<in> set (fs_dirs fs)" "not_future fs q"
    and mode: "mode \<noteq> om_in"
  obtains i fs2 where "CreateBinaryFile q mode fs = (Inr (new_ofstream i), fs2)" "fs_ok fs2"
    "fs_data fs2 i = []" "map_of (fs_dir fs2) q = Some i" "agree_on (- {q}) fs fs2"
    "fs_uuid_pos fs2 = fs_uuid_pos fs"
proof (cases "map_of (fs_dir fs) q")
  case None
  then show ?thesis
    using that CreateBinaryFile_new [OF ok None q(1) mode] fs_ok_created [OF ok None q(2)]
      agree_on_created [OF ok] by simp
next
  case (Some i)
  let ?fs2 = "(tick fs)\<lparr>fs_data := (fs_data fs)(i := [])\<rparr>"
  have "touches i fs ?fs2"
    by (rule touchesI [where n = "Suc (fs_clock fs)" and c = "[]"]) (simp add: tick_def)
  then have "agree_on (- {q}) fs ?fs2" using agree_on_touches [OF ok _ Some] by blast
  then show ?thesis
    using that CreateBinaryFile_trunc [OF ok Some q(1) mode] ok Some by simp
qed

lemma create_write_flush:
  assumes ok: "fs_ok fs" and q: "parent_path q \<in> set (fs_dirs fs)" "not_future fs q"
    and mode: "mode \<noteq> om_in"
  shows "\<exists>f fs2 f1 fs3 f2 fs4. CreateBinaryFile q mode fs = (Inr f, fs2) \<and>
    os_write bs f fs2 = (True, f1, fs3) \<and> os_flush f1 fs3 = (f2, fs4) \<and> wrote q bs fs fs4"
proof -
  obtain i fs2 where c: "CreateBinaryFile q mode fs = (Inr (new_ofstream i), fs2)"
    "fs_ok fs2" "fs_data fs2 i = []" "map_of (fs_dir fs2) q = Some i" "agree_on (- {q}) fs fs2"
    "fs_uuid_pos fs2 = fs_uuid_pos fs" by (rule create_empty [OF assms])
  have ino: "os_ino (new_ofstream i) = i" by (simp add: new_ofstream_def)
  have "stream_at (new_ofstream i) fs2 [] 0 []" using stream_at_new [of i fs2] c(3) by simp
  obtain k f1 fs3 where w: "os_write bs (new_ofstream i) fs2 = (k, f1, fs3)" by (metis prod_cases3)
  note ws = os_write_spec [OF \<open>stream_at _ _ _ _ _\<close> c(2) w, unfolded ino]
  obtain f2 fs4 where fl: "os_flush f1 fs3 = (f2, fs4)" by (metis surj_pair)
  have "fs_ok fs3" using ws(4) c(2) by (simp add: touches_same)
  note fls = os_flush_spec [OF ws(2) this fl]
  have t: "touches i fs2 fs4" using touches_trans [OF ws(4)] fls(5) ws(3) by simp
  have "wrote q bs fs fs4"
    using agree_on_trans [OF c(5) agree_on_touches [OF c(2) t c(4)]] fls(2) ws(3) c(2,4,6)
    by (simp add: wrote_def read_file_def touches_same [OF t] write_at_def)
  then show ?thesis using c(1) w fl ws(1) by auto
qed

end
