(* ===== verification/Memstorage.thy ===== *)
theory Memstorage
  imports Errors
begin

text \<open>
  The data model (\<open>kw_pair.hpp\<close>, \<open>dto.hpp\<close>, \<open>collectable_memstorage.hpp\<close>), the abstract class
  \<open>KwStorage\<close> (\<open>memstorage.hpp\<close>) as a locale, and its hash map implementation \<open>MapStorage\<close>
  (\<open>memstorage_impl.hpp\<close>, \<open>inmemory.cpp\<close>).
\<close>

section \<open>Data\<close>

record KwPair =
  kw_key :: string
  kw_value :: string
  kw_version :: u64

record Value =
  val_value :: "string option"
  val_version :: u64

record StorageEntry =
  se_key :: string
  se_value :: "string option"
  se_version :: u64

record KwDTO =
  kwd_key :: string
  kwd_value :: string
  kwd_version :: "u64 option"

record KeyDTO =
  kd_key :: string
  kd_version :: "u64 option"

record ValueDTO =
  vd_value :: string
  vd_version :: u64

record GetRequestDTO =
  grd_key :: string

text \<open>
  The defaulted \<open>operator<=>\<close> of \<open>StorageEntry\<close> compares the members in order: key, value (an absent
  value is least), version.
\<close>

definition StorageEntry_le :: "'a :: linorder StorageEntry_ext \<Rightarrow> 'a StorageEntry_ext \<Rightarrow> bool" where
  "StorageEntry_le a b \<longleftrightarrow>
     (se_key a, se_value a, se_version a, StorageEntry.more a) \<le>
     (se_key b, se_value b, se_version b, StorageEntry.more b)"

instantiation StorageEntry_ext :: (linorder) linorder
begin

definition less_eq_StorageEntry_ext :: "'a StorageEntry_ext \<Rightarrow> 'a StorageEntry_ext \<Rightarrow> bool" where
  "less_eq_StorageEntry_ext = StorageEntry_le"

definition less_StorageEntry_ext :: "'a StorageEntry_ext \<Rightarrow> 'a StorageEntry_ext \<Rightarrow> bool" where
  "less_StorageEntry_ext a b \<longleftrightarrow> StorageEntry_le a b \<and> \<not> StorageEntry_le b a"

instance
proof
  fix x y z :: "'a StorageEntry_ext"
  show "x < y \<longleftrightarrow> x \<le> y \<and> \<not> y \<le> x"
    by (simp add: less_eq_StorageEntry_ext_def less_StorageEntry_ext_def)
  show "x \<le> x"
    by (simp add: less_eq_StorageEntry_ext_def StorageEntry_le_def)
  show "x \<le> y \<Longrightarrow> y \<le> z \<Longrightarrow> x \<le> z"
    unfolding less_eq_StorageEntry_ext_def StorageEntry_le_def by (rule order_trans)
  show "x \<le> y \<Longrightarrow> y \<le> x \<Longrightarrow> x = y"
    unfolding less_eq_StorageEntry_ext_def StorageEntry_le_def by (drule (1) antisym) simp
  show "x \<le> y \<or> y \<le> x"
    unfolding less_eq_StorageEntry_ext_def StorageEntry_le_def by (rule linear)
qed

end

lemmas entry_order_defs = less_eq_StorageEntry_ext_def less_StorageEntry_ext_def StorageEntry_le_def

lemma entry_le_key: "(a :: StorageEntry) \<le> b \<Longrightarrow> se_key a \<le> se_key b"
  by (auto simp: entry_order_defs)

definition value_entry :: "string \<Rightarrow> Value \<Rightarrow> StorageEntry" where
  "value_entry k v = \<lparr>se_key = k, se_value = val_value v, se_version = val_version v\<rparr>"

definition entry_value :: "StorageEntry \<Rightarrow> Value" where
  "entry_value e = \<lparr>val_value = se_value e, val_version = se_version e\<rparr>"

section \<open>The KwStorage interface\<close>

text \<open>
  \<open>KwStorage\<close> promises, over the map from keys to versioned values that a storage stands for:
  \<open>Get\<close> looks the key up and reports \<open>kNotFound\<close> for an absent one, \<open>Insert\<close> stores the value,
  \<open>Remove\<close> stores a tombstone (a value without content) that keeps the version of the removal, and
  no other key changes. An operation returns \<open>None\<close> for anything but a normal return; the laws
  say that within the invariant it does return.
\<close>

locale kw_storage =
  fixes get :: "string \<Rightarrow> 's \<Rightarrow> (Value res \<times> 's) exec"
    and remove :: "string \<Rightarrow> u64 \<Rightarrow> 's \<Rightarrow> 's exec"
    and insert :: "KwPair \<Rightarrow> 's \<Rightarrow> 's exec"
    and view :: "'s \<Rightarrow> string \<Rightarrow> Value option"
    and inv :: "'s \<Rightarrow> bool"
  assumes get_found: "inv s \<Longrightarrow> view s k = Some v \<Longrightarrow> \<exists>s'. get k s = Ret (Inr v, s') \<and> inv s' \<and> view s' = view s"
    and get_missing: "inv s \<Longrightarrow> view s k = None \<Longrightarrow>
      \<exists>e s'. get k s = Ret (Inl e, s') \<and> Wraps e kNotFound \<and> inv s' \<and> view s' = view s"
    and remove_law: "inv s \<Longrightarrow> \<exists>s'. remove k ver s = Ret s' \<and> inv s' \<and>
      view s' = (view s)(k \<mapsto> \<lparr>val_value = None, val_version = ver\<rparr>)"
    and insert_law: "inv s \<Longrightarrow> \<exists>s'. insert p s = Ret s' \<and> inv s' \<and>
      view s' = (view s)(kw_key p \<mapsto> \<lparr>val_value = Some (kw_value p), val_version = kw_version p\<rparr>)"

section \<open>MapStorage\<close>

text \<open>
  \<open>map_\<close> is a \<open>boost::concurrent_flat_map\<close>: an association list with distinct keys, in the order
  (arbitrary to the code) in which the hash map is iterated.
\<close>

record MapStorage =
  ms_map :: "(string \<times> Value) list"

definition kNotFound_msg :: "string \<Rightarrow> string" where
  "kNotFound_msg k = ''key '' @ k @ '' not found in storage''"

definition new_MapStorage :: MapStorage where
  "new_MapStorage = \<lparr>ms_map = []\<rparr>"

definition MapStorage_Get :: "string \<Rightarrow> MapStorage \<Rightarrow> Value res" where
  "MapStorage_Get k s = (case map_of (ms_map s) k of
       None \<Rightarrow> Inl (MakeError kNotFound (kNotFound_msg k))
     | Some v \<Rightarrow> Inr v)"

definition MapStorage_Remove :: "string \<Rightarrow> u64 \<Rightarrow> MapStorage \<Rightarrow> MapStorage" where
  "MapStorage_Remove k ver s =
     s\<lparr>ms_map := AList.update k \<lparr>val_value = None, val_version = ver\<rparr> (ms_map s)\<rparr>"

definition MapStorage_Insert :: "KwPair \<Rightarrow> MapStorage \<Rightarrow> MapStorage" where
  "MapStorage_Insert p s = s\<lparr>ms_map := AList.update (kw_key p)
     \<lparr>val_value = Some (kw_value p), val_version = kw_version p\<rparr> (ms_map s)\<rparr>"

definition MapStorage_Size :: "MapStorage \<Rightarrow> nat" where
  "MapStorage_Size s = length (ms_map s)"

definition MapStorage_GetUnderlying :: "MapStorage \<Rightarrow> (string \<times> Value) list" where
  "MapStorage_GetUnderlying s = ms_map s"

fun ToEntries :: "(string \<times> Value) list \<Rightarrow> StorageEntry list" where
  "ToEntries [] = []"
| "ToEntries ((k, v) # m) = value_entry k v # ToEntries m"

subsection \<open>Lemmas\<close>

definition ms_inv :: "MapStorage \<Rightarrow> bool" where
  "ms_inv s \<longleftrightarrow> distinct (map fst (ms_map s))"

definition ms_view :: "MapStorage \<Rightarrow> string \<Rightarrow> Value option" where
  "ms_view s = map_of (ms_map s)"

lemma ms_inv_new [simp]: "ms_inv new_MapStorage"
  by (simp add: ms_inv_def new_MapStorage_def)

lemma ms_view_new [simp]: "ms_view new_MapStorage = Map.empty"
  by (simp add: ms_view_def new_MapStorage_def)

lemma ms_inv_Remove [simp]: "ms_inv s \<Longrightarrow> ms_inv (MapStorage_Remove k v s)"
  by (simp add: ms_inv_def MapStorage_Remove_def)

lemma ms_inv_Insert [simp]: "ms_inv s \<Longrightarrow> ms_inv (MapStorage_Insert p s)"
  by (simp add: ms_inv_def MapStorage_Insert_def)

lemma ms_view_Remove [view_simps]:
  "ms_view (MapStorage_Remove k ver s) = (ms_view s)(k \<mapsto> \<lparr>val_value = None, val_version = ver\<rparr>)"
  by (simp add: ms_view_def MapStorage_Remove_def)

lemma ms_view_Insert [view_simps]:
  "ms_view (MapStorage_Insert p s) =
     (ms_view s)(kw_key p \<mapsto> \<lparr>val_value = Some (kw_value p), val_version = kw_version p\<rparr>)"
  by (simp add: ms_view_def MapStorage_Insert_def)

lemma MapStorage_Get_view:
  "MapStorage_Get k s = (case ms_view s k of
     None \<Rightarrow> Inl (MakeError kNotFound (kNotFound_msg k)) | Some v \<Rightarrow> Inr v)"
  by (simp add: MapStorage_Get_def ms_view_def)

interpretation ms: kw_storage
  "\<lambda>k s. Ret (MapStorage_Get k s, s)" "\<lambda>k ver s. Ret (MapStorage_Remove k ver s)"
  "\<lambda>p s. Ret (MapStorage_Insert p s)" ms_view ms_inv
  by unfold_locales (auto simp: MapStorage_Get_view view_simps)

lemma ToEntries_map: "ToEntries m = map (\<lambda>(k, v). value_entry k v) m"
  by (induction m rule: ToEntries.induct) auto

lemma keys_ToEntries: "map se_key (ToEntries m) = map fst m"
  by (simp add: ToEntries_map value_entry_def case_prod_beta comp_def)

text \<open>The entries of a table, looked up by key: what a reader of the collected data may see.\<close>

definition entries_view :: "StorageEntry list \<Rightarrow> string \<Rightarrow> Value option" where
  "entries_view es k = map_option entry_value (List.find (\<lambda>e. se_key e = k) es)"

lemma entries_view_Nil [simp]: "entries_view [] = Map.empty"
  by (simp add: entries_view_def fun_eq_iff)

lemma entries_view_Cons [simp]:
  "entries_view (e # es) = (\<lambda>k. if k = se_key e then Some (entry_value e) else entries_view es k)"
  by (auto simp: entries_view_def fun_eq_iff)

lemma entries_view_ToEntries: "entries_view (ToEntries m) = map_of m"
  by (induction m rule: ToEntries.induct)
    (auto simp: fun_eq_iff value_entry_def entry_value_def)

lemma entries_view_eq_map_of:
  "entries_view es = map_of (map (\<lambda>e. (se_key e, entry_value e)) es)"
  by (induction es) (auto simp: fun_eq_iff)

lemma entries_view_perm:
  assumes "mset es = mset es'" "distinct (map se_key es)"
  shows "entries_view es = entries_view es'"
proof -
  let ?f = "\<lambda>e. (se_key e, entry_value e)"
  have keys: "map fst (map ?f xs) = map se_key xs" for xs by simp
  have "mset (map se_key es) = mset (map se_key es')"
    using assms(1) by simp
  then have "distinct (map se_key es')"
    using assms(2) mset_eq_imp_distinct_iff by blast
  moreover have "set (map ?f es) = set (map ?f es')"
    using mset_eq_setD [OF assms(1)] by simp
  ultimately show ?thesis
    using assms(2) unfolding entries_view_eq_map_of
    by (subst map_of_inject_set) (simp_all add: comp_def)
qed

lemma find_entries_view:
  "List.find (\<lambda>e. se_key e = k) es = map_option (value_entry k) (entries_view es k)"
  by (induction es) (auto simp: value_entry_def entry_value_def)

end
