(* ===== verification/Codec.thy ===== *)
theory Codec
  imports Prelude "HOL-Library.Sublist"
begin

text \<open>
  The messages of \<open>wal.proto\<close> and \<open>persistent.proto\<close> and the serialisers the code calls. The
  protobuf library is not part of the repository: its functions are parameters of the model,
  gathered in a record of type \<open>codecs\<close> that every operation on files takes as its first
  argument. \<open>codecs_ok\<close> states what its documentation promises. A proto2 \<open>optional\<close> field is an
  option, whose getter returns the default when it is unset.
\<close>

section \<open>Messages\<close>

record PEntry =
  pe_key :: "string option"
  pe_value :: "string option"
  pe_version :: "u64 option"

record TableIndex =
  ti_map_size :: "u64 option"
  ti_index :: "u64 list"

record MetadataEntry =
  me_filename :: "string option"

record Metadata =
  md_entry :: "MetadataEntry list"

record WRemove =
  wr_key :: "string option"
  wr_version :: "u64 option"

record WInsert =
  wi_key :: "string option"
  wi_value :: "string option"
  wi_version :: "u64 option"

datatype WEntry = WNotSet | WRemoveOp WRemove | WInsertOp WInsert

definition get_string :: "string option \<Rightarrow> string" where
  "get_string x = (case x of None \<Rightarrow> [] | Some s \<Rightarrow> s)"

definition get_u64 :: "u64 option \<Rightarrow> u64" where
  "get_u64 x = (case x of None \<Rightarrow> 0 | Some n \<Rightarrow> n)"

lemma get_simps [simp]:
  "get_string (Some s) = s" "get_string None = []" "get_u64 (Some n) = n" "get_u64 None = 0"
  by (simp_all add: get_string_def get_u64_def)

section \<open>Serialisers\<close>

text \<open>
  \<open>SerializeDelimitedToOstream\<close> and \<open>ParseDelimitedFromZeroCopyStream\<close>: the parser says that the
  stream ended on a message boundary, that what it found is no message, or which message it
  read and how many bytes that took. \<open>SerializeToOstream\<close> and \<open>ParseFromIstream\<close> treat a whole
  stream as one message.
\<close>

datatype 'm parsed = Eof | Bad | Msg 'm nat

record 'm delimited =
  d_ser :: "'m \<Rightarrow> bytes"
  d_parse :: "bytes \<Rightarrow> 'm parsed"

record 'm whole =
  w_ser :: "'m \<Rightarrow> bytes"
  w_parse :: "bytes \<Rightarrow> 'm option"

record codecs =
  c_wal :: "WEntry delimited"
  c_entry :: "PEntry delimited"
  c_index :: "TableIndex whole"
  c_meta :: "Metadata whole"

definition delimited_ok :: "'m delimited \<Rightarrow> bool" where
  "delimited_ok d \<longleftrightarrow> d_parse d [] = Eof \<and> (\<forall>m. d_ser d m \<noteq> []) \<and>
     (\<forall>m rest. d_parse d (d_ser d m @ rest) = Msg m (length (d_ser d m))) \<and>
     (\<forall>m p. p \<noteq> [] \<longrightarrow> strict_prefix p (d_ser d m) \<longrightarrow> d_parse d p = Bad)"

definition whole_ok :: "'m whole \<Rightarrow> bool" where
  "whole_ok w \<longleftrightarrow> (\<forall>m. w_parse w (w_ser w m) = Some m)"

definition codecs_ok :: "codecs \<Rightarrow> bool" where
  "codecs_ok cs \<longleftrightarrow> delimited_ok (c_wal cs) \<and> delimited_ok (c_entry cs) \<and>
     whole_ok (c_index cs) \<and> whole_ok (c_meta cs)"

lemma codecs_okD:
  "codecs_ok cs \<Longrightarrow> delimited_ok (c_wal cs)" "codecs_ok cs \<Longrightarrow> delimited_ok (c_entry cs)"
  "codecs_ok cs \<Longrightarrow> whole_ok (c_index cs)" "codecs_ok cs \<Longrightarrow> whole_ok (c_meta cs)"
  by (simp_all add: codecs_ok_def)

lemma delimited_parse_ser:
  "delimited_ok d \<Longrightarrow> d_parse d (d_ser d m @ rest) = Msg m (length (d_ser d m))"
  by (simp add: delimited_ok_def)

lemma delimited_parse_Nil: "delimited_ok d \<Longrightarrow> d_parse d [] = Eof"
  by (simp add: delimited_ok_def)

lemma delimited_parse_torn:
  "delimited_ok d \<Longrightarrow> p \<noteq> [] \<Longrightarrow> strict_prefix p (d_ser d m) \<Longrightarrow> d_parse d p = Bad"
  by (auto simp: delimited_ok_def)

lemma delimited_ser_nonempty: "delimited_ok d \<Longrightarrow> d_ser d m \<noteq> []"
  by (simp add: delimited_ok_def)

lemma whole_parse_ser: "whole_ok w \<Longrightarrow> w_parse w (w_ser w m) = Some m"
  by (simp add: whole_ok_def)

text \<open>Where the \<open>i\<close>-th of a sequence of delimited messages starts.\<close>

definition ser_all :: "'m delimited \<Rightarrow> 'm list \<Rightarrow> bytes" where
  "ser_all d ms = concat (map (d_ser d) ms)"

lemma ser_all_simps [simp]:
  "ser_all d [] = []" "ser_all d (m # ms) = d_ser d m @ ser_all d ms"
  "ser_all d (ms @ ns) = ser_all d ms @ ser_all d ns"
  by (simp_all add: ser_all_def)

lemma parse_at_offset:
  assumes "delimited_ok d" "i < length ms"
  shows "d_parse d (drop (length (ser_all d (take i ms))) (ser_all d ms @ rest)) =
    Msg (ms ! i) (length (d_ser d (ms ! i)))"
proof -
  have "ser_all d ms = ser_all d (take i ms) @ ser_all d (drop i ms)"
    by (metis append_take_drop_id ser_all_simps(3))
  moreover have "drop i ms = ms ! i # drop (Suc i) ms"
    using assms(2) by (rule Cons_nth_drop_Suc [symmetric])
  ultimately show ?thesis by (simp add: delimited_parse_ser [OF assms(1)])
qed

end
