(* ===== verification/Persistent.thy ===== *)
theory Persistent
  imports Filesystem Memstorage Codec
begin

text \<open>
  \<open>PersistentStorage\<close> (\<open>persistent.hpp\<close>, \<open>persistent.cpp\<close>): an immutable sorted table in a data
  file of delimited entries, with the offsets of the entries in an index that is kept in memory
  and in a second file.
\<close>

section \<open>State and construction\<close>

text \<open>\<open>fd_ == -1\<close>, the mark of a moved-from object, is \<^const>\<open>None\<close>.\<close>

record PersistentStorage =
  ps_path :: path
  ps_fd :: "fd option"
  ps_index :: "u64 list"

definition kFailedToCreate :: string where
  "kFailedToCreate = ''failed to create persistent storage''"

definition to_protobuf_entry :: "StorageEntry \<Rightarrow> PEntry" where
  "to_protobuf_entry e =
     \<lparr>pe_key = Some (se_key e), pe_value = se_value e, pe_version = Some (se_version e)\<rparr>"

definition of_protobuf_entry :: "PEntry \<Rightarrow> StorageEntry" where
  "of_protobuf_entry e = \<lparr>se_key = get_string (pe_key e),
     se_value = (case pe_value e of None \<Rightarrow> None | Some v \<Rightarrow> Some v),
     se_version = get_u64 (pe_version e)\<rparr>"

text \<open>The loop of \<open>NewPersistentStorage\<close>: the offset of each entry, then its bytes.\<close>

fun serialize_entries ::
  "codecs \<Rightarrow> StorageEntry list \<Rightarrow> u64 list \<Rightarrow> ofstream \<Rightarrow> fs \<Rightarrow> (u64 list \<times> ofstream) res \<times> fs" where
  "serialize_entries cs [] index f fs = (Inr (index, f), fs)"
| "serialize_entries cs (entry # data) index f fs =
     (let offset = tellp f;
          (is_ok, f1, fs1) = os_write (d_ser (c_entry cs) (to_protobuf_entry entry)) f fs in
      if \<not> is_ok then (Inl (MakeError kUnknown ''failed to serialize entry''), fs1)
      else serialize_entries cs data (index @ [offset]) f1 fs1)"

text \<open>
  The streams are local objects, so their destructors flush them on every path out of the
  function; the flush of the data file comes before the file is opened for reading, the one of
  the index file when the function returns. Neither the result of the index write nor the
  flushes are checked.
\<close>

definition NewPersistentStorage ::
  "codecs \<Rightarrow> StorageEntry list \<Rightarrow> fs \<Rightarrow> PersistentStorage res \<times> fs" where
  "NewPersistentStorage cs data fs =
     (let (path, fs1) = GetPath ''data'' fs in
      case CreateBinaryFile path om_out fs1 of
        (Inl e, fs2) \<Rightarrow> (Inl (WrapError e kUnknown kFailedToCreate), fs2)
      | (Inr f, fs2) \<Rightarrow>
          (case serialize_entries cs (sort data) [] f fs2 of
             (Inl e, fs3) \<Rightarrow> (Inl e, fs3)
           | (Inr (index, f1), fs3) \<Rightarrow>
               let persistent_index =
                     \<lparr>ti_map_size = Some (of_nat (length data)), ti_index = index\<rparr>;
                   index_path = replace_extension path ''.index'' in
               (case CreateBinaryFile index_path om_out fs3 of
                  (Inl e, fs4) \<Rightarrow>
                    (Inl (WrapError e kUnknown ''failed to create index file''), snd (os_flush f1 fs4))
                | (Inr g, fs4) \<Rightarrow>
                    let (_, g1, fs5) = os_write (w_ser (c_index cs) persistent_index) g fs4;
                        (f2, fs6) = os_flush f1 fs5 in
                    (case OpenBinaryFD path fs6 of
                       (Inl e, fs7) \<Rightarrow>
                         (Inl (WrapError e kUnknown ''failed to open persistent storage''),
                          snd (os_flush g1 fs7))
                     | (Inr fd, fs7) \<Rightarrow>
                         (Inr \<lparr>ps_path = path, ps_fd = Some fd, ps_index = index\<rparr>,
                          snd (os_flush g1 fs7))))))"

definition PersistentStorage_Path :: "PersistentStorage \<Rightarrow> path" where
  "PersistentStorage_Path st = ps_path st"

definition LoadPersistentStorage :: "codecs \<Rightarrow> path \<Rightarrow> fs \<Rightarrow> PersistentStorage res \<times> fs" where
  "LoadPersistentStorage cs path fs =
     (let index_path = replace_extension path ''.index'' in
      case OpenBinaryFile index_path fs of
        (Inl e, fs1) \<Rightarrow> (Inl (WrapError e kUnknown ''failed to load index file''), fs1)
      | (Inr index_f, fs1) \<Rightarrow>
          (case w_parse (c_index cs) (fs_data fs1 index_f) of
             None \<Rightarrow> (Inl (MakeError kUnknown ''failed to parse persistent storage header''), fs1)
           | Some header \<Rightarrow>
               (case OpenBinaryFD path fs1 of
                  (Inl e, fs2) \<Rightarrow>
                    (Inl (WrapError e kUnknown ''failed to open persistent storage''), fs2)
                | (Inr fd, fs2) \<Rightarrow>
                    (Inr \<lparr>ps_path = path, ps_fd = Some fd, ps_index = ti_index header\<rparr>, fs2))))"

text \<open>Moving leaves the source without a descriptor.\<close>

definition PersistentStorage_move :: "PersistentStorage \<Rightarrow> PersistentStorage \<times> PersistentStorage" where
  "PersistentStorage_move other = (other, other\<lparr>ps_fd := None, ps_path := [], ps_index := []\<rparr>)"

text \<open>
  The destructor closes the descriptor, if there is one. The move assignment overwrites the
  descriptor of its target without closing it.
\<close>

definition PersistentStorage_destroy :: "PersistentStorage \<Rightarrow> fd list" where
  "PersistentStorage_destroy st = (case ps_fd st of None \<Rightarrow> [] | Some fd \<Rightarrow> [fd])"

definition PersistentStorage_move_assign ::
  "PersistentStorage \<Rightarrow> PersistentStorage \<Rightarrow> PersistentStorage \<times> PersistentStorage" where
  "PersistentStorage_move_assign this other =
     (this\<lparr>ps_fd := ps_fd other, ps_path := ps_path other, ps_index := ps_index other\<rparr>,
      other\<lparr>ps_fd := None, ps_path := [], ps_index := []\<rparr>)"

text \<open>A move hands the descriptor over; an assignment leaks the one that it overwrites.\<close>

lemma move_closes_once:
  "PersistentStorage_move other = (a, b) \<Longrightarrow>
   PersistentStorage_destroy a @ PersistentStorage_destroy b = PersistentStorage_destroy other"
  by (auto simp: PersistentStorage_move_def PersistentStorage_destroy_def split: option.split)

lemma move_assign_leaks:
  assumes "PersistentStorage_move_assign this other = (a, b)" "ps_fd this = Some fd" "ps_fd other \<noteq> Some fd"
  shows "a = other" "fd \<notin> set (PersistentStorage_destroy a @ PersistentStorage_destroy b)"
  using assms by (auto simp: PersistentStorage_move_assign_def PersistentStorage_destroy_def split: option.splits)

section \<open>Reading\<close>

text \<open>
  A read may fail, like any operation of the system: \<open>lseek\<close> and \<open>read\<close> report it to nobody, the parser
  gets no bytes.
\<close>

definition ReadEntryAt :: "codecs \<Rightarrow> fs \<Rightarrow> PersistentStorage \<Rightarrow> u64 \<Rightarrow> StorageEntry res" where
  "ReadEntryAt cs fs st offset =
     (let err = Inl (MakeError kUnknown ''failed to read entry from persistent storage'') in
      case ps_fd st of
        None \<Rightarrow> err
      | Some fd \<Rightarrow>
          if fs_read_fault fs (fs_clock fs) fd (unat offset) then err
          else (case d_parse (c_entry cs) (drop (unat offset) (fs_data fs fd)) of
             Msg entry _ \<Rightarrow> Inr (of_protobuf_entry entry)
           | _ \<Rightarrow> err))"

text \<open>\<open>std::lower_bound\<close> on the range of \<open>len\<close> elements from \<open>first\<close>, with a predicate that may throw.\<close>

function lower_bound :: "('a \<Rightarrow> bool exec) \<Rightarrow> 'a list \<Rightarrow> nat \<Rightarrow> nat \<Rightarrow> nat exec" where
  "lower_bound p xs first len =
     (if len = 0 then Ret first
      else let half = len div 2; middle = first + half in
        exec_bind (p (xs ! middle)) (\<lambda>b.
          if b then lower_bound p xs (Suc middle) (len - half - 1)
          else lower_bound p xs first half))"
  by pat_completeness auto
termination
  by (relation "measure (\<lambda>(p, xs, first, len). len)") auto

declare lower_bound.simps [simp del]

text \<open>\<open>value()\<close> on a failed read throws.\<close>

definition value_or_throw :: "'a res \<Rightarrow> 'a exec" where
  "value_or_throw r = (case r of Inl _ \<Rightarrow> Throw | Inr x \<Rightarrow> Ret x)"

definition PersistentStorage_Get ::
  "codecs \<Rightarrow> fs \<Rightarrow> PersistentStorage \<Rightarrow> string \<Rightarrow> StorageEntry res exec" where
  "PersistentStorage_Get cs fs st key =
     (let not_found = Ret (Inl (MakeError kUnknown
            (''key '' @ key @ '' not found in persistent storage '' @ ps_path st))) in
      exec_bind
        (lower_bound
           (\<lambda>offset. exec_bind (value_or_throw (ReadEntryAt cs fs st offset))
              (\<lambda>entry. Ret (se_key entry < key)))
           (ps_index st) 0 (length (ps_index st)))
        (\<lambda>it. if it \<noteq> length (ps_index st)
          then exec_bind (value_or_throw (ReadEntryAt cs fs st (ps_index st ! it)))
                 (\<lambda>entry. if se_key entry = key then Ret (Inr entry) else not_found)
          else not_found))"

section \<open>Iterators\<close>

text \<open>Dereferencing the end iterator of the index is undefined.\<close>

record Iterator =
  it_storage :: PersistentStorage
  it_index :: nat

definition storage_begin :: "PersistentStorage \<Rightarrow> Iterator" where
  "storage_begin st = \<lparr>it_storage = st, it_index = 0\<rparr>"

definition storage_end :: "PersistentStorage \<Rightarrow> Iterator" where
  "storage_end st = \<lparr>it_storage = st, it_index = length (ps_index st)\<rparr>"

definition Iterator_deref :: "codecs \<Rightarrow> fs \<Rightarrow> Iterator \<Rightarrow> StorageEntry res exec" where
  "Iterator_deref cs fs it =
     (if it_index it < length (ps_index (it_storage it))
      then Ret (ReadEntryAt cs fs (it_storage it) (ps_index (it_storage it) ! it_index it))
      else Undef)"

definition Iterator_next :: "Iterator \<Rightarrow> Iterator" where
  "Iterator_next it = it\<lparr>it_index := Suc (it_index it)\<rparr>"

definition Iterator_postincr :: "Iterator \<Rightarrow> Iterator \<times> Iterator" where
  "Iterator_postincr it = (it, Iterator_next it)"


section \<open>Binary search\<close>

lemma lower_bound_spec:
  assumes "\<forall>i < length xs. p (xs ! i) = Ret (b i)"
    and "\<forall>i j. i \<le> j \<longrightarrow> j < length xs \<longrightarrow> b j \<longrightarrow> b i"
    and "first + len \<le> length xs"
  shows "\<exists>r. lower_bound p xs first len = Ret r \<and> first \<le> r \<and> r \<le> first + len \<and>
    (\<forall>i. first \<le> i \<and> i < r \<longrightarrow> b i) \<and> (\<forall>i. r \<le> i \<and> i < first + len \<longrightarrow> \<not> b i)"
  using assms
proof (induction p xs first len rule: lower_bound.induct)
  case (1 p xs first len)
  show ?case
  proof (cases "len = 0")
    case True
    then show ?thesis by (auto simp: lower_bound.simps [of p xs first 0])
  next
    case False
    let ?h = "len div 2" and ?m = "first + len div 2"
    have m: "?m < length xs" and h: "?h < len" using False "1.prems"(3) by linarith+
    have pm: "p (xs ! ?m) = Ret (b ?m)" using "1.prems"(1) m by blast
    have unf: "lower_bound p xs first len = (if b ?m
        then lower_bound p xs (Suc ?m) (len - ?h - 1) else lower_bound p xs first ?h)"
      using False pm by (simp add: lower_bound.simps [of p xs first len] Let_def)
    show ?thesis
    proof (cases "b ?m")
      case True
      have below: "b i" if "i < Suc ?m" for i
        using "1.prems"(2) that True m by (metis less_Suc_eq_le)
      from "1.IH"(1) [OF False refl refl pm True "1.prems"(1,2)] obtain r where
        "lower_bound p xs (Suc ?m) (len - ?h - 1) = Ret r" "Suc ?m \<le> r" "r \<le> first + len"
        "\<forall>i. Suc ?m \<le> i \<and> i < r \<longrightarrow> b i" "\<forall>i. r \<le> i \<and> i < first + len \<longrightarrow> \<not> b i"
        using h "1.prems"(3) by (auto simp: add.assoc)
      moreover from this have "\<forall>i. first \<le> i \<and> i < r \<longrightarrow> b i"
        using below by (metis not_less)
      ultimately show ?thesis unfolding unf using True
        by (intro exI [of _ r]) auto
    next
      case nb: False
      have above: "\<not> b i" if "?m \<le> i" "i < first + len" for i
        using "1.prems"(2,3) that nb by (meson order_less_le_trans)
      from "1.IH"(2) [OF False refl refl pm nb "1.prems"(1,2)] obtain r where
        "lower_bound p xs first ?h = Ret r" "first \<le> r" "r \<le> first + ?h"
        "\<forall>i. first \<le> i \<and> i < r \<longrightarrow> b i" "\<forall>i. r \<le> i \<and> i < first + ?h \<longrightarrow> \<not> b i"
        using m by auto
      moreover from this have "\<forall>i. r \<le> i \<and> i < first + len \<longrightarrow> \<not> b i"
        using above by (metis not_less)
      ultimately show ?thesis unfolding unf using nb h
        by (intro exI [of _ r]) auto
    qed
  qed
qed

section \<open>Tables\<close>

text \<open>
  The entries of a table, one per index position, and what makes the table usable: reads do not fail,
  there is an entry at every offset and the keys are strictly increasing. \<open>entry_at\<close> is what a read
  gives unless it fails.
\<close>

definition entry_at :: "codecs \<Rightarrow> fs \<Rightarrow> PersistentStorage \<Rightarrow> u64 \<Rightarrow> StorageEntry res" where
  "entry_at cs fs st offset = ReadEntryAt cs (fs\<lparr>fs_read_fault := \<lambda>_ _ _. False\<rparr>) st offset"

lemma ReadEntryAt_cases:
  "ReadEntryAt cs fs st offset = entry_at cs fs st offset \<or>
   (\<not> reads_ok fs \<and> (\<exists>e. ReadEntryAt cs fs st offset = Inl e))"
  by (auto simp: ReadEntryAt_def entry_at_def reads_ok_def Let_def split: option.split)

lemma ReadEntryAt_ok: "reads_ok fs \<Longrightarrow> ReadEntryAt cs fs st = entry_at cs fs st"
  using ReadEntryAt_cases by (simp add: fun_eq_iff) blast

lemma entry_at_same:
  "ps_fd st = Some i \<Longrightarrow> fs_data fs' i = fs_data fs i \<Longrightarrow> entry_at cs fs' st = entry_at cs fs st"
  by (simp add: ReadEntryAt_def entry_at_def fun_eq_iff)

definition ps_entries :: "codecs \<Rightarrow> fs \<Rightarrow> PersistentStorage \<Rightarrow> StorageEntry list" where
  "ps_entries cs fs st = map (\<lambda>off. projr (entry_at cs fs st off)) (ps_index st)"

definition ps_ok :: "codecs \<Rightarrow> fs \<Rightarrow> PersistentStorage \<Rightarrow> bool" where
  "ps_ok cs fs st \<longleftrightarrow> reads_ok fs \<and> (\<forall>off \<in> set (ps_index st). has_value (entry_at cs fs st off)) \<and>
     sorted_wrt (<) (map se_key (ps_entries cs fs st))"

text \<open>Time alone changes nothing in a table.\<close>

lemma entry_at_clock [simp]: "entry_at cs (fs\<lparr>fs_clock := c\<rparr>) = entry_at cs fs"
  by (simp add: entry_at_def ReadEntryAt_def fun_eq_iff Let_def split: option.split)

lemma ps_entries_clock [simp]: "ps_entries cs (fs\<lparr>fs_clock := c\<rparr>) = ps_entries cs fs"
  by (simp add: ps_entries_def fun_eq_iff)

lemma ps_ok_clock [simp]: "ps_ok cs (fs\<lparr>fs_clock := c\<rparr>) st = ps_ok cs fs st"
  by (simp add: ps_ok_def reads_ok_def)

lemma length_ps_entries [simp]: "length (ps_entries cs fs st) = length (ps_index st)"
  by (simp add: ps_entries_def)

lemma ps_ok_read:
  "ps_ok cs fs st \<Longrightarrow> i < length (ps_index st) \<Longrightarrow>
   ReadEntryAt cs fs st (ps_index st ! i) = Inr (ps_entries cs fs st ! i)"
  using nth_mem [of i "ps_index st"] unfolding ps_ok_def ps_entries_def has_value_iff
  by (metis ReadEntryAt_ok nth_map sum.sel(2))

lemma ps_ok_distinct: "ps_ok cs fs st \<Longrightarrow> distinct (map se_key (ps_entries cs fs st))"
  by (simp add: ps_ok_def strict_sorted_iff)

lemma ps_ok_key_less:
  assumes "ps_ok cs fs st" "i < j" "j < length (ps_index st)"
  shows "se_key (ps_entries cs fs st ! i) < se_key (ps_entries cs fs st ! j)"
  using sorted_wrt_nth_less [of "(<)" "map se_key (ps_entries cs fs st)" i j] assms
  by (simp add: ps_ok_def)

lemma find_key_unique:
  assumes "distinct (map se_key es)" "e \<in> set es" "se_key e = k"
  shows "List.find (\<lambda>e. se_key e = k) es = Some e"
  using assms by (induction es) auto

text \<open>The predicate that \<open>Get\<close> passes to the search, and where the search stops.\<close>

lemma ps_lower_bound:
  fixes cs fs st k
  defines "p \<equiv> \<lambda>offset. exec_bind (value_or_throw (ReadEntryAt cs fs st offset))
    (\<lambda>entry. Ret (se_key entry < k))"
  assumes ok: "ps_ok cs fs st"
  obtains r where "lower_bound p (ps_index st) 0 (length (ps_index st)) = Ret r"
    "r \<le> length (ps_index st)" "\<forall>i < r. se_key (ps_entries cs fs st ! i) < k"
    "\<forall>i. r \<le> i \<longrightarrow> i < length (ps_index st) \<longrightarrow> \<not> se_key (ps_entries cs fs st ! i) < k"
proof -
  let ?es = "ps_entries cs fs st" and ?n = "length (ps_index st)"
  have "\<exists>r. lower_bound p (ps_index st) 0 ?n = Ret r \<and> 0 \<le> r \<and> r \<le> 0 + ?n \<and>
    (\<forall>i. 0 \<le> i \<and> i < r \<longrightarrow> se_key (?es ! i) < k) \<and>
    (\<forall>i. r \<le> i \<and> i < 0 + ?n \<longrightarrow> \<not> se_key (?es ! i) < k)"
  proof (rule lower_bound_spec; (intro allI impI)?)
    show "p (ps_index st ! i) = Ret (se_key (?es ! i) < k)" if "i < ?n" for i
      using ps_ok_read [OF ok that] by (simp add: p_def value_or_throw_def)
    show "se_key (?es ! i) < k" if "i \<le> j" "j < ?n" "se_key (?es ! j) < k" for i j
      using ps_ok_key_less [OF ok, of i j] that by (cases "i = j") auto
  qed simp
  then show ?thesis using that by auto
qed

lemma PersistentStorage_Get_hit:
  assumes ok: "ps_ok cs fs st"
    and hit: "List.find (\<lambda>e. se_key e = k) (ps_entries cs fs st) = Some e"
  shows "PersistentStorage_Get cs fs st k = Ret (Inr e)"
proof -
  let ?es = "ps_entries cs fs st" and ?n = "length (ps_index st)"
  from hit obtain j where j: "j < ?n" "?es ! j = e" "se_key e = k"
    by (auto simp: find_Some_iff)
  obtain r where r: "lower_bound
      (\<lambda>offset. exec_bind (value_or_throw (ReadEntryAt cs fs st offset))
         (\<lambda>entry. Ret (se_key entry < k))) (ps_index st) 0 ?n = Ret r" "r \<le> ?n"
    "\<forall>i < r. se_key (?es ! i) < k" "\<forall>i. r \<le> i \<longrightarrow> i < ?n \<longrightarrow> \<not> se_key (?es ! i) < k"
    by (rule ps_lower_bound [OF ok, of k]) (rule that)
  have "\<not> j < r" using r(3) j by auto
  moreover have "\<not> r < j" using r(4) j ps_ok_key_less [OF ok, of r j] by auto
  ultimately have "r = j" by simp
  then show ?thesis
    using r(1) j ps_ok_read [OF ok j(1)] by (simp add: PersistentStorage_Get_def value_or_throw_def)
qed

lemma PersistentStorage_Get_miss:
  assumes ok: "ps_ok cs fs st"
    and miss: "List.find (\<lambda>e. se_key e = k) (ps_entries cs fs st) = None"
  shows "PersistentStorage_Get cs fs st k =
    Ret (Inl (MakeError kUnknown (''key '' @ k @ '' not found in persistent storage '' @ ps_path st)))"
proof -
  let ?es = "ps_entries cs fs st" and ?n = "length (ps_index st)"
  obtain r where r: "lower_bound
      (\<lambda>offset. exec_bind (value_or_throw (ReadEntryAt cs fs st offset))
         (\<lambda>entry. Ret (se_key entry < k))) (ps_index st) 0 ?n = Ret r" "r \<le> ?n"
    by (rule ps_lower_bound [OF ok, of k]) (rule that)
  show ?thesis
  proof (cases "r = ?n")
    case True
    with r show ?thesis by (simp add: PersistentStorage_Get_def)
  next
    case False
    with r(2) have lt: "r < ?n" by simp
    then have "?es ! r \<in> set ?es" by (intro nth_mem) simp
    then have "se_key (?es ! r) \<noteq> k" using miss by (simp add: find_None_iff)
    then show ?thesis
      using r lt ps_ok_read [OF ok lt] by (simp add: PersistentStorage_Get_def value_or_throw_def)
  qed
qed

section \<open>The table interface\<close>

text \<open>
  What the collection and the storage system rely on: within its invariant a table answers a
  lookup with the entry it holds for the key, and with an error value, never an exception, for a
  key it does not hold.
\<close>

locale sorted_table =
  fixes get :: "'t \<Rightarrow> string \<Rightarrow> StorageEntry res exec"
    and entries :: "'t \<Rightarrow> StorageEntry list"
    and ok :: "'t \<Rightarrow> bool"
  assumes get_hit: "ok t \<Longrightarrow> List.find (\<lambda>e. se_key e = k) (entries t) = Some e \<Longrightarrow> get t k = Ret (Inr e)"
    and get_miss: "ok t \<Longrightarrow> List.find (\<lambda>e. se_key e = k) (entries t) = None \<Longrightarrow>
      \<exists>err. get t k = Ret (Inl err)"
    and keys_sorted: "ok t \<Longrightarrow> sorted_wrt (<) (map se_key (entries t))"
begin

text \<open>Searching several tables in order: the first that holds the key answers.\<close>

fun search :: "'t list \<Rightarrow> string \<Rightarrow> StorageEntry option exec" where
  "search [] k = Ret None"
| "search (t # ts) k = exec_bind (get t k) (\<lambda>r. case r of
     Inr e \<Rightarrow> Ret (Some e) | Inl _ \<Rightarrow> search ts k)"

lemma search_eq:
  "\<forall>t \<in> set ts. ok t \<Longrightarrow>
   search ts k = Ret (List.find (\<lambda>e. se_key e = k) (concat (map entries ts)))"
proof (induction ts)
  case (Cons t ts)
  then show ?case
    by (cases "List.find (\<lambda>e. se_key e = k) (entries t)")
      (auto simp: find_rev_append get_hit dest!: get_miss [of t k])
qed simp

lemma keys_distinct: "ok t \<Longrightarrow> distinct (map se_key (entries t))"
  using keys_sorted by (simp add: strict_sorted_iff)

end

interpretation ps: sorted_table "PersistentStorage_Get cs fs" "ps_entries cs fs" "ps_ok cs fs"
  for cs fs
  by unfold_locales (auto simp: PersistentStorage_Get_hit PersistentStorage_Get_miss ps_ok_def)


section \<open>Writing a table\<close>

lemma of_to_protobuf_entry [simp]: "of_protobuf_entry (to_protobuf_entry e) = e"
  by (simp add: of_protobuf_entry_def to_protobuf_entry_def split: option.splits)

fun offsets :: "'m delimited \<Rightarrow> nat \<Rightarrow> 'm list \<Rightarrow> u64 list" where
  "offsets d n [] = []"
| "offsets d n (m # ms) = of_nat n # offsets d (n + length (d_ser d m)) ms"

lemma length_offsets [simp]: "length (offsets d n ms) = length ms"
  by (induction d n ms rule: offsets.induct) auto

lemma offsets_nth:
  "i < length ms \<Longrightarrow> offsets d n ms ! i = of_nat (n + length (ser_all d (take i ms)))"
  by (induction d n ms arbitrary: i rule: offsets.induct)
    (auto simp: nth_Cons add.assoc split: nat.splits)

lemma length_ser_all_take: "length (ser_all d (take i ms)) \<le> length (ser_all d ms)"
  by (metis append_take_drop_id le_add1 length_append ser_all_simps(3))

definition table_bytes :: "codecs \<Rightarrow> StorageEntry list \<Rightarrow> bytes" where
  "table_bytes cs es = ser_all (c_entry cs) (map to_protobuf_entry es)"

definition table_index :: "codecs \<Rightarrow> StorageEntry list \<Rightarrow> u64 list" where
  "table_index cs es = offsets (c_entry cs) 0 (map to_protobuf_entry es)"

lemma serialize_entries_spec:
  assumes "stream_at f fs [] 0 acc" "fs_ok fs"
  shows "\<exists>f' fs'. serialize_entries cs es index f fs =
      (Inr (index @ offsets (c_entry cs) (length acc) (map to_protobuf_entry es), f'), fs') \<and>
    stream_at f' fs' [] 0 (acc @ table_bytes cs es) \<and> os_ino f' = os_ino f \<and>
    touches (os_ino f) fs fs'"
  using assms
proof (induction es arbitrary: index f fs acc)
  case Nil
  then show ?case by (simp add: table_bytes_def)
next
  case (Cons e es)
  let ?b = "d_ser (c_entry cs) (to_protobuf_entry e)"
  obtain ok f1 fs1 where w: "os_write ?b f fs = (ok, f1, fs1)" by (metis prod_cases3)
  note s = os_write_spec [OF Cons.prems w]
  have "fs_ok fs1" using s(4) Cons.prems(2) by (simp add: touches_same)
  from Cons.IH [OF s(2) this, of "index @ [tellp f]"] s(1,3) obtain f' fs' where
    "serialize_entries cs es (index @ [tellp f]) f1 fs1 =
      (Inr ((index @ [tellp f]) @ offsets (c_entry cs) (length acc + length ?b)
         (map to_protobuf_entry es), f'), fs')"
    "stream_at f' fs' [] 0 ((acc @ ?b) @ table_bytes cs es)" "os_ino f' = os_ino f"
    "touches (os_ino f) fs1 fs'" by auto
  with s(1,4) w tellp_stream_at [OF Cons.prems(1)] show ?case
    by (auto simp: table_bytes_def intro: touches_trans)
qed

text \<open>A data file with the bytes of a sorted list of entries reads back as that list.\<close>

lemma written_table:
  assumes "codecs_ok cs" "ps_fd st = Some i" "fs_data fs i = table_bytes cs es"
    and "ps_index st = table_index cs es" "length (table_bytes cs es) < 2 ^ 64"
  shows "\<forall>off \<in> set (ps_index st). has_value (entry_at cs fs st off)"
    "ps_entries cs fs st = es"
proof -
  let ?ms = "map to_protobuf_entry es" and ?d = "c_entry cs"
  have read: "entry_at cs fs st (ps_index st ! j) = Inr (es ! j)" if "j < length es" for j
  proof -
    have "length (ser_all ?d (take j ?ms)) < 2 ^ 64"
      using length_ser_all_take [of ?d j ?ms] assms(5) by (simp add: table_bytes_def)
    then have "unat (ps_index st ! j) = length (ser_all ?d (take j ?ms))"
      using that unfolding assms(4) table_index_def by (simp add: offsets_nth unat_of_nat64)
    then show ?thesis
      using parse_at_offset [OF codecs_okD(2) [OF assms(1)], of j ?ms "[]"] that assms(2,3)
      by (simp add: entry_at_def ReadEntryAt_def table_bytes_def)
  qed
  have len: "length (ps_index st) = length es" by (simp add: assms(4) table_index_def)
  then show "\<forall>off \<in> set (ps_index st). has_value (entry_at cs fs st off)"
    using read by (auto simp: in_set_conv_nth)
  show "ps_entries cs fs st = es"
    using read len by (intro nth_equalityI) (simp_all add: ps_entries_def)
qed

text \<open>
  \<open>ps_stored\<close>: the directory has the two files of the storage, and the index file parses to the
  index that is in memory, so that the storage can be loaded again.
\<close>

definition ps_stored :: "codecs \<Rightarrow> fs \<Rightarrow> PersistentStorage \<Rightarrow> bool" where
  "ps_stored cs fs st \<longleftrightarrow> (\<exists>i j h. ps_fd st = Some i \<and> map_of (fs_dir fs) (ps_path st) = Some i \<and>
     map_of (fs_dir fs) (replace_extension (ps_path st) ''.index'') = Some j \<and>
     w_parse (c_index cs) (fs_data fs j) = Some h \<and> ti_index h = ps_index st)"

lemma LoadPersistentStorage_stored:
  assumes "fs_ok fs" "ps_stored cs fs st"
  shows "LoadPersistentStorage cs (ps_path st) fs = (Inr st, tick (tick fs))"
proof -
  from assms(2) obtain i j h where *: "ps_fd st = Some i" "map_of (fs_dir fs) (ps_path st) = Some i"
    "map_of (fs_dir fs) (replace_extension (ps_path st) ''.index'') = Some j"
    "w_parse (c_index cs) (fs_data fs j) = Some h" "ti_index h = ps_index st"
    by (auto simp: ps_stored_def)
  then have "st = \<lparr>ps_path = ps_path st, ps_fd = Some i, ps_index = ti_index h\<rparr>" by simp
  with * assms(1) show ?thesis
    by (simp add: LoadPersistentStorage_def OpenBinaryFile_ok OpenBinaryFD_ok)
qed


text \<open>
  The second half of \<open>NewPersistentStorage\<close>, from the open data stream \<open>f\<close> (inode \<open>i\<close>) that has
  been given the bytes \<open>acc\<close>: the index file is written, the data file flushed and reopened.
\<close>

lemma write_index_and_open:
  assumes ok: "fs_ok fs" and f: "stream_at f fs [] 0 acc" "os_ino f = i" "i < fs_next fs"
    and p: "map_of (fs_dir fs) p = Some i"
    and q: "map_of (fs_dir fs) q = None" "not_future fs q" "parent_path q \<in> set (fs_dirs fs)"
  shows "\<exists>g fs4 is_ok g1 fs5 f2 fs6 fs8.
    CreateBinaryFile q om_out fs = (Inr g, fs4) \<and> os_write bs g fs4 = (is_ok, g1, fs5) \<and>
    os_flush f fs5 = (f2, fs6) \<and> OpenBinaryFD p fs6 = (Inr i, tick fs6) \<and>
    snd (os_flush g1 (tick fs6)) = fs8 \<and> fs_ok fs8 \<and>
    map_of (fs_dir fs8) = (map_of (fs_dir fs))(q \<mapsto> fs_next fs) \<and>
    fs_data fs8 i = acc \<and> fs_data fs8 (fs_next fs) = bs \<and>
    (\<forall>j < fs_next fs. j \<noteq> i \<longrightarrow> fs_data fs8 j = fs_data fs j) \<and> same_env fs fs8 \<and>
    fs_uuid_pos fs8 = fs_uuid_pos fs"
proof -
  let ?n = "fs_next fs" and ?g = "new_ofstream (fs_next fs)" and ?fs4 = "created q fs"
  have c: "CreateBinaryFile q om_out fs = (Inr ?g, ?fs4)"
    using ok q by (intro CreateBinaryFile_new) simp_all
  have ok4: "fs_ok ?fs4" using ok q by (intro fs_ok_created)
  have g: "stream_at ?g ?fs4 [] 0 []"
    using stream_at_new [of ?n ?fs4] by simp
  obtain is_ok g1 fs5 where w: "os_write bs ?g ?fs4 = (is_ok, g1, fs5)" by (metis prod_cases3)
  note gw = os_write_spec [OF g ok4 w]
  have ino: "os_ino ?g = ?n" "os_ino g1 = ?n" using gw(3) by (simp_all add: new_ofstream_def)
  note t5 = touches_same [OF gw(4) [unfolded ino(1)]]
  have ok5: "fs_ok fs5" using t5 ok4 by simp
  have f5: "stream_at f fs5 [] 0 acc"
    using f stream_at_cong [of fs5 f fs] t5(12) by simp
  obtain f2 fs6 where fl: "os_flush f fs5 = (f2, fs6)" by (metis surj_pair)
  note ff = os_flush_spec [OF f5 ok5 fl]
  note t6 = touches_same [OF ff(5) [unfolded f(2)]]
  have ok6: "fs_ok fs6" using t6 ok5 by simp
  have o: "OpenBinaryFD p fs6 = (Inr i, tick fs6)"
    using ok6 p t6 t5 q(1) by (intro OpenBinaryFD_ok) auto
  have g6: "stream_at g1 (tick fs6) [] 0 bs"
    using gw(2) stream_at_cong [of "tick fs6" g1 fs5] ino f(3) t6(12) by simp
  obtain g2 fs8 where gl: "os_flush g1 (tick fs6) = (g2, fs8)" by (metis surj_pair)
  have okt: "fs_ok (tick fs6)" using ok6 by simp
  note gf = os_flush_spec [OF g6 okt gl]
  note t8 = touches_same [OF gf(5) [unfolded ino(2)]]
  show ?thesis
  proof (intro exI conjI allI impI)
    show "CreateBinaryFile q om_out fs = (Inr ?g, ?fs4)" by (rule c)
    show "os_write bs ?g ?fs4 = (is_ok, g1, fs5)" by (rule w)
    show "os_flush f fs5 = (f2, fs6)" by (rule fl)
    show "OpenBinaryFD p fs6 = (Inr i, tick fs6)" by (rule o)
    show "snd (os_flush g1 (tick fs6)) = fs8" using gl by simp
    show "fs_ok fs8" using t8 ok6 by simp
    show "map_of (fs_dir fs8) = (map_of (fs_dir fs))(q \<mapsto> fs_next fs)"
      using t8 t6 t5 by simp
    show "fs_data fs8 i = acc" using t8(12) f ff(2) by (simp add: write_at_def)
    show "fs_data fs8 ?n = bs" using gf(2) ino by (simp add: write_at_def)
    show "fs_data fs8 j = fs_data fs j" if "j < fs_next fs" "j \<noteq> i" for j
      using that t8(12) t6(12) t5(12) by simp
    show "same_env fs fs8" "fs_uuid_pos fs8 = fs_uuid_pos fs"
      using t8 t6 t5 by (simp_all add: same_env_def)
  qed
qed

text \<open>What \<open>NewPersistentStorage\<close> leaves behind when the environment refuses nothing.\<close>

definition new_storage_post ::
  "codecs \<Rightarrow> StorageEntry list \<Rightarrow> fs \<Rightarrow> PersistentStorage \<Rightarrow> fs \<Rightarrow> bool" where
  "new_storage_post cs data fs st fs' \<longleftrightarrow>
     fs_ok fs' \<and> fs_extends fs fs' \<and> ps_stored cs fs' st \<and>
     ps_path st = format_path fs (fs_uuid fs (fs_uuid_pos fs)) ''data'' \<and>
     ps_fd st = Some (fs_next fs) \<and> ps_index st = table_index cs (sort data) \<and>
     fs_uuid_pos fs' = Suc (fs_uuid_pos fs) \<and>
     fs_data fs' (fs_next fs) = table_bytes cs (sort data) \<and>
     dom (map_of (fs_dir fs')) = dom (map_of (fs_dir fs)) \<union>
       {ps_path st, format_path fs (fs_uuid fs (fs_uuid_pos fs)) ''index''}"

lemma NewPersistentStorage_post:
  assumes cs: "codecs_ok cs" and ok: "fs_ok fs"
  shows "\<exists>st fs'. NewPersistentStorage cs data fs = (Inr st, fs') \<and> new_storage_post cs data fs st fs'"
proof -
  let ?fmt = "format_path fs (fs_uuid fs (fs_uuid_pos fs))" and ?n = "fs_next fs"
  obtain p fs1 where gp: "GetPath ''data'' fs = (p, fs1)" by (metis surj_pair)
  have "''data'' \<in> set file_extensions" by (simp add: file_extensions_def)
  note gpath = fs_ok_GetPath [OF ok this gp]
  have dirs1: "fs_kdir fs \<in> set (fs_dirs fs1)" "fs_next fs1 = ?n" "fs_dir fs1 = fs_dir fs"
    using gpath(2,7) by simp_all
  have c: "CreateBinaryFile p om_out fs1 = (Inr (new_ofstream ?n), created p fs1)"
    using CreateBinaryFile_new [of fs1 p om_out] gpath(3-5) dirs1 by simp
  let ?fs2 = "created p fs1" and ?f = "new_ofstream ?n"
  have ok2: "fs_ok ?fs2" using gpath(3,4,6) by (intro fs_ok_created)
  have "stream_at ?f ?fs2 [] 0 []" using stream_at_new [of ?n ?fs2] dirs1(2) by simp
  from serialize_entries_spec [OF this ok2, of cs "sort data" "[]"] obtain f1 fs3 where
    s: "serialize_entries cs (sort data) [] ?f ?fs2 = (Inr (table_index cs (sort data), f1), fs3)"
      "stream_at f1 fs3 [] 0 (table_bytes cs (sort data))" "os_ino f1 = ?n" "touches ?n ?fs2 fs3"
    by (auto simp: table_index_def new_ofstream_def)
  note t3 = touches_same [OF s(4)]
  have ok3: "fs_ok fs3" using t3 ok2 by simp
  have uok: "uuids_ok fs" "datadir_ok fs" using ok by (simp_all add: fs_ok_def)
  let ?q = "?fmt ''index''"
  have q: "replace_extension p ''.index'' = ?q"
    unfolding gpath(1) using uok(1) by (simp add: replace_extension_format)
  have pq: "p \<noteq> ?q" unfolding gpath(1) using uok(1) by (simp add: format_path_inject)
  have dir3: "map_of (fs_dir fs3) = (map_of (fs_dir fs))(p \<mapsto> ?n)"
    using t3 dirs1 by simp
  have "map_of (fs_dir fs) ?q = None"
    using ok by (simp add: fs_ok_def fresh_ok_def file_extensions_def)
  then have q3: "map_of (fs_dir fs3) ?q = None" using dir3 pq by simp
  have nf3: "not_future fs3 ?q"
    using format_path_inject [OF uok(1)] t3 gpath(2)
    by (auto simp: not_future_def format_path_def GetDataDir_def)
  have par3: "parent_path ?q \<in> set (fs_dirs fs3)"
    using t3 dirs1 uok(1) by (simp add: parent_format)
  have n3: "?n < fs_next fs3" "fs_next fs3 = Suc ?n" using t3 dirs1 by simp_all
  have p3: "map_of (fs_dir fs3) p = Some ?n" using dir3 by simp
  let ?bs = "w_ser (c_index cs) \<lparr>ti_map_size = Some (of_nat (length data)), ti_index = table_index cs (sort data)\<rparr>"
  from write_index_and_open [OF ok3 s(2,3) n3(1) p3 q3 nf3 par3, of ?bs]
  obtain g fs4 is_ok g1 fs5 f2 fs6 fs8 where w:
    "CreateBinaryFile ?q om_out fs3 = (Inr g, fs4)" "os_write ?bs g fs4 = (is_ok, g1, fs5)"
    "os_flush f1 fs5 = (f2, fs6)" "OpenBinaryFD p fs6 = (Inr ?n, tick fs6)"
    "snd (os_flush g1 (tick fs6)) = fs8" "fs_ok fs8"
    "map_of (fs_dir fs8) = (map_of (fs_dir fs3))(?q \<mapsto> fs_next fs3)"
    "fs_data fs8 ?n = table_bytes cs (sort data)" "fs_data fs8 (fs_next fs3) = ?bs"
    "\<forall>j < fs_next fs3. j \<noteq> ?n \<longrightarrow> fs_data fs8 j = fs_data fs3 j" "same_env fs3 fs8"
    "fs_uuid_pos fs8 = fs_uuid_pos fs3" by blast
  let ?st = "\<lparr>ps_path = p, ps_fd = Some ?n, ps_index = table_index cs (sort data)\<rparr>"
  have "NewPersistentStorage cs data fs = (Inr ?st, fs8)"
    using w(1-5) by (simp add: NewPersistentStorage_def gp c s(1) q Let_def)
  moreover have "ps_stored cs fs8 ?st"
    unfolding ps_stored_def using w(7,9) dir3 pq q codecs_okD(3) [OF cs]
    by (auto simp: whole_parse_ser)
  moreover have "fs_extends fs fs8"
    using w(7,10,11) dir3 q3 t3 dirs1 gpath(2,4) n3
    by (auto simp: fs_extends_def same_env_def)
  ultimately show ?thesis
    using w(6-8,12) t3 dir3 gpath(1,2) unfolding new_storage_post_def by auto
qed


lemma sort_entries_strict:
  assumes "distinct (map se_key data)"
  shows "sorted_wrt (<) (map se_key (sort (data :: StorageEntry list)))"
proof -
  have "sorted (map se_key (sort data))"
    using sorted_wrt_mono_rel [of "sort data" "(\<le>)" "\<lambda>a b. se_key a \<le> se_key b"]
    by (simp add: sorted_map entry_le_key)
  moreover have "distinct (map se_key (sort data))"
    using assms mset_eq_imp_distinct_iff [of "map se_key (sort data)" "map se_key data"] by simp
  ultimately show ?thesis by (simp add: strict_sorted_iff)
qed

lemma new_storage_ok:
  assumes "codecs_ok cs" "new_storage_post cs data fs st fs'" "distinct (map se_key data)"
    and "length (table_bytes cs (sort data)) < 2 ^ 64"
  shows "ps_ok cs fs' st" "ps_entries cs fs' st = sort data"
proof -
  note p = assms(2) [unfolded new_storage_post_def]
  from written_table [OF assms(1), of st "fs_next fs" fs' "sort data"] p assms(4)
  have "\<forall>off \<in> set (ps_index st). has_value (entry_at cs fs' st off)"
    and e: "ps_entries cs fs' st = sort data" by simp_all
  then show "ps_ok cs fs' st" "ps_entries cs fs' st = sort data"
    using sort_entries_strict [OF assms(3)] p fs_ok_reads by (simp_all add: ps_ok_def)
qed

text \<open>A table stays the same as long as its inode keeps its contents.\<close>

lemma ps_frame:
  assumes "ps_fd st = Some i" "fs_data fs' i = fs_data fs i" "reads_ok fs' = reads_ok fs"
  shows "ps_entries cs fs' st = ps_entries cs fs st" "ps_ok cs fs' st = ps_ok cs fs st"
proof -
  note r = entry_at_same [OF assms(1,2), of cs]
  show "ps_entries cs fs' st = ps_entries cs fs st"
    by (simp add: ps_entries_def r)
  then show "ps_ok cs fs' st = ps_ok cs fs st" using assms(3) by (simp add: ps_ok_def r)
qed

lemma ps_stored_extends:
  assumes "fs_ok fs" "fs_extends fs fs'" "ps_stored cs fs st"
  shows "ps_stored cs fs' st"
proof -
  from assms(3) obtain i j h where *: "ps_fd st = Some i" "map_of (fs_dir fs) (ps_path st) = Some i"
    "map_of (fs_dir fs) (replace_extension (ps_path st) ''.index'') = Some j"
    "w_parse (c_index cs) (fs_data fs j) = Some h" "ti_index h = ps_index st"
    by (auto simp: ps_stored_def)
  moreover have "fs_data fs' j = fs_data fs j"
    using fs_extends_data [OF assms(2)] fs_ok_inode_bound [OF assms(1) *(3)] by simp
  ultimately show ?thesis
    unfolding ps_stored_def
    using fs_extends_dir [OF assms(2) *(2)] fs_extends_dir [OF assms(2) *(3)] by auto
qed

lemma ps_stored_touches:
  assumes "touches i fs fs'" "ps_stored cs fs st"
    "map_of (fs_dir fs) (replace_extension (ps_path st) ''.index'') \<noteq> Some i"
  shows "ps_stored cs fs' st"
  using assms(2,3) unfolding ps_stored_def touches_same(2) [OF assms(1)]
  by (elim exE conjE) (simp add: touches_same(12) [OF assms(1)])

lemma ps_stored_fd: "ps_stored cs fs st \<Longrightarrow> \<exists>i. ps_fd st = Some i \<and> map_of (fs_dir fs) (ps_path st) = Some i"
  by (auto simp: ps_stored_def)

end
