(* ===== verification/Collection.thy ===== *)
theory Collection
  imports Persistent
begin

text \<open>
  \<open>PersistentStorageCollection\<close> (\<open>persistent_collection.hpp\<close>,
  \<open>persistent_storage_collection.cpp\<close>): the list of tables, oldest first, and the metadata file
  that names their data files. The strand serialises the accesses to the list, so each operation
  is one step on it.
\<close>

section \<open>Metadata\<close>

definition kMetadata :: path where
  "kMetadata = ''persistent.metadata''"

definition ReadMetadata :: "codecs \<Rightarrow> path \<Rightarrow> fs \<Rightarrow> Metadata res \<times> fs" where
  "ReadMetadata cs name fs =
     (case OpenBinaryFile (path_append (GetDataDir fs) name) fs of
        (Inl e, fs1) \<Rightarrow> (Inl (MakeError kUnknown ''failed to open metadata file''), fs1)
      | (Inr f, fs1) \<Rightarrow>
          (case w_parse (c_meta cs) (fs_data fs1 f) of
             None \<Rightarrow> (Inl (MakeError kUnknown ''failed to parse metadata file''), fs1)
           | Some metadata \<Rightarrow> (Inr metadata, fs1)))"

text \<open>
  \<open>AppendMetadata(storage, filename)\<close> reads the metadata from the default file, whatever \<open>filename\<close>
  is, and writes the extended metadata to \<open>filename\<close>.
\<close>

definition AppendMetadata :: "codecs \<Rightarrow> PersistentStorage \<Rightarrow> path \<Rightarrow> fs \<Rightarrow> unit res \<times> fs" where
  "AppendMetadata cs storage name fs =
     (let (metadata_opt, fs1) = ReadMetadata cs kMetadata fs;
          metadata = (case metadata_opt of Inl _ \<Rightarrow> \<lparr>md_entry = []\<rparr> | Inr m \<Rightarrow> m) in
      case CreateBinaryFile (path_append (GetDataDir fs1) name) om_trunc fs1 of
        (Inl e, fs2) \<Rightarrow> (Inl (WrapError e kUnknown ''failed to open metadata file''), fs2)
      | (Inr f, fs2) \<Rightarrow>
          let entry = \<lparr>me_filename = Some (filename (PersistentStorage_Path storage))\<rparr>;
              (is_ok, f1, fs3) =
                os_write (w_ser (c_meta cs) (metadata\<lparr>md_entry := md_entry metadata @ [entry]\<rparr>)) f fs2;
              (_, fs4) = os_flush f1 fs3 in
          (if \<not> is_ok then Inl (MakeError kUnknown ''failed to write metadata'') else Inr (), fs4))"

fun load_storages ::
  "codecs \<Rightarrow> MetadataEntry list \<Rightarrow> PersistentStorage list \<Rightarrow> fs \<Rightarrow> PersistentStorage list \<times> fs" where
  "load_storages cs [] result fs = (result, fs)"
| "load_storages cs (entry # entries) result fs =
     (case LoadPersistentStorage cs
             (path_append (GetDataDir fs) (get_string (me_filename entry))) fs of
        (Inl _, fs1) \<Rightarrow> load_storages cs entries result fs1
      | (Inr got, fs1) \<Rightarrow> load_storages cs entries (result @ [got]) fs1)"

definition ReadCollection :: "codecs \<Rightarrow> fs \<Rightarrow> PersistentStorage list \<times> fs" where
  "ReadCollection cs fs =
     (case ReadMetadata cs kMetadata fs of
        (Inl _, fs1) \<Rightarrow> ([], fs1)
      | (Inr metadata, fs1) \<Rightarrow> load_storages cs (md_entry metadata) [] fs1)"

section \<open>The collection\<close>

record PersistentStorageCollection =
  collection :: "PersistentStorage list"

definition new_PersistentStorageCollection :: "codecs \<Rightarrow> fs \<Rightarrow> PersistentStorageCollection \<times> fs" where
  "new_PersistentStorageCollection cs fs =
     (let (c, fs1) = ReadCollection cs fs in (\<lparr>collection = c\<rparr>, fs1))"

definition Collection_Add ::
  "codecs \<Rightarrow> PersistentStorage \<Rightarrow> PersistentStorageCollection \<Rightarrow> fs \<Rightarrow>
   unit res \<times> PersistentStorageCollection \<times> fs" where
  "Collection_Add cs storage c fs =
     (case AppendMetadata cs storage kMetadata fs of
        (Inl e, fs1) \<Rightarrow> (Inl e, c, fs1)
      | (Inr _, fs1) \<Rightarrow> (Inr (), c\<lparr>collection := collection c @ [storage]\<rparr>, fs1))"

text \<open>The overload that runs inside a coroutine appends to the list on the strand.\<close>

definition Collection_Add_yield ::
  "codecs \<Rightarrow> PersistentStorage \<Rightarrow> PersistentStorageCollection \<Rightarrow> fs \<Rightarrow>
   unit res \<times> PersistentStorageCollection \<times> fs" where
  "Collection_Add_yield cs storage c fs =
     (case AppendMetadata cs storage kMetadata fs of
        (Inl e, fs1) \<Rightarrow> (Inl e, c, fs1)
      | (Inr _, fs1) \<Rightarrow> (Inr (), c\<lparr>collection := collection c @ [storage]\<rparr>, fs1))"

fun search_storages ::
  "codecs \<Rightarrow> fs \<Rightarrow> PersistentStorage list \<Rightarrow> string \<Rightarrow> StorageEntry res exec" where
  "search_storages cs fs [] key =
     Ret (Inl (MakeError kUnknown (''key '' @ key @ '' not found in persistent storage'')))"
| "search_storages cs fs (storage # storages) key =
     exec_bind (PersistentStorage_Get cs fs storage key) (\<lambda>res. case res of
       Inr e \<Rightarrow> Ret (Inr e)
     | Inl _ \<Rightarrow> search_storages cs fs storages key)"

definition Collection_Get ::
  "codecs \<Rightarrow> fs \<Rightarrow> PersistentStorageCollection \<Rightarrow> string \<Rightarrow> StorageEntry res exec" where
  "Collection_Get cs fs c key = search_storages cs fs (rev (collection c)) key"

definition Collection_Size :: "PersistentStorageCollection \<Rightarrow> nat" where
  "Collection_Size c = length (collection c)"

definition GetCollection :: "PersistentStorageCollection \<Rightarrow> PersistentStorage list" where
  "GetCollection c = collection c"

fun remove_files :: "path list \<Rightarrow> fs \<Rightarrow> unit exec \<times> fs" where
  "remove_files [] fs = (Ret (), fs)"
| "remove_files (p # ps) fs = (case fs_remove p fs of
       (Ret _, fs1) \<Rightarrow> remove_files ps fs1
     | (r, fs1) \<Rightarrow> (r, fs1))"

text \<open>
  \<open>SwapWith\<close> replaces all tables by one: new metadata beside the old, rename, swap the list, delete
  the data files of the old tables. \<open>rename\<close> and \<open>remove\<close> may throw on the way.
\<close>

definition SwapWith ::
  "codecs \<Rightarrow> PersistentStorage \<Rightarrow> PersistentStorageCollection \<Rightarrow> fs \<Rightarrow>
   unit res exec \<times> PersistentStorageCollection \<times> fs" where
  "SwapWith cs storage c fs =
     (let new_path = path_append (GetDataDir fs) kMetadata @ ''.new'';
          fs1 = fs_remove_ec new_path fs in
      case AppendMetadata cs storage new_path fs1 of
        (Inl e, fs2) \<Rightarrow> (Ret (Inl e), c, fs2)
      | (Inr _, fs2) \<Rightarrow>
          let main_path = path_append (GetDataDir fs2) kMetadata in
          (case fs_rename new_path main_path fs2 of
             (Ret _, fs3) \<Rightarrow>
               let to_delete = map PersistentStorage_Path (collection c);
                   new_collection = c\<lparr>collection := [storage]\<rparr>;
                   (r, fs4) = remove_files to_delete fs3 in
               (exec_bind r (\<lambda>_. Ret (Inr ())), new_collection, fs4)
           | (_, fs3) \<Rightarrow> (Throw, c, fs3)))"

section \<open>Where the collection is on disk\<close>

text \<open>
  \<open>load_at\<close> is what loading the storage at a path yields, \<open>disk_entries\<close> the entries of the
  metadata file (none if it is absent or unreadable), \<open>is_table\<close> the data file paths that have
  been handed out so far.
\<close>

definition load_at :: "codecs \<Rightarrow> fs \<Rightarrow> path \<Rightarrow> PersistentStorage option" where
  "load_at cs fs p =
     (case (map_of (fs_dir fs) (replace_extension p ''.index''), map_of (fs_dir fs) p) of
        (Some j, Some i) \<Rightarrow>
          map_option (\<lambda>h. \<lparr>ps_path = p, ps_fd = Some i, ps_index = ti_index h\<rparr>)
            (w_parse (c_index cs) (fs_data fs j))
      | _ \<Rightarrow> None)"

definition meta_path :: "fs \<Rightarrow> path" where
  "meta_path fs = path_append (GetDataDir fs) kMetadata"

definition disk_entries :: "codecs \<Rightarrow> fs \<Rightarrow> MetadataEntry list" where
  "disk_entries cs fs =
     (case read_file fs (meta_path fs) of None \<Rightarrow> []
      | Some bs \<Rightarrow> (case w_parse (c_meta cs) bs of None \<Rightarrow> [] | Some m \<Rightarrow> md_entry m))"

definition entry_path :: "fs \<Rightarrow> MetadataEntry \<Rightarrow> path" where
  "entry_path fs e = path_append (GetDataDir fs) (get_string (me_filename e))"

definition is_table :: "fs \<Rightarrow> path \<Rightarrow> bool" where
  "is_table fs p \<longleftrightarrow> (\<exists>n < fs_uuid_pos fs. p = format_path fs (fs_uuid fs n) ''data'')"

definition table_files :: "fs \<Rightarrow> path set" where
  "table_files fs = {p. is_table fs p} \<union> (\<lambda>p. replace_extension p ''.index'') ` {p. is_table fs p}"

lemma ps_stored_iff: "ps_stored cs fs st \<longleftrightarrow> load_at cs fs (ps_path st) = Some st"
  by (cases st) (auto simp: ps_stored_def load_at_def split: option.splits)

lemma load_at_path: "load_at cs fs p = Some st \<Longrightarrow> ps_path st = p"
  by (auto simp: load_at_def split: option.splits)

lemma load_at_clock [simp]: "load_at cs (fs\<lparr>fs_clock := n\<rparr>) = load_at cs fs"
  by (rule ext) (simp add: load_at_def split: option.split)

lemma load_at_agree:
  assumes "agree_on S fs fs'" "p \<in> S" "replace_extension p ''.index'' \<in> S"
  shows "load_at cs fs' p = load_at cs fs p"
  using agree_on_dir [OF assms(1)] agree_on_data [OF assms(1)] assms(2,3)
  by (auto simp: load_at_def split: option.splits)

lemma tick_clock: "tick fs = fs\<lparr>fs_clock := Suc (fs_clock fs)\<rparr>"
  by (simp add: tick_def)

lemma LoadPersistentStorage_load_at:
  assumes "fs_ok fs"
  shows "\<exists>e n. LoadPersistentStorage cs p fs =
    (case load_at cs fs p of None \<Rightarrow> Inl e | Some st \<Rightarrow> Inr st, fs\<lparr>fs_clock := n\<rparr>)"
  using assms by (auto simp: LoadPersistentStorage_def OpenBinaryFile_def OpenBinaryFD_def Let_def
      load_at_def tick_clock split: option.splits)

lemma load_storages_load_at:
  assumes "fs_ok fs"
  shows "\<exists>n. load_storages cs es acc fs =
    (acc @ List.map_filter (\<lambda>e. load_at cs fs (entry_path fs e)) es, fs\<lparr>fs_clock := n\<rparr>)"
  using assms
proof (induction es arbitrary: acc fs)
  case Nil
  show ?case by (rule exI [of _ "fs_clock fs"]) (simp add: List.map_filter_def)
next
  case (Cons e es)
  from LoadPersistentStorage_load_at [OF Cons.prems, of cs "entry_path fs e"] obtain err n where
    l: "LoadPersistentStorage cs (entry_path fs e) fs =
      (case load_at cs fs (entry_path fs e) of None \<Rightarrow> Inl err | Some st \<Rightarrow> Inr st, fs\<lparr>fs_clock := n\<rparr>)"
    by blast
  have "entry_path (fs\<lparr>fs_clock := n\<rparr>) = entry_path fs"
    by (simp add: entry_path_def GetDataDir_def fun_eq_iff)
  then show ?case
    using Cons.IH [of "fs\<lparr>fs_clock := n\<rparr>" acc] Cons.prems
      Cons.IH [of "fs\<lparr>fs_clock := n\<rparr>" "acc @ [the (load_at cs fs (entry_path fs e))]"] l
    by (cases "load_at cs fs (entry_path fs e)") (auto simp: entry_path_def List.map_filter_def)
qed

lemma ReadMetadata_disk:
  assumes "fs_ok fs"
  shows "\<exists>r. ReadMetadata cs kMetadata fs = (r, tick fs) \<and>
    (case r of Inl _ \<Rightarrow> [] | Inr m \<Rightarrow> md_entry m) = disk_entries cs fs"
  using assms unfolding ReadMetadata_def meta_path_def [symmetric]
  by (auto simp: OpenBinaryFile_def Let_def disk_entries_def read_file_def split: option.splits)

lemma meta_path_parent: "fs_ok fs \<Longrightarrow> parent_path (meta_path fs) = fs_kdir fs"
  by (auto simp: meta_path_def path_append_def kMetadata_def is_absolute_def GetDataDir_def
      fs_ok_def datadir_ok_def)

lemma meta_path_eq: "fs_ok fs \<Longrightarrow> meta_path fs = fs_kdir fs @ ''/persistent.metadata''"
  by (auto simp: meta_path_def path_append_def kMetadata_def is_absolute_def GetDataDir_def
      fs_ok_def datadir_ok_def)

text \<open>The metadata file and its temporary are none of the generated names.\<close>

lemma meta_not_format:
  "fs_ok fs \<Longrightarrow> meta_path fs @ ext' \<noteq> format_path fs u ext"
  by (auto simp: meta_path_eq format_path_def GetDataDir_def kVersion_def)

lemma meta_not_future: "fs_ok fs \<Longrightarrow> not_future fs (meta_path fs @ ext)"
  by (simp add: not_future_def meta_not_format)

lemma table_files_format:
  "fs_ok fs \<Longrightarrow> p \<in> table_files fs \<Longrightarrow> \<exists>n ext. n < fs_uuid_pos fs \<and> p = format_path fs (fs_uuid fs n) ext"
  unfolding table_files_def is_table_def fs_ok_def
  by (auto simp: replace_extension_format) blast

lemma meta_not_table: "fs_ok fs \<Longrightarrow> meta_path fs @ ext \<notin> table_files fs"
  using meta_not_format table_files_format by blast

lemma data_not_index:
  assumes "fs_ok fs" "is_table fs p" "is_table fs q"
  shows "replace_extension p ''.index'' \<noteq> q"
  using assms by (auto simp: is_table_def replace_extension_format fs_ok_def format_path_inject)

lemma entry_path_filename:
  assumes "fs_ok fs" "is_table fs p"
  shows "entry_path fs \<lparr>me_filename = Some (filename p)\<rparr> = p"
  using assms append_filename_format [of fs "''data''"]
  by (auto simp: entry_path_def is_table_def fs_ok_def)

section \<open>The invariant of the collection\<close>

text \<open>
  \<open>coll_inv cs fs ps\<close>: loading what the metadata file names gives exactly the tables \<open>ps\<close> that are
  in memory, in the same order; every name in it has been generated; every table is usable.
  \<open>tables_view\<close> is the map that the tables stand for, the newest entry of a key winning.
\<close>

definition coll_inv :: "codecs \<Rightarrow> fs \<Rightarrow> PersistentStorage list \<Rightarrow> bool" where
  "coll_inv cs fs ps \<longleftrightarrow> (\<forall>e \<in> set (disk_entries cs fs). is_table fs (entry_path fs e)) \<and>
     List.map_filter (\<lambda>e. load_at cs fs (entry_path fs e)) (disk_entries cs fs) = ps \<and>
     (\<forall>st \<in> set ps. ps_ok cs fs st)"

definition tables_view :: "codecs \<Rightarrow> fs \<Rightarrow> PersistentStorage list \<Rightarrow> string \<Rightarrow> Value option" where
  "tables_view cs fs ps = entries_view (concat (map (ps_entries cs fs) (rev ps)))"

lemma coll_inv_mem:
  assumes "coll_inv cs fs ps" "st \<in> set ps"
  shows "is_table fs (ps_path st)" "ps_stored cs fs st" "ps_ok cs fs st"
    "\<exists>e \<in> set (disk_entries cs fs). entry_path fs e = ps_path st"
proof -
  from assms obtain e where e: "e \<in> set (disk_entries cs fs)" "load_at cs fs (entry_path fs e) = Some st"
    by (auto simp: coll_inv_def List.map_filter_def)
  from load_at_path [OF e(2)] have p: "entry_path fs e = ps_path st" by simp
  show "is_table fs (ps_path st)" using assms(1) e(1) p unfolding coll_inv_def by metis
  show "ps_stored cs fs st" using e(2) p by (simp add: ps_stored_iff)
  show "ps_ok cs fs st" using assms by (simp add: coll_inv_def)
  show "\<exists>e \<in> set (disk_entries cs fs). entry_path fs e = ps_path st" using e(1) p by blast
qed

lemma is_table_files: "is_table fs p \<Longrightarrow> p \<in> table_files fs"
  "is_table fs p \<Longrightarrow> replace_extension p ''.index'' \<in> table_files fs"
  by (auto simp: table_files_def)

lemma is_table_env: "same_env fs fs' \<Longrightarrow> is_table fs p \<Longrightarrow> is_table fs' p"
  using order_less_le_trans unfolding is_table_def same_env_format [of fs fs']
  by (auto simp: same_env_def format_path_def GetDataDir_def)

lemma entry_path_env: "same_env fs fs' \<Longrightarrow> entry_path fs' = entry_path fs"
  by (simp add: entry_path_def same_env_dir fun_eq_iff)

lemma meta_path_env: "same_env fs fs' \<Longrightarrow> meta_path fs' = meta_path fs"
  by (simp add: meta_path_def same_env_dir)

lemma stored_agree:
  assumes "agree_on S fs fs'" "ps_path st \<in> S" "replace_extension (ps_path st) ''.index'' \<in> S"
    "ps_stored cs fs st"
  shows "ps_stored cs fs' st" "ps_ok cs fs' st = ps_ok cs fs st"
    "ps_entries cs fs' st = ps_entries cs fs st"
proof -
  show "ps_stored cs fs' st"
    using load_at_agree [OF assms(1-3)] assms(4) by (simp add: ps_stored_iff)
  from ps_stored_fd [OF assms(4)] obtain i where
    i: "ps_fd st = Some i" "map_of (fs_dir fs) (ps_path st) = Some i" by blast
  note fr = ps_frame [OF i(1) agree_on_data [OF assms(1,2) i(2)] same_env_reads [OF agree_on_env [OF assms(1)]]]
  show "ps_ok cs fs' st = ps_ok cs fs st" "ps_entries cs fs' st = ps_entries cs fs st"
    using fr by simp_all
qed

lemma map_filter_agree:
  "(\<And>x. x \<in> set xs \<Longrightarrow> f x = g x) \<Longrightarrow> List.map_filter f xs = List.map_filter g xs"
  by (auto simp: List.map_filter_def cong: map_cong filter_cong)

text \<open>The tables do not depend on anything but their own files and the metadata.\<close>

lemma tables_view_agree:
  assumes "coll_inv cs fs ps" "agree_on (table_files fs) fs fs'"
  shows "tables_view cs fs' ps = tables_view cs fs ps"
proof -
  have "ps_entries cs fs' st = ps_entries cs fs st" if "st \<in> set ps" for st
    using stored_agree(3) [OF assms(2)] coll_inv_mem [OF assms(1) that] is_table_files by blast
  then have "map (ps_entries cs fs') (rev ps) = map (ps_entries cs fs) (rev ps)" by simp
  then show ?thesis unfolding tables_view_def by (rule arg_cong)
qed

lemma load_entries_agree:
  assumes "\<forall>e \<in> set es. is_table fs (entry_path fs e)" "agree_on (table_files fs) fs fs'"
  shows "List.map_filter (\<lambda>e. load_at cs fs' (entry_path fs' e)) es =
    List.map_filter (\<lambda>e. load_at cs fs (entry_path fs e)) es"
proof (rule map_filter_agree)
  fix e assume "e \<in> set es"
  then have "is_table fs (entry_path fs e)" using assms(1) by blast
  then show "load_at cs fs' (entry_path fs' e) = load_at cs fs (entry_path fs e)"
    unfolding entry_path_env [OF agree_on_env [OF assms(2)]]
    using is_table_files by (intro load_at_agree [OF assms(2)]) auto
qed

lemma coll_inv_agree:
  assumes "coll_inv cs fs ps" "agree_on (insert (meta_path fs) (table_files fs)) fs fs'"
  shows "coll_inv cs fs' ps"
proof -
  have ag: "agree_on (table_files fs) fs fs'" using agree_on_mono [OF assms(2)] by blast
  note env = agree_on_env [OF ag]
  have de: "disk_entries cs fs' = disk_entries cs fs"
    using agree_on_read [OF assms(2)] by (simp add: disk_entries_def meta_path_env [OF env])
  have t: "\<forall>e \<in> set (disk_entries cs fs). is_table fs (entry_path fs e)"
    using assms(1) by (simp add: coll_inv_def)
  have "ps_ok cs fs' st" if "st \<in> set ps" for st
    using stored_agree(2) [OF ag] coll_inv_mem [OF assms(1) that] is_table_files by blast
  then show ?thesis
    using load_entries_agree [OF t ag] assms(1) is_table_env [OF env]
    unfolding coll_inv_def de by (simp add: entry_path_env [OF env])
qed

lemma coll_inv_clock [simp]: "coll_inv cs (fs\<lparr>fs_clock := n\<rparr>) ps = coll_inv cs fs ps"
proof -
  have "coll_inv cs fs' ps" if "coll_inv cs (fs'\<lparr>fs_clock := m\<rparr>) ps" for fs' m
    using coll_inv_agree [OF that agree_on_clock [of _ "fs'\<lparr>fs_clock := m\<rparr>" "fs_clock fs'"]] by simp
  then show ?thesis using coll_inv_agree [OF _ agree_on_clock] by blast
qed

section \<open>Writing a table beside the collection\<close>

text \<open>
  Every file that neither is nor will be one of a table, and is not the metadata: the files that the
  operations on tables leave as they are.
\<close>

definition table_names :: "fs \<Rightarrow> path set" where
  "table_names fs = (\<Union>n. {format_path fs (fs_uuid fs n) ''data'', format_path fs (fs_uuid fs n) ''index''})"

definition other_files :: "fs \<Rightarrow> path set" where
  "other_files fs = - table_names fs - {meta_path fs, meta_path fs @ ''.new''}"

lemma other_files_env: "same_env fs fs' \<Longrightarrow> other_files fs' = other_files fs"
  by (simp add: other_files_def table_names_def meta_path_env same_env_format) (simp add: same_env_def)

lemma agree_on_new_storage:
  assumes "fs_ok fs" "new_storage_post cs data fs st fs'"
  shows "agree_on (insert (meta_path fs) (table_files fs)) fs fs'" "agree_on (other_files fs) fs fs'"
proof -
  let ?u = "fs_uuid fs (fs_uuid_pos fs)"
  note p = assms(2) [unfolded new_storage_post_def]
  have agree: "agree_on (- {format_path fs ?u ''data'', format_path fs ?u ''index''}) fs fs'"
    unfolding agree_on_def
  proof (intro conjI ballI allI impI)
    show "same_env fs fs'" using p fs_extends_env by blast
    fix q assume q: "q \<in> - {format_path fs ?u ''data'', format_path fs ?u ''index''}"
    show "map_of (fs_dir fs') q = map_of (fs_dir fs) q"
    proof (cases "map_of (fs_dir fs) q")
      case None
      then have "q \<notin> dom (map_of (fs_dir fs'))" using p q by auto
      then show ?thesis using None by (simp add: domIff)
    next
      case (Some i)
      then show ?thesis using p fs_extends_dir [of fs fs'] by simp
    qed
    show "fs_data fs' i = fs_data fs i" if "map_of (fs_dir fs) q = Some i" for i
      using p fs_extends_data [of fs fs' i] fs_ok_inode_bound [OF assms(1) that] by blast
  qed
  have "uuids_ok fs" using assms(1) by (simp add: fs_ok_def)
  then have "\<forall>q \<in> table_files fs. \<forall>ext. q \<noteq> format_path fs ?u ext"
    using table_files_format [OF assms(1)] by (fastforce simp: format_path_inject)
  moreover have "\<forall>ext. meta_path fs \<noteq> format_path fs ?u ext"
    using meta_not_format [OF assms(1), of "[]"] by simp
  ultimately have "insert (meta_path fs) (table_files fs) \<subseteq>
      - {format_path fs ?u ''data'', format_path fs ?u ''index''}"
    by (simp add: subset_iff)
  then show "agree_on (insert (meta_path fs) (table_files fs)) fs fs'" by (rule agree_on_mono [OF agree])
  show "agree_on (other_files fs) fs fs'"
    by (rule agree_on_mono [OF agree]) (auto simp: other_files_def table_names_def)
qed

lemma coll_inv_new_storage:
  assumes "fs_ok fs" "new_storage_post cs data fs st fs'" "coll_inv cs fs ps"
  shows "coll_inv cs fs' ps" "is_table fs' (ps_path st)" "\<not> is_table fs (ps_path st)"
    "tables_view cs fs' ps = tables_view cs fs ps"
    "\<forall>e \<in> set (disk_entries cs fs'). entry_path fs' e \<noteq> ps_path st"
proof -
  note p = assms(2) [unfolded new_storage_post_def]
  note ag = agree_on_new_storage(1) [OF assms(1,2)]
  have ag': "agree_on (table_files fs) fs fs'" using agree_on_mono [OF ag] by blast
  note env = agree_on_env [OF ag]
  show c: "coll_inv cs fs' ps" by (rule coll_inv_agree [OF assms(3) ag])
  show "tables_view cs fs' ps = tables_view cs fs ps" by (rule tables_view_agree [OF assms(3) ag'])
  have "fs_uuid fs' = fs_uuid fs" using env by (simp add: same_env_def)
  then show "is_table fs' (ps_path st)"
    using p unfolding is_table_def same_env_format [OF env] by auto
  have "uuids_ok fs" using assms(1) by (simp add: fs_ok_def)
  then show n: "\<not> is_table fs (ps_path st)"
    using p by (auto simp: is_table_def format_path_inject)
  have "disk_entries cs fs' = disk_entries cs fs"
    using agree_on_read [OF ag] by (simp add: disk_entries_def meta_path_env [OF env])
  then show "\<forall>e \<in> set (disk_entries cs fs'). entry_path fs' e \<noteq> ps_path st"
    using n assms(3) unfolding coll_inv_def entry_path_env [OF env] by auto
qed

section \<open>Writing the metadata\<close>

lemma AppendMetadata_wrote:
  assumes ok: "fs_ok fs" and q: "path_append (GetDataDir fs) name = meta_path fs @ ext"
    "CHR ''/'' \<notin> set ext"
  shows "\<exists>fs'. AppendMetadata cs st name fs = (Inr (), fs') \<and> wrote (meta_path fs @ ext)
    (w_ser (c_meta cs) \<lparr>md_entry = disk_entries cs fs @ [\<lparr>me_filename = Some (filename (ps_path st))\<rparr>]\<rparr>)
    fs fs'"
proof -
  let ?q = "meta_path fs @ ext" and
    ?bs = "w_ser (c_meta cs) \<lparr>md_entry = disk_entries cs fs @ [\<lparr>me_filename = Some (filename (ps_path st))\<rparr>]\<rparr>"
  from ReadMetadata_disk [OF ok] obtain r where r: "ReadMetadata cs kMetadata fs = (r, tick fs)"
    "(case r of Inl _ \<Rightarrow> [] | Inr m \<Rightarrow> md_entry m) = disk_entries cs fs" by blast
  have "parent_path ?q = fs_kdir fs"
    using parent_append [of "''persistent.metadata'' @ ext" "fs_kdir fs"] q(2) meta_path_eq [OF ok]
    by simp
  then have par: "parent_path ?q \<in> set (fs_dirs (tick fs))"
    using ok by (simp add: fs_ok_def datadir_ok_def)
  have nf: "not_future (tick fs) ?q"
    using meta_not_future [OF ok, of ext] by (simp add: not_future_def format_path_def GetDataDir_def)
  obtain f fs2 f1 fs3 f2 fs4 where w: "CreateBinaryFile ?q om_trunc (tick fs) = (Inr f, fs2)"
    "os_write ?bs f fs2 = (True, f1, fs3)" "os_flush f1 fs3 = (f2, fs4)" "wrote ?q ?bs (tick fs) fs4"
    using create_write_flush [OF _ par nf, of om_trunc ?bs] ok by auto
  have m: "(case r of Inl x \<Rightarrow> \<lparr>md_entry = []\<rparr> | Inr m \<Rightarrow> m)\<lparr>md_entry :=
      md_entry (case r of Inl x \<Rightarrow> \<lparr>md_entry = []\<rparr> | Inr m \<Rightarrow> m) @ [e]\<rparr> =
    \<lparr>md_entry = disk_entries cs fs @ [e]\<rparr>" for e
    using r(2) by (cases r) auto
  have "wrote ?q ?bs fs fs4"
    using w(4) agree_on_trans [OF agree_on_tick, of _ fs fs4] by (simp add: wrote_def)
  then show ?thesis
    using w(1-3) r(1) q(1) m by (simp add: AppendMetadata_def PersistentStorage_Path_def Let_def)
qed

section \<open>The operations of the collection\<close>

lemma disk_entries_wrote:
  assumes "codecs_ok cs" "wrote (meta_path fs) (w_ser (c_meta cs) \<lparr>md_entry = es\<rparr>) fs fs'"
  shows "disk_entries cs fs' = es"
proof -
  have "same_env fs fs'" "read_file fs' (meta_path fs) = Some (w_ser (c_meta cs) \<lparr>md_entry = es\<rparr>)"
    using assms(2) agree_on_env by (auto simp: wrote_def)
  then show ?thesis
    by (simp add: disk_entries_def meta_path_env whole_parse_ser [OF codecs_okD(4) [OF assms(1)]])
qed

lemma new_PersistentStorageCollection_restart:
  assumes "fs_ok fs" "coll_inv cs fs ps"
  shows "\<exists>n. new_PersistentStorageCollection cs fs = (\<lparr>collection = ps\<rparr>, fs\<lparr>fs_clock := n\<rparr>)"
proof -
  from ReadMetadata_disk [OF assms(1)] obtain r where r: "ReadMetadata cs kMetadata fs = (r, tick fs)"
    "(case r of Inl _ \<Rightarrow> [] | Inr m \<Rightarrow> md_entry m) = disk_entries cs fs" by blast
  have e: "load_at cs (tick fs) = load_at cs fs" "entry_path (tick fs) = entry_path fs"
    by (simp_all add: tick_clock) (simp add: entry_path_def GetDataDir_def fun_eq_iff)
  show ?thesis
  proof (cases r)
    case (Inl err)
    then have "ps = []" using r(2) assms(2) by (simp add: coll_inv_def List.map_filter_def)
    then show ?thesis using Inl r(1)
      by (simp add: new_PersistentStorageCollection_def ReadCollection_def tick_clock) blast
  next
    case (Inr m)
    from load_storages_load_at [of "tick fs" cs "md_entry m" "[]"] assms(1) obtain n where
      "load_storages cs (md_entry m) [] (tick fs) = (ps, (tick fs)\<lparr>fs_clock := n\<rparr>)"
      using e r(2) assms(2) Inr by (auto simp: coll_inv_def)
    then show ?thesis using Inr r(1)
      by (simp add: new_PersistentStorageCollection_def ReadCollection_def tick_clock) blast
  qed
qed

text \<open>Adding a table: the collection on disk and in memory grow by it, and its entries win.\<close>

lemma tables_view_snoc:
  "tables_view cs fs (ps @ [st]) = tables_view cs fs ps ++ entries_view (ps_entries cs fs st)"
  by (simp add: tables_view_def entries_view_eq_map_of map_add_def fun_eq_iff)

lemma append_entry_inv:
  assumes "fs_ok fs" "coll_inv cs fs ps" "is_table fs (ps_path st)" "ps_stored cs fs st"
    "ps_ok cs fs st" "agree_on (table_files fs) fs fs'"
    "disk_entries cs fs' = disk_entries cs fs @ [\<lparr>me_filename = Some (filename (ps_path st))\<rparr>]"
  shows "coll_inv cs fs' (ps @ [st])" "ps_entries cs fs' st = ps_entries cs fs st"
proof -
  let ?es = "disk_entries cs fs @ [\<lparr>me_filename = Some (filename (ps_path st))\<rparr>]"
  note env = agree_on_env [OF assms(6)]
  have t: "\<forall>e \<in> set ?es. is_table fs (entry_path fs e)"
    using assms(1-3) by (simp add: entry_path_filename coll_inv_def)
  note sa = stored_agree [OF assms(6) is_table_files(1) [OF assms(3)] is_table_files(2) [OF assms(3)] assms(4)]
  show "ps_entries cs fs' st = ps_entries cs fs st" by (rule sa(3))
  have "ps_ok cs fs' s" if "s \<in> set (ps @ [st])" for s
    using that sa(2) assms(5) stored_agree(2) [OF assms(6)] coll_inv_mem [OF assms(2)] is_table_files
    by (metis Un_iff empty_iff empty_set set_ConsD set_append)
  moreover have "List.map_filter (\<lambda>e. load_at cs fs (entry_path fs e)) ?es = ps @ [st]"
    using assms(2,4) entry_path_filename [OF assms(1,3)]
    by (simp add: coll_inv_def List.map_filter_def ps_stored_iff)
  ultimately show "coll_inv cs fs' (ps @ [st])"
    unfolding coll_inv_def assms(7) using load_entries_agree [OF t assms(6)] t is_table_env [OF env]
    by (simp add: entry_path_env [OF env])
qed

lemma Collection_Add_coll:
  assumes "codecs_ok cs" "fs_ok fs" "coll_inv cs fs (collection c)" "is_table fs (ps_path st)"
    "ps_stored cs fs st" "ps_ok cs fs st"
  shows "\<exists>fs'. Collection_Add cs st c fs = (Inr (), c\<lparr>collection := collection c @ [st]\<rparr>, fs') \<and>
    fs_ok fs' \<and> same_env fs fs' \<and> agree_on (- {meta_path fs}) fs fs' \<and>
    coll_inv cs fs' (collection c @ [st]) \<and>
    tables_view cs fs' (collection c @ [st]) =
      tables_view cs fs (collection c) ++ entries_view (ps_entries cs fs st)"
proof -
  from AppendMetadata_wrote [OF assms(2), of kMetadata "[]" cs st] obtain fs' where
    a: "AppendMetadata cs st kMetadata fs = (Inr (), fs')" "wrote (meta_path fs)
      (w_ser (c_meta cs) \<lparr>md_entry = disk_entries cs fs @ [\<lparr>me_filename = Some (filename (ps_path st))\<rparr>]\<rparr>) fs fs'"
    by (auto simp: meta_path_def)
  have ag: "agree_on (- {meta_path fs}) fs fs'" and ok: "fs_ok fs'" using a(2) by (simp_all add: wrote_def)
  have "table_files fs \<subseteq> - {meta_path fs}" using meta_not_table [OF assms(2), of "[]"] by auto
  then have ag': "agree_on (table_files fs) fs fs'" by (rule agree_on_mono [OF ag])
  note i = append_entry_inv [OF assms(2-6) ag' disk_entries_wrote [OF assms(1) a(2)]]
  have "tables_view cs fs' (collection c @ [st]) =
      tables_view cs fs (collection c) ++ entries_view (ps_entries cs fs st)"
    using tables_view_agree [OF assms(3) ag'] i(2) by (simp add: tables_view_snoc)
  then show ?thesis using a(1) i(1) ok ag agree_on_env [OF ag] by (simp add: Collection_Add_def)
qed

lemma Collection_Add_yield_eq: "Collection_Add_yield = Collection_Add"
  by (simp add: Collection_Add_yield_def Collection_Add_def fun_eq_iff)

text \<open>A lookup answers with the newest entry of the key.\<close>

lemma search_storages_search:
  "search_storages cs fs ts k = exec_bind (ps.search cs fs ts k) (\<lambda>r. Ret (case r of
     None \<Rightarrow> Inl (MakeError kUnknown (''key '' @ k @ '' not found in persistent storage''))
   | Some e \<Rightarrow> Inr e))"
  by (induction ts) (auto simp: exec_bind_assoc intro!: exec_bind_cong split: sum.splits)

lemma Collection_Get_find:
  assumes "\<forall>st \<in> set (collection c). ps_ok cs fs st"
  shows "Collection_Get cs fs c k =
    Ret (case List.find (\<lambda>e. se_key e = k) (concat (map (ps_entries cs fs) (rev (collection c)))) of
      None \<Rightarrow> Inl (MakeError kUnknown (''key '' @ k @ '' not found in persistent storage''))
    | Some e \<Rightarrow> Inr e)"
  using assms by (simp add: Collection_Get_def search_storages_search ps.search_eq)

section \<open>Replacing all tables by one\<close>

lemma remove_files_ok:
  assumes "fs_ok fs"
  shows "\<exists>fs'. remove_files qs fs = (Ret (), fs') \<and> fs_ok fs' \<and> agree_on (- set qs) fs fs' \<and>
    (\<forall>q \<in> set qs. map_of (fs_dir fs') q = None)"
  using assms
proof (induction qs arbitrary: fs)
  case (Cons q qs)
  obtain r fs1 where r: "fs_remove q fs = (r, fs1)" by (metis surj_pair)
  note ro = fs_remove_ok [OF Cons.prems r]
  from Cons.IH [OF ro(2)] obtain fs' where *: "remove_files qs fs1 = (Ret (), fs')" "fs_ok fs'"
    "agree_on (- set qs) fs1 fs'" "\<forall>q \<in> set qs. map_of (fs_dir fs') q = None" by blast
  have "agree_on (- set (q # qs)) fs fs'"
    using agree_on_mono [OF agree_on_remove [OF Cons.prems r], of "- set (q # qs)"]
      agree_on_mono [OF *(3), of "- set (q # qs)"] by (auto intro: agree_on_trans)
  moreover have "map_of (fs_dir fs') q = None"
  proof (cases "q \<in> set qs")
    case False
    then show ?thesis using agree_on_dir [OF *(3)] ro(4) by simp
  qed (use *(4) in blast)
  ultimately show ?case using * r ro(1) by simp
qed simp

text \<open>
  Once the data files of the loaded tables are gone, none of the names that were in the metadata
  loads any more: the loaded ones have no data file, the others still fail.
\<close>

lemma load_at_removed:
  assumes "fs_ok fs" "coll_inv cs fs ps" "e \<in> set (disk_entries cs fs)"
    "agree_on (table_files fs - set (map ps_path ps)) fs fs'"
    "\<forall>q \<in> set (map ps_path ps). map_of (fs_dir fs') q = None"
  shows "load_at cs fs' (entry_path fs e) = None"
proof (cases "entry_path fs e \<in> set (map ps_path ps)")
  case True
  then have "map_of (fs_dir fs') (entry_path fs e) = None" using assms(5) by blast
  then show ?thesis by (simp add: load_at_def split: option.splits)
next
  case False
  have t: "is_table fs (entry_path fs e)" using assms(2,3) by (simp add: coll_inv_def)
  have "load_at cs fs (entry_path fs e) = None"
  proof (rule ccontr)
    assume "load_at cs fs (entry_path fs e) \<noteq> None"
    then obtain st where "load_at cs fs (entry_path fs e) = Some st" by blast
    with load_at_path [OF this] assms(2,3) False show False
      by (force simp: coll_inv_def List.map_filter_def)
  qed
  moreover have "replace_extension (entry_path fs e) ''.index'' \<notin> set (map ps_path ps)"
    using data_not_index [OF assms(1) t] coll_inv_mem(1) [OF assms(2)] by auto
  ultimately show ?thesis
    using load_at_agree [OF assms(4), of "entry_path fs e" cs] is_table_files [OF t] False by simp
qed

lemma PersistentStorage_Path_eq: "PersistentStorage_Path = ps_path"
  by (simp add: PersistentStorage_Path_def fun_eq_iff)

lemma path_append_abs: "is_absolute p \<Longrightarrow> path_append d p = p"
  by (simp add: path_append_def)

lemma meta_path_abs: "fs_ok fs \<Longrightarrow> is_absolute (meta_path fs @ ext)"
  by (auto simp: meta_path_eq is_absolute_def fs_ok_def datadir_ok_def split: list.splits)

text \<open>The metadata of the new collection, written beside the old one and moved over it.\<close>

lemma replace_metadata:
  assumes "codecs_ok cs" "fs_ok fs"
  defines "q \<equiv> meta_path fs @ ''.new''"
  shows "\<exists>fs2 fs3. AppendMetadata cs st q (fs_remove_ec q fs) = (Inr (), fs2) \<and>
    GetDataDir fs2 = GetDataDir fs \<and>
    fs_rename q (meta_path fs) fs2 = (Ret (), fs3) \<and> fs_ok fs3 \<and>
    agree_on (- {q, meta_path fs}) fs fs3 \<and>
    disk_entries cs fs3 = disk_entries cs fs @ [\<lparr>me_filename = Some (filename (ps_path st))\<rparr>]"
proof -
  let ?m = "meta_path fs"
  obtain r fs1 where r: "fs_remove q fs = (r, fs1)" by (metis surj_pair)
  note ro = fs_remove_ok [OF assms(2) r]
  have ec: "fs_remove_ec q fs = fs1" using fs_remove_ec_eq [OF assms(2), of q] r by simp
  note a1 = agree_on_remove [OF assms(2) r]
  note e1 = agree_on_env [OF a1]
  have mq: "?m \<noteq> q" by (simp add: q_def)
  have de1: "disk_entries cs fs1 = disk_entries cs fs"
    using agree_on_read [OF a1, of ?m] mq by (simp add: disk_entries_def meta_path_env [OF e1])
  have "path_append (GetDataDir fs1) q = meta_path fs1 @ ''.new''"
    using meta_path_abs [OF assms(2)] by (simp add: path_append_abs q_def meta_path_env [OF e1])
  from AppendMetadata_wrote [OF ro(2) this, of cs st] obtain fs2 where
    ap: "AppendMetadata cs st q fs1 = (Inr (), fs2)" "wrote q (w_ser (c_meta cs)
      \<lparr>md_entry = disk_entries cs fs @ [\<lparr>me_filename = Some (filename (ps_path st))\<rparr>]\<rparr>) fs1 fs2"
    by (auto simp: meta_path_env [OF e1] q_def de1)
  have ok2: "fs_ok fs2" and a2: "agree_on (- {q}) fs1 fs2" and rq: "read_file fs2 q \<noteq> None"
    using ap(2) by (simp_all add: wrote_def)
  from rq obtain i where i: "map_of (fs_dir fs2) q = Some i" by (auto simp: read_file_def)
  note e2 = same_env_trans [OF e1 agree_on_env [OF a2]]
  have mp2: "meta_path fs2 = ?m" by (rule meta_path_env [OF e2])
  obtain r3 fs3 where re: "fs_rename q ?m fs2 = (r3, fs3)" by (metis surj_pair)
  have par: "parent_path ?m \<in> set (fs_dirs fs2)"
    using meta_path_parent [OF ok2] ok2 by (simp add: mp2 fs_ok_def datadir_ok_def)
  have nf: "not_future fs2 ?m" using meta_not_future [OF ok2, of "[]"] by (simp add: mp2)
  note rn = fs_rename_ok [OF ok2 i par nf mq [symmetric] re]
  have a3: "agree_on (- {q, ?m}) fs2 fs3" by (rule agree_on_rename [OF ok2 i par nf mq [symmetric] re])
  note e3 = same_env_trans [OF e2 agree_on_env [OF a3]]
  have "agree_on (- {q, ?m}) fs fs3"
    using agree_on_mono [OF a1, of "- {q, ?m}"] agree_on_mono [OF a2, of "- {q, ?m}"] a3
    by (auto intro: agree_on_trans)
  moreover have "disk_entries cs fs3 =
      disk_entries cs fs @ [\<lparr>me_filename = Some (filename (ps_path st))\<rparr>]"
    using rn(3) ap(2) mq whole_parse_ser [OF codecs_okD(4) [OF assms(1)]]
    by (simp add: disk_entries_def meta_path_env [OF e3] wrote_def)
  ultimately show ?thesis
    using ap(1) ec re rn(1,2) same_env_dir [OF e2] by auto
qed

lemma table_files_iff:
  assumes "fs_ok fs"
  shows "p \<in> table_files fs \<longleftrightarrow> (\<exists>n < fs_uuid_pos fs. \<exists>ext \<in> {''data'', ''index''}.
    p = format_path fs (fs_uuid fs n) ext)"
proof -
  have r: "replace_extension (format_path fs (fs_uuid fs n) ''data'') ''.index'' =
      format_path fs (fs_uuid fs n) ''index''" for n
    using assms by (simp add: fs_ok_def replace_extension_format)
  show ?thesis
  proof
    assume "p \<in> table_files fs"
    then consider "is_table fs p" | q where "is_table fs q" "p = replace_extension q ''.index''"
      by (auto simp: table_files_def)
    then show "\<exists>n < fs_uuid_pos fs. \<exists>ext \<in> {''data'', ''index''}. p = format_path fs (fs_uuid fs n) ext"
      by cases (use r in \<open>auto simp: is_table_def\<close>)
  next
    assume "\<exists>n < fs_uuid_pos fs. \<exists>ext \<in> {''data'', ''index''}. p = format_path fs (fs_uuid fs n) ext"
    then obtain n ext where n: "n < fs_uuid_pos fs" "ext = ''data'' \<or> ext = ''index''"
      "p = format_path fs (fs_uuid fs n) ext" by blast
    then have "is_table fs (format_path fs (fs_uuid fs n) ''data'')" by (auto simp: is_table_def)
    then show "p \<in> table_files fs" using n is_table_files [of fs "format_path fs (fs_uuid fs n) ''data''"] r [of n] by auto
  qed
qed

lemma SwapWith_coll:
  assumes "codecs_ok cs" "fs_ok fs" "coll_inv cs fs (collection c)" "is_table fs (ps_path st)"
    "ps_stored cs fs st" "ps_ok cs fs st"
    "\<forall>e \<in> set (disk_entries cs fs). entry_path fs e \<noteq> ps_path st"
  shows "\<exists>fs'. SwapWith cs st c fs = (Ret (Inr ()), c\<lparr>collection := [st]\<rparr>, fs') \<and> fs_ok fs' \<and>
    coll_inv cs fs' [st] \<and> ps_entries cs fs' st = ps_entries cs fs st \<and>
    agree_on (other_files fs) fs fs' \<and>
    (\<forall>old \<in> set (collection c). map_of (fs_dir fs') (ps_path old) = None) \<and>
    disk_entries cs fs' = disk_entries cs fs @ [\<lparr>me_filename = Some (filename (ps_path st))\<rparr>]"
proof -
  let ?old = "map ps_path (collection c)" and ?e = "\<lparr>me_filename = Some (filename (ps_path st))\<rparr>"
  from replace_metadata [OF assms(1,2), of st] obtain fs2 fs3 where
    s: "AppendMetadata cs st (meta_path fs @ ''.new'') (fs_remove_ec (meta_path fs @ ''.new'') fs) = (Inr (), fs2)"
    "GetDataDir fs2 = GetDataDir fs"
    "fs_rename (meta_path fs @ ''.new'') (meta_path fs) fs2 = (Ret (), fs3)"
    "fs_ok fs3" "agree_on (- {meta_path fs @ ''.new'', meta_path fs}) fs fs3"
    "disk_entries cs fs3 = disk_entries cs fs @ [?e]"
    by blast
  have "table_files fs \<subseteq> - {meta_path fs @ ''.new'', meta_path fs}"
    using meta_not_table [OF assms(2), of "[]"] meta_not_table [OF assms(2), of "''.new''"] by auto
  then have s5: "agree_on (table_files fs) fs fs3" by (rule agree_on_mono [OF s(5)])
  from remove_files_ok [OF s(4), of ?old] obtain fs4 where rm: "remove_files ?old fs3 = (Ret (), fs4)"
    "fs_ok fs4" "agree_on (- set ?old) fs3 fs4" "\<forall>q \<in> set ?old. map_of (fs_dir fs4) q = None" by blast
  have run: "SwapWith cs st c fs = (Ret (Inr ()), c\<lparr>collection := [st]\<rparr>, fs4)"
    using s(1-3) rm(1) by (simp add: SwapWith_def meta_path_def Let_def PersistentStorage_Path_eq)
  note e3 = agree_on_env [OF s(5)] and e34 = agree_on_env [OF rm(3)]
  note e4 = same_env_trans [OF e3 e34]
  have ag: "agree_on (table_files fs - set ?old) fs fs4"
    using agree_on_mono [OF s5, of "table_files fs - set ?old"]
      agree_on_mono [OF rm(3), of "table_files fs - set ?old"] by (auto intro: agree_on_trans)
  have "meta_path fs \<notin> set ?old"
    using coll_inv_mem(1) [OF assms(3)] is_table_files(1) meta_not_table [OF assms(2), of "[]"] by auto
  then have de: "disk_entries cs fs4 = disk_entries cs fs @ [?e]"
    using agree_on_read [OF rm(3)] s(6)
    by (simp add: disk_entries_def meta_path_env [OF e3] meta_path_env [OF e4])
  have nold: "ps_path st \<notin> set ?old"
    using coll_inv_mem(4) [OF assms(3)] assms(7) by fastforce
  have iold: "replace_extension (ps_path st) ''.index'' \<notin> set ?old"
    using data_not_index [OF assms(2,4)] coll_inv_mem(1) [OF assms(3)] by auto
  have st: "ps_stored cs fs4 st" "ps_ok cs fs4 st" "ps_entries cs fs4 st = ps_entries cs fs st"
    using stored_agree [OF ag _ _ assms(5)] is_table_files [OF assms(4)] nold iold assms(6) by auto
  have "List.map_filter (\<lambda>e. load_at cs fs4 (entry_path fs e)) (disk_entries cs fs) = []"
    using load_at_removed [OF assms(2,3) _ ag rm(4)] by (simp add: List.map_filter_def filter_empty_conv)
  then have "coll_inv cs fs4 [st]"
    unfolding coll_inv_def de entry_path_env [OF e4]
    using st(1,2) assms(3) is_table_env [OF e4] assms(4) entry_path_filename [OF assms(2,4)]
    by (auto simp: List.map_filter_def ps_stored_iff coll_inv_def)
  moreover have "agree_on (other_files fs) fs fs4"
  proof (rule agree_on_trans)
    show "agree_on (other_files fs) fs fs3"
      by (rule agree_on_mono [OF s(5)]) (auto simp: other_files_def)
    have "set ?old \<subseteq> table_names fs"
      using coll_inv_mem(1) [OF assms(3)] by (fastforce simp: is_table_def table_names_def)
    then show "agree_on (other_files fs) fs3 fs4"
      by (intro agree_on_mono [OF rm(3)]) (auto simp: other_files_def)
  qed
  ultimately show ?thesis using run rm(2,4) st(3) de by auto
qed

end
