(* ===== verification/Compaction.thy ===== *)
theory Compaction
  imports Collection
begin

text \<open>
  The compaction job (\<open>compaction.hpp\<close>, \<open>compaction.cpp\<close>): the k-way merge of all tables of a
  collection through a priority queue of iterators, and the job that replaces the tables by the
  result. The second half is the proof that the merge refines a merge of lists, and that the
  merge of lists keeps the newest entry of each key.
\<close>

section \<open>The merge\<close>

definition kThreshold :: nat where
  "kThreshold = 5"

type_synonym IteratorPair = "Iterator \<times> Iterator \<times> nat"

fun make_iterators :: "PersistentStorage list \<Rightarrow> nat \<Rightarrow> IteratorPair list" where
  "make_iterators [] i = []"
| "make_iterators (storage # storages) i =
     (storage_begin storage, storage_end storage, i) # make_iterators storages (Suc i)"

text \<open>The comparator logs a failed read and calls the elements equivalent.\<close>

definition comparator :: "codecs \<Rightarrow> fs \<Rightarrow> IteratorPair \<Rightarrow> IteratorPair \<Rightarrow> bool exec" where
  "comparator cs fs lhs rhs =
     exec_bind (Iterator_deref cs fs (fst lhs)) (\<lambda>lhs_opt.
     exec_bind (Iterator_deref cs fs (fst rhs)) (\<lambda>rhs_opt.
       Ret (case lhs_opt of Inl _ \<Rightarrow> False | Inr lhs_value \<Rightarrow>
            case rhs_opt of Inl _ \<Rightarrow> False | Inr rhs_value \<Rightarrow>
              if se_key lhs_value = se_key rhs_value then snd (snd lhs) < snd (snd rhs)
              else se_key lhs_value > se_key rhs_value)))"

text \<open>
  \<open>std::priority_queue\<close>: \<open>top\<close> is an element that no other one exceeds. The queue holds its
  elements in a list, and \<open>pop_top\<close> selects the first such element and the rest.
\<close>

fun pop_top :: "('a \<Rightarrow> 'a \<Rightarrow> bool exec) \<Rightarrow> 'a \<Rightarrow> 'a list \<Rightarrow> ('a \<times> 'a list) exec" where
  "pop_top cmp x [] = Ret (x, [])"
| "pop_top cmp x (y # ys) = exec_bind (cmp x y) (\<lambda>b.
     if b then exec_bind (pop_top cmp y ys) (\<lambda>(t, r). Ret (t, x # r))
     else exec_bind (pop_top cmp x ys) (\<lambda>(t, r). Ret (t, y # r)))"

definition remaining :: "IteratorPair \<Rightarrow> nat" where
  "remaining p = Suc (length (ps_index (it_storage (fst p))) - it_index (fst p))"

lemma pop_top_mset: "pop_top cmp x ys = Ret (t, r) \<Longrightarrow> mset (x # ys) = mset (t # r)"
  by (induction cmp x ys arbitrary: t r rule: pop_top.induct)
    (auto simp: exec_bind_Ret_iff split: if_splits)

lemma pop_top_sum:
  assumes "pop_top cmp x ys = Ret (t, r)"
  shows "sum_list (map f (x # ys)) = f t + (sum_list (map f r) :: nat)"
proof -
  have "mset (map f (x # ys)) = mset (map f (t # r))"
    using pop_top_mset [OF assms] by (simp only: mset_map)
  then have "sum_list (map f (x # ys)) = sum_list (map f (t # r))"
    by (simp only: sum_mset_sum_list [symmetric])
  then show ?thesis by simp
qed

lemma Iterator_deref_Ret:
  "Iterator_deref cs fs it = Ret r \<Longrightarrow> it_index it < length (ps_index (it_storage it))"
  by (simp add: Iterator_deref_def split: if_splits)

text \<open>The loop of \<open>MergeData\<close>.\<close>

function merge_loop :: "codecs \<Rightarrow> fs \<Rightarrow> IteratorPair list \<Rightarrow> StorageEntry list \<Rightarrow> StorageEntry list res exec" where
  "merge_loop cs fs queue data =
     (case queue of
        [] \<Rightarrow> Ret (Inr data)
      | x # xs \<Rightarrow>
          exec_bind (pop_top (comparator cs fs) x xs) (\<lambda>t. case t of ((cur, end_it, index), queue1) \<Rightarrow>
          exec_bind (Iterator_deref cs fs cur) (\<lambda>data_opt. case data_opt of
            Inl e \<Rightarrow> Ret (Inl (WrapError e kUnknown ''failed to merge data from persistent storages''))
          | Inr value \<Rightarrow>
              let data1 = (if data = [] \<or> se_key (last data) \<noteq> se_key value then data @ [value] else data);
                  cur1 = Iterator_next cur;
                  queue2 = (if cur1 \<noteq> end_it then (cur1, end_it, index) # queue1 else queue1) in
              merge_loop cs fs queue2 data1)))"
  by pat_completeness auto
termination
proof (relation "measure (\<lambda>(cs, fs, queue, data). sum_list (map remaining queue))", goal_cases)
  case 1
  show ?case by simp
next
  case (2 cs fs queue data x xs t y queue1 cur z end_it index data_opt val data1 cur1 queue2)
  have "remaining (cur, end_it, index) + sum_list (map remaining queue1) =
      sum_list (map remaining queue)"
    using pop_top_sum [of "comparator cs fs" x xs "(cur, end_it, index)" queue1 remaining] 2 by simp
  moreover have "it_index cur < length (ps_index (it_storage cur))"
    using 2 Iterator_deref_Ret by blast
  ultimately show ?case
    using 2 by (auto simp: remaining_def Iterator_next_def)
qed

declare merge_loop.simps [simp del]

text \<open>A failed assertion ends the program, which is no outcome of the call.\<close>

definition MergeData ::
  "codecs \<Rightarrow> PersistentStorageCollection \<Rightarrow> fs \<Rightarrow> PersistentStorage res exec \<times> fs" where
  "MergeData cs c fs =
     (let storages = GetCollection c in
      if storages = [] then (Undef, fs)
      else case merge_loop cs fs (make_iterators storages 0) [] of
        Ret (Inl e) \<Rightarrow> (Ret (Inl e), fs)
      | Ret (Inr data) \<Rightarrow> (let (r, fs1) = NewPersistentStorage cs data fs in (Ret r, fs1))
      | Throw \<Rightarrow> (Throw, fs)
      | Undef \<Rightarrow> (Undef, fs)
      | Hang \<Rightarrow> (Hang, fs))"

text \<open>\<open>RunCompaction\<close> logs every failure and returns.\<close>

definition RunCompaction ::
  "codecs \<Rightarrow> PersistentStorageCollection \<Rightarrow> fs \<Rightarrow> unit exec \<times> PersistentStorageCollection \<times> fs" where
  "RunCompaction cs c fs =
     (if Collection_Size c \<le> kThreshold then (Ret (), c, fs)
      else case MergeData cs c fs of
        (Ret (Inl _), fs1) \<Rightarrow> (Ret (), c, fs1)
      | (Ret (Inr new_storage), fs1) \<Rightarrow>
          (let (r, c1, fs2) = SwapWith cs new_storage c fs1 in (exec_bind r (\<lambda>_. Ret ()), c1, fs2))
      | (Throw, fs1) \<Rightarrow> (Throw, c, fs1)
      | (Undef, fs1) \<Rightarrow> (Undef, c, fs1)
      | (Hang, fs1) \<Rightarrow> (Hang, c, fs1))"

section \<open>The queue as a set of runs\<close>

text \<open>
  An element of the queue stands for the run of entries it still has to yield and the number of
  its table. \<open>newest Q k e\<close>: of all entries of \<open>k\<close> in the runs, \<open>e\<close> is in the table with the highest
  number. \<open>merge_spec\<close>: what merging the runs \<open>Q\<close> onto the output \<open>data\<close> must give.
\<close>

type_synonym run = "StorageEntry list \<times> nat"

definition q_abs :: "codecs \<Rightarrow> fs \<Rightarrow> IteratorPair \<Rightarrow> run" where
  "q_abs cs fs p = (drop (it_index (fst p)) (ps_entries cs fs (it_storage (fst p))), snd (snd p))"

definition q_ok :: "codecs \<Rightarrow> fs \<Rightarrow> IteratorPair \<Rightarrow> bool" where
  "q_ok cs fs p \<longleftrightarrow> ps_ok cs fs (it_storage (fst p)) \<and>
     it_index (fst p) < length (ps_index (it_storage (fst p))) \<and>
     fst (snd p) = storage_end (it_storage (fst p))"

definition run_below :: "run \<Rightarrow> run \<Rightarrow> bool" where
  "run_below a b \<longleftrightarrow> (if se_key (hd (fst a)) = se_key (hd (fst b)) then snd a < snd b
     else se_key (hd (fst a)) > se_key (hd (fst b)))"

definition run_keys :: "run set \<Rightarrow> string set" where
  "run_keys Q = (\<Union>r \<in> Q. se_key ` set (fst r))"

definition newest :: "run set \<Rightarrow> string \<Rightarrow> StorageEntry \<Rightarrow> bool" where
  "newest Q k e \<longleftrightarrow> se_key e = k \<and> (\<exists>r \<in> Q. e \<in> set (fst r) \<and>
     (\<forall>r' \<in> Q. k \<in> se_key ` set (fst r') \<longrightarrow> snd r' \<le> snd r))"

definition merge_spec :: "run set \<Rightarrow> StorageEntry list \<Rightarrow> StorageEntry list \<Rightarrow> bool" where
  "merge_spec Q data R \<longleftrightarrow> sorted_wrt (<) (map se_key R) \<and>
     se_key ` set R = se_key ` set data \<union> run_keys Q \<and>
     (\<forall>e \<in> set R. e \<in> set data \<or> se_key e \<notin> se_key ` set data \<and> newest Q (se_key e) e)"

definition can_merge :: "run set \<Rightarrow> StorageEntry list \<Rightarrow> bool" where
  "can_merge Q data \<longleftrightarrow> sorted_wrt (<) (map se_key data) \<and>
     (data \<noteq> [] \<longrightarrow> (\<forall>k \<in> run_keys Q. se_key (last data) \<le> k))"

lemma run_keys_insert: "run_keys (insert (es, i) Q) = se_key ` set es \<union> run_keys Q"
  by (auto simp: run_keys_def)

lemma sorted_last_le:
  "sorted_wrt (<) (map se_key data) \<Longrightarrow> e \<in> set data \<Longrightarrow> se_key e \<le> se_key (last data)"
  by (induction data rule: rev_induct) (auto simp: sorted_wrt_append)

text \<open>One step of the merge on runs: the run with the least key, and of those the newest table's.\<close>

definition top_run :: "run set \<Rightarrow> StorageEntry \<Rightarrow> StorageEntry list \<Rightarrow> nat \<Rightarrow> run set \<Rightarrow> bool" where
  "top_run Q e rest i Q1 \<longleftrightarrow> Q = insert (e # rest, i) Q1 \<and> (\<forall>k \<in> run_keys Q. se_key e \<le> k) \<and>
     (\<forall>r \<in> Q. se_key e \<in> se_key ` set (fst r) \<longrightarrow> snd r \<le> i)"

definition pushed :: "StorageEntry list \<Rightarrow> nat \<Rightarrow> run set \<Rightarrow> run set" where
  "pushed rest i Q = (if rest = [] then Q else insert (rest, i) Q)"

definition appended :: "StorageEntry list \<Rightarrow> StorageEntry \<Rightarrow> StorageEntry list" where
  "appended data e = (if data = [] \<or> se_key (last data) \<noteq> se_key e then data @ [e] else data)"

lemma run_keys_pushed: "run_keys (pushed rest i Q) = se_key ` set rest \<union> run_keys Q"
  by (auto simp: pushed_def run_keys_def)

lemma newest_pushed:
  assumes "newest (pushed rest i Q1) k e'" "k \<noteq> se_key e"
  shows "newest (insert (e # rest, i) Q1) k e'"
proof -
  from assms(1) obtain r where r: "se_key e' = k" "r \<in> pushed rest i Q1" "e' \<in> set (fst r)"
    "\<forall>r' \<in> pushed rest i Q1. k \<in> se_key ` set (fst r') \<longrightarrow> snd r' \<le> snd r"
    unfolding newest_def by blast
  have bound: "\<forall>r' \<in> insert (e # rest, i) Q1. k \<in> se_key ` set (fst r') \<longrightarrow> snd r' \<le> snd r"
    using r(4) assms(2) by (auto simp: pushed_def split: if_splits)
  show ?thesis
  proof (cases "r \<in> Q1")
    case True
    with r(1,3) bound show ?thesis unfolding newest_def by blast
  next
    case False
    with r(2) have "r = (rest, i)" by (simp add: pushed_def split: if_splits)
    with r(1,3) bound show ?thesis unfolding newest_def by (intro conjI bexI [of _ "(e # rest, i)"]) auto
  qed
qed

lemma can_merge_step:
  assumes "top_run Q e rest i Q1" "can_merge Q data"
  shows "can_merge (pushed rest i Q1) (appended data e)"
    "se_key e \<in> se_key ` set data \<longleftrightarrow> data \<noteq> [] \<and> se_key (last data) = se_key e"
proof -
  have e: "se_key e \<in> run_keys Q" "\<forall>k \<in> run_keys (pushed rest i Q1). se_key e \<le> k"
    using assms(1) by (auto simp: top_run_def run_keys_insert run_keys_pushed)
  have s: "sorted_wrt (<) (map se_key data)" using assms(2) by (simp add: can_merge_def)
  have le: "data \<noteq> [] \<Longrightarrow> se_key (last data) \<le> se_key e"
    using assms(2) e(1) by (auto simp: can_merge_def)
  have lt: "se_key d < se_key e" if "d \<in> set data" "se_key (last data) \<noteq> se_key e" for d
    using sorted_last_le [OF s that(1)] le that by (metis empty_iff empty_set order_le_less_trans order_le_neq_trans)
  show "se_key e \<in> se_key ` set data \<longleftrightarrow> data \<noteq> [] \<and> se_key (last data) = se_key e"
    using lt by (metis image_iff last_in_set less_irrefl empty_iff empty_set)
  show "can_merge (pushed rest i Q1) (appended data e)"
    using s lt e(2) assms(2) by (auto simp: can_merge_def appended_def sorted_wrt_append)
qed

lemma merge_spec_step:
  assumes "top_run Q e rest i Q1" "can_merge Q data"
    and "merge_spec (pushed rest i Q1) (appended data e) R"
  shows "merge_spec Q data R"
proof -
  note dup = can_merge_step(2) [OF assms(1,2)]
  have Q: "Q = insert (e # rest, i) Q1" using assms(1) by (simp add: top_run_def)
  have new: "newest Q (se_key e) e"
    using assms(1) unfolding newest_def top_run_def by (intro conjI bexI [of _ "(e # rest, i)"]) auto
  have keys: "se_key ` set (appended data e) = insert (se_key e) (se_key ` set data)"
    using dup by (auto simp: appended_def)
  have sub: "set (appended data e) \<subseteq> insert e (set data)" by (auto simp: appended_def)
  have "d \<in> set data \<or> se_key d \<notin> se_key ` set data \<and> newest Q (se_key d) d" if "d \<in> set R" for d
  proof -
    from assms(3) that consider "d \<in> set (appended data e)"
      | "se_key d \<noteq> se_key e" "se_key d \<notin> se_key ` set data" "newest (pushed rest i Q1) (se_key d) d"
      unfolding merge_spec_def keys by blast
    then show ?thesis
    proof cases
      case 1
      then have "d \<in> set data \<or> d = e \<and> se_key e \<notin> se_key ` set data"
        using dup by (auto simp: appended_def split: if_splits)
      then show ?thesis using new by blast
    next
      case 2
      then show ?thesis using newest_pushed unfolding Q by blast
    qed
  qed
  moreover have "se_key ` set R = se_key ` set data \<union> run_keys Q"
    using assms(3) unfolding merge_spec_def keys Q run_keys_insert run_keys_pushed by auto
  ultimately show ?thesis using assms(3) unfolding merge_spec_def by blast
qed

section \<open>The loop implements the merge of runs\<close>

lemma q_ok_deref:
  assumes "q_ok cs fs p"
  shows "Iterator_deref cs fs (fst p) = Ret (Inr (hd (fst (q_abs cs fs p))))"
    "fst (q_abs cs fs p) = hd (fst (q_abs cs fs p)) #
       drop (Suc (it_index (fst p))) (ps_entries cs fs (it_storage (fst p)))"
proof -
  let ?st = "it_storage (fst p)" and ?i = "it_index (fst p)"
  have i: "?i < length (ps_index ?st)" and ok: "ps_ok cs fs ?st" using assms by (simp_all add: q_ok_def)
  have d: "drop ?i (ps_entries cs fs ?st) = ps_entries cs fs ?st ! ?i # drop (Suc ?i) (ps_entries cs fs ?st)"
    using i by (intro Cons_nth_drop_Suc [symmetric]) simp
  show "Iterator_deref cs fs (fst p) = Ret (Inr (hd (fst (q_abs cs fs p))))"
    using i ps_ok_read [OF ok i] d by (simp add: Iterator_deref_def q_abs_def)
  show "fst (q_abs cs fs p) = hd (fst (q_abs cs fs p)) # drop (Suc ?i) (ps_entries cs fs ?st)"
    using d by (simp add: q_abs_def)
qed

lemma comparator_run:
  "q_ok cs fs l \<Longrightarrow> q_ok cs fs r \<Longrightarrow>
   comparator cs fs l r = Ret (run_below (q_abs cs fs l) (q_abs cs fs r))"
  by (simp add: comparator_def q_ok_deref(1) run_below_def) (simp add: q_abs_def)

text \<open>The run of a usable iterator is strictly sorted, so its head is its least key.\<close>

lemma q_ok_sorted: "q_ok cs fs p \<Longrightarrow> sorted_wrt (<) (map se_key (fst (q_abs cs fs p)))"
  by (auto simp: q_ok_def ps_ok_def q_abs_def drop_map [symmetric] sorted_wrt_drop)

lemma q_ok_hd_least:
  assumes "q_ok cs fs p" "k \<in> se_key ` set (fst (q_abs cs fs p))"
  shows "se_key (hd (fst (q_abs cs fs p))) \<le> k"
proof -
  obtain e es where r: "fst (q_abs cs fs p) = e # es" using q_ok_deref(2) [OF assms(1)] by blast
  then have "\<forall>x \<in> set es. se_key e < se_key x" using q_ok_sorted [OF assms(1)] by simp
  then show ?thesis using assms(2) r by (auto intro: less_imp_le)
qed

text \<open>\<open>pop_top\<close> returns an element that none of the others exceeds.\<close>

lemma pop_top_max:
  assumes "\<forall>a \<in> insert x (set ys). \<forall>b \<in> insert x (set ys). cmp a b = Ret (p a b)"
    and "\<And>a b c. p a b \<Longrightarrow> p b c \<Longrightarrow> p a c" "\<And>a b c. \<not> p a b \<Longrightarrow> \<not> p b c \<Longrightarrow> \<not> p a c"
    and "\<And>a. \<not> p a a"
  shows "\<exists>t r. pop_top cmp x ys = Ret (t, r) \<and> \<not> p t x \<and> (\<forall>y \<in> set ys. \<not> p t y)"
  using assms(1)
proof (induction cmp x ys rule: pop_top.induct)
  case (1 cmp x)
  then show ?case using assms(4) by simp
next
  case (2 cmp x y ys)
  have xy: "cmp x y = Ret (p x y)" using "2.prems" by simp
  show ?case
  proof (cases "p x y")
    case True
    from "2.IH"(1) [OF xy True] "2.prems" obtain t r where
      t: "pop_top cmp y ys = Ret (t, r)" "\<not> p t y" "\<forall>z \<in> set ys. \<not> p t z" by auto
    then have "\<not> p t x" using assms(2) True by blast
    then show ?thesis using t xy True by simp
  next
    case False
    from "2.IH"(2) [OF xy False] "2.prems" obtain t r where
      t: "pop_top cmp x ys = Ret (t, r)" "\<not> p t x" "\<forall>z \<in> set ys. \<not> p t z" by auto
    then have "\<not> p t y" using assms(3) False by blast
    then show ?thesis using t xy False by simp
  qed
qed

lemma pop_top_run:
  assumes "\<forall>q \<in> set (x # xs). q_ok cs fs q"
  shows "\<exists>t r. pop_top (comparator cs fs) x xs = Ret (t, r) \<and> set (x # xs) = insert t (set r) \<and>
    (\<forall>q \<in> set (x # xs). \<not> run_below (q_abs cs fs t) (q_abs cs fs q))"
proof -
  have "\<exists>t r. pop_top (comparator cs fs) x xs = Ret (t, r) \<and>
      \<not> run_below (q_abs cs fs t) (q_abs cs fs x) \<and>
      (\<forall>y \<in> set xs. \<not> run_below (q_abs cs fs t) (q_abs cs fs y))"
    by (rule pop_top_max) (use assms comparator_run in \<open>auto simp: run_below_def split: if_splits\<close>)
  then obtain t r where t: "pop_top (comparator cs fs) x xs = Ret (t, r)"
      "\<not> run_below (q_abs cs fs t) (q_abs cs fs x)"
      "\<forall>y \<in> set xs. \<not> run_below (q_abs cs fs t) (q_abs cs fs y)" by blast
  moreover have "set (x # xs) = insert t (set r)"
    using mset_eq_setD [OF pop_top_mset [OF t(1)]] by simp
  ultimately show ?thesis by auto
qed

text \<open>The selected element is the top run; pushing its successor back gives the runs of the next round.\<close>

lemma top_run_selected:
  assumes "\<forall>q \<in> insert t S. q_ok cs fs q"
    and "\<forall>q \<in> insert t S. \<not> run_below (q_abs cs fs t) (q_abs cs fs q)"
  shows "top_run (q_abs cs fs ` insert t S) (hd (fst (q_abs cs fs t)))
    (drop (Suc (it_index (fst t))) (ps_entries cs fs (it_storage (fst t)))) (snd (snd t))
    (q_abs cs fs ` S)"
proof -
  let ?e = "hd (fst (q_abs cs fs t))"
  have least: "se_key ?e \<le> k" if "q \<in> insert t S" "k \<in> se_key ` set (fst (q_abs cs fs q))" for q k
  proof -
    have "\<not> run_below (q_abs cs fs t) (q_abs cs fs q)" "q_ok cs fs q" using assms that(1) by blast+
    then show ?thesis
      using q_ok_hd_least [of cs fs q k] that(2) by (auto simp: run_below_def split: if_splits)
  qed
  have high: "snd (q_abs cs fs q) \<le> snd (snd t)"
    if "q \<in> insert t S" "se_key ?e \<in> se_key ` set (fst (q_abs cs fs q))" for q
  proof -
    have q: "\<not> run_below (q_abs cs fs t) (q_abs cs fs q)" "q_ok cs fs q" using assms that(1) by blast+
    have "se_key (hd (fst (q_abs cs fs q))) \<le> se_key ?e" using q_ok_hd_least [OF q(2) that(2)] .
    then show ?thesis using q(1) by (auto simp: run_below_def q_abs_def split: if_splits)
  qed
  have "q_abs cs fs t = (?e # drop (Suc (it_index (fst t))) (ps_entries cs fs (it_storage (fst t))), snd (snd t))"
    using q_ok_deref(2) [of cs fs t] assms(1) by (simp add: prod_eq_iff q_abs_def)
  then have "q_abs cs fs ` insert t S = insert (?e # drop (Suc (it_index (fst t)))
      (ps_entries cs fs (it_storage (fst t))), snd (snd t)) (q_abs cs fs ` S)"
    by (metis image_insert)
  moreover have "\<forall>r \<in> q_abs cs fs ` insert t S. \<forall>k \<in> se_key ` set (fst r). se_key ?e \<le> k"
    using least by blast
  moreover have "\<forall>r \<in> q_abs cs fs ` insert t S. se_key ?e \<in> se_key ` set (fst r) \<longrightarrow> snd r \<le> snd (snd t)"
    using high by blast
  ultimately show ?thesis unfolding top_run_def run_keys_def by blast
qed

lemma merge_loop_spec:
  assumes "\<forall>q \<in> set queue. q_ok cs fs q" "can_merge (q_abs cs fs ` set queue) data"
  shows "\<exists>R. merge_loop cs fs queue data = Ret (Inr R) \<and> merge_spec (q_abs cs fs ` set queue) data R"
  using assms
proof (induction cs fs queue data rule: merge_loop.induct)
  case (1 cs fs queue data)
  show ?case
  proof (cases queue)
    case Nil
    then show ?thesis using "1.prems"
      by (simp add: merge_loop.simps [of cs fs "[]"] merge_spec_def can_merge_def run_keys_def)
  next
    case (Cons x xs)
    from pop_top_run [of x xs cs fs] "1.prems"(1) obtain t r where
      t: "pop_top (comparator cs fs) x xs = Ret (t, r)" "set queue = insert t (set r)"
      "\<forall>q \<in> insert t (set r). \<not> run_below (q_abs cs fs t) (q_abs cs fs q)" unfolding Cons by metis
    obtain cur end_it index where te: "t = (cur, end_it, index)" by (metis prod_cases3)
    have ok: "\<forall>q \<in> insert t (set r). q_ok cs fs q" using "1.prems"(1) t(2) by simp
    let ?e = "hd (fst (q_abs cs fs t))" and ?cur1 = "Iterator_next cur"
    let ?rest = "drop (Suc (it_index cur)) (ps_entries cs fs (it_storage cur))"
    let ?queue2 = "if ?cur1 \<noteq> end_it then (?cur1, end_it, index) # r else r"
    have tr: "top_run (q_abs cs fs ` set queue) ?e ?rest index (q_abs cs fs ` set r)"
      using top_run_selected [OF ok t(3)] t(2) te by simp
    have d: "Iterator_deref cs fs cur = Ret (Inr ?e)" using q_ok_deref(1) [of cs fs t] ok te by simp
    have okt: "q_ok cs fs (cur, end_it, index)" using ok te by simp
    then have endi: "?cur1 \<noteq> end_it \<longleftrightarrow> Suc (it_index cur) < length (ps_index (it_storage cur))"
      by (cases cur) (auto simp: q_ok_def storage_end_def Iterator_next_def)
    have ok2: "\<forall>q \<in> set ?queue2. q_ok cs fs q"
      using ok okt endi by (auto simp: q_ok_def Iterator_next_def)
    have abs2: "q_abs cs fs ` set ?queue2 = pushed ?rest index (q_abs cs fs ` set r)"
      using endi by (auto simp: pushed_def q_abs_def Iterator_next_def)
    have step: "merge_loop cs fs queue data = merge_loop cs fs ?queue2 (appended data ?e)"
      unfolding Cons using t(1) te d
      by (subst merge_loop.simps) (simp only: list.case exec_bind.simps prod.case sum.case Let_def appended_def)
    have "can_merge (q_abs cs fs ` set ?queue2) (appended data ?e)"
      unfolding abs2 by (rule can_merge_step(1) [OF tr "1.prems"(2)])
    with "1.IH" [OF Cons t(1) refl te [symmetric] refl d refl refl refl refl] ok2 obtain R where
      "merge_loop cs fs ?queue2 (appended data ?e) = Ret (Inr R)"
      "merge_spec (pushed ?rest index (q_abs cs fs ` set r)) (appended data ?e) R"
      unfolding appended_def abs2 [symmetric] by blast
    then show ?thesis using merge_spec_step [OF tr "1.prems"(2)] step by auto
  qed
qed

section \<open>The reference merge\<close>

text \<open>
  What compaction is for: of the entries of all tables, newest table first, the first of each key,
  in key order.
\<close>

fun first_of_key :: "StorageEntry list \<Rightarrow> StorageEntry list" where
  "first_of_key [] = []"
| "first_of_key (e # es) = e # filter (\<lambda>x. se_key x \<noteq> se_key e) (first_of_key es)"

definition merged :: "codecs \<Rightarrow> fs \<Rightarrow> PersistentStorage list \<Rightarrow> StorageEntry list" where
  "merged cs fs ps = sort (first_of_key (concat (map (ps_entries cs fs) (rev ps))))"

lemma entries_view_filter:
  "entries_view (filter (\<lambda>x. se_key x \<noteq> k) es) = (entries_view es)(k := None)"
  by (induction es) (auto simp: fun_eq_iff)

lemma entries_view_first_of_key: "entries_view (first_of_key es) = entries_view es"
  by (induction es) (auto simp: entries_view_filter fun_eq_iff)

lemma distinct_first_of_key: "distinct (map se_key (first_of_key es))"
  by (induction es) (auto simp: distinct_map_filter)

lemma entries_view_mem:
  "distinct (map se_key es) \<Longrightarrow> e \<in> set es \<Longrightarrow> entries_view es (se_key e) = Some (entry_value e)"
  by (simp add: entries_view_def find_key_unique)

lemma entries_view_None: "entries_view es k = None \<longleftrightarrow> k \<notin> se_key ` set es"
  by (auto simp: entries_view_def find_None_iff)

lemma value_entry_entry_value [simp]: "value_entry (se_key e) (entry_value e) = e"
  by (simp add: value_entry_def entry_value_def)

lemma merged_sorted: "sorted_wrt (<) (map se_key (merged cs fs ps))"
  by (simp add: merged_def sort_entries_strict distinct_first_of_key)

lemma merged_view: "entries_view (merged cs fs ps) = tables_view cs fs ps"
proof -
  have "entries_view (merged cs fs ps) =
      entries_view (first_of_key (concat (map (ps_entries cs fs) (rev ps))))"
    unfolding merged_def
    by (rule entries_view_perm [symmetric]) (simp_all add: distinct_first_of_key)
  then show ?thesis by (simp add: entries_view_first_of_key tables_view_def)
qed

text \<open>A list of entries with strictly increasing keys is determined by its view.\<close>

lemma sorted_entries_unique:
  assumes "sorted_wrt (<) (map se_key es)" "sorted_wrt (<) (map se_key es')"
    "entries_view es = entries_view es'"
  shows "es = es'"
proof -
  have "k \<in> se_key ` set es \<longleftrightarrow> k \<in> se_key ` set es'" for k
    using entries_view_None [of es k] entries_view_None [of es' k] assms(3) by simp
  then have keys: "map se_key es = map se_key es'"
    using assms(1,2) by (intro sorted_distinct_set_unique) (auto simp: strict_sorted_iff)
  have "xs = map (\<lambda>k. value_entry k (the (entries_view xs k))) (map se_key xs)"
    if "sorted_wrt (<) (map se_key xs)" for xs
    using that by (auto simp: strict_sorted_iff entries_view_mem intro!: map_idI [symmetric])
  from this [OF assms(1)] this [OF assms(2)] show ?thesis
    by (simp only: keys assms(3))
qed

section \<open>From the runs to the tables\<close>

lemma set_make_iterators:
  "set (make_iterators ps n) = (\<lambda>i. (storage_begin (ps ! i), storage_end (ps ! i), n + i)) ` {..<length ps}"
proof (induction ps n rule: make_iterators.induct)
  case (2 storage storages i)
  have "{..<length (storage # storages)} = insert 0 (Suc ` {..<length storages})"
    by (simp add: lessThan_Suc_eq_insert_0)
  then show ?case by (simp add: 2 image_image)
qed simp

lemma runs_make_iterators:
  "q_abs cs fs ` set (make_iterators ps 0) = (\<lambda>i. (ps_entries cs fs (ps ! i), i)) ` {..<length ps}"
  by (simp add: set_make_iterators image_image q_abs_def storage_begin_def)

lemma q_ok_make_iterators:
  "\<forall>st \<in> set ps. ps_ok cs fs st \<and> ps_index st \<noteq> [] \<Longrightarrow> \<forall>q \<in> set (make_iterators ps 0). q_ok cs fs q"
  by (auto simp: set_make_iterators q_ok_def storage_begin_def storage_end_def)

lemma tables_view_newest:
  assumes "i < length ps" "e \<in> set (ps_entries cs fs (ps ! i))" "\<forall>st \<in> set ps. ps_ok cs fs st"
    "\<forall>j < length ps. se_key e \<in> se_key ` set (ps_entries cs fs (ps ! j)) \<longrightarrow> j \<le> i"
  shows "tables_view cs fs ps (se_key e) = Some (entry_value e)"
  using assms
proof (induction ps rule: rev_induct)
  case (snoc st ps)
  show ?case
  proof (cases "i = length ps")
    case True
    then have "e \<in> set (ps_entries cs fs st)" using snoc.prems(2) by simp
    then show ?thesis
      using snoc.prems(3) by (simp add: tables_view_snoc entries_view_mem ps_ok_distinct)
  next
    case False
    then have i: "i < length ps" using snoc.prems(1) by simp
    then have "entries_view (ps_entries cs fs st) (se_key e) = None"
      using snoc.prems(4) by (auto simp: entries_view_None dest!: spec [of _ "length ps"])
    moreover have "tables_view cs fs ps (se_key e) = Some (entry_value e)"
    proof (rule snoc.IH [OF i])
      show "e \<in> set (ps_entries cs fs (ps ! i))" using snoc.prems(2) i by (simp add: nth_append)
      show "\<forall>st \<in> set ps. ps_ok cs fs st" using snoc.prems(3) by simp
      show "\<forall>j < length ps. se_key e \<in> se_key ` set (ps_entries cs fs (ps ! j)) \<longrightarrow> j \<le> i"
        using snoc.prems(4) by (auto simp: nth_append dest!: spec)
    qed
    ultimately show ?thesis by (simp add: tables_view_snoc map_add_def)
  qed
qed simp

lemma tables_view_None:
  "tables_view cs fs ps k = None \<longleftrightarrow> (\<forall>st \<in> set ps. k \<notin> se_key ` set (ps_entries cs fs st))"
  by (auto simp: tables_view_def entries_view_None)

lemma merge_spec_view:
  assumes "\<forall>st \<in> set ps. ps_ok cs fs st"
    "merge_spec ((\<lambda>i. (ps_entries cs fs (ps ! i), i)) ` {..<length ps}) [] R"
  shows "R = merged cs fs ps"
proof (rule sorted_entries_unique)
  let ?Q = "(\<lambda>i. (ps_entries cs fs (ps ! i), i)) ` {..<length ps}"
  show s: "sorted_wrt (<) (map se_key R)" using assms(2) by (simp add: merge_spec_def)
  show "sorted_wrt (<) (map se_key (merged cs fs ps))" by (rule merged_sorted)
  have keys: "se_key ` set R = run_keys ?Q" using assms(2) by (simp add: merge_spec_def)
  have "entries_view R k = tables_view cs fs ps k" for k
  proof (cases "k \<in> se_key ` set R")
    case True
    then obtain e where e: "e \<in> set R" "k = se_key e" by blast
    then have "newest ?Q k e" using assms(2) by (simp add: merge_spec_def)
    then obtain i where "i < length ps" "e \<in> set (ps_entries cs fs (ps ! i))"
      "\<forall>j < length ps. k \<in> se_key ` set (ps_entries cs fs (ps ! j)) \<longrightarrow> j \<le> i"
      unfolding newest_def by auto
    then have "tables_view cs fs ps k = Some (entry_value e)"
      using tables_view_newest [OF _ _ assms(1)] e(2) by blast
    moreover have "entries_view R k = Some (entry_value e)"
      using s e by (simp add: entries_view_mem strict_sorted_iff)
    ultimately show ?thesis by simp
  next
    case False
    then have "tables_view cs fs ps k = None"
      unfolding keys tables_view_None run_keys_def set_conv_nth [of ps] by auto
    then show ?thesis using False by (simp add: entries_view_None)
  qed
  then show "entries_view R = entries_view (merged cs fs ps)" by (simp add: merged_view fun_eq_iff)
qed

lemma merge_loop_merged:
  assumes "\<forall>st \<in> set ps. ps_ok cs fs st \<and> ps_index st \<noteq> []"
  shows "merge_loop cs fs (make_iterators ps 0) [] = Ret (Inr (merged cs fs ps))"
proof -
  from merge_loop_spec [OF q_ok_make_iterators [OF assms], of "[]"] obtain R where
    "merge_loop cs fs (make_iterators ps 0) [] = Ret (Inr R)"
    "merge_spec ((\<lambda>i. (ps_entries cs fs (ps ! i), i)) ` {..<length ps}) [] R"
    unfolding runs_make_iterators by (auto simp: can_merge_def)
  then show ?thesis using merge_spec_view [of ps cs fs R] assms by simp
qed

section \<open>The compaction job\<close>

text \<open>A step that writes a new table leaves the collection on disk and its contents alone.\<close>

definition beside_tables :: "codecs \<Rightarrow> fs \<Rightarrow> PersistentStorage \<Rightarrow> fs \<Rightarrow> bool" where
  "beside_tables cs fs st fs' \<longleftrightarrow> (\<forall>ps. coll_inv cs fs ps \<longrightarrow>
     coll_inv cs fs' ps \<and> tables_view cs fs' ps = tables_view cs fs ps \<and>
     (\<forall>e \<in> set (disk_entries cs fs'). entry_path fs' e \<noteq> ps_path st))"

lemma NewPersistentStorage_table:
  assumes "codecs_ok cs" "fs_ok fs" "distinct (map se_key data)" "length (table_bytes cs (sort data)) < 2 ^ 64"
  shows "\<exists>st fs'. NewPersistentStorage cs data fs = (Inr st, fs') \<and> fs_ok fs' \<and> fs_extends fs fs' \<and>
    ps_stored cs fs' st \<and> ps_ok cs fs' st \<and> ps_entries cs fs' st = sort data \<and>
    is_table fs' (ps_path st) \<and> length (ps_index st) = length data \<and>
    agree_on (insert (meta_path fs) (table_files fs)) fs fs' \<and> agree_on (other_files fs) fs fs' \<and>
    beside_tables cs fs st fs'"
proof -
  from NewPersistentStorage_post [OF assms(1,2), of data] obtain st fs' where
    n: "NewPersistentStorage cs data fs = (Inr st, fs')" "new_storage_post cs data fs st fs'" by blast
  note ok = new_storage_ok [OF assms(1) n(2) assms(3,4)]
  note post = n(2) [unfolded new_storage_post_def]
  note ag = agree_on_new_storage(1) [OF assms(2) n(2)] and ag' = agree_on_new_storage(2) [OF assms(2) n(2)]
  have "is_table fs' (ps_path st)"
    unfolding is_table_def same_env_format [OF agree_on_env [OF ag]]
    using post agree_on_env [OF ag] by (intro exI [of _ "fs_uuid_pos fs"]) (simp add: same_env_def)
  moreover have "length (ps_index st) = length data"
    using ok(2) length_ps_entries [of cs fs' st] by simp
  ultimately show ?thesis
    using n ok post ag ag' agree_on_env [OF ag] coll_inv_new_storage [OF assms(2) n(2)]
    unfolding beside_tables_def by auto
qed

text \<open>
  A batch of entries made into the newest table of a collection: \<open>persisted\<close> says what the write
  of the table and of the metadata leaves.
\<close>

definition persisted :: "codecs \<Rightarrow> fs \<Rightarrow> PersistentStorage list \<Rightarrow> StorageEntry list \<Rightarrow>
    PersistentStorage \<Rightarrow> fs \<Rightarrow> bool" where
  "persisted cs fs ps data st fs' \<longleftrightarrow> fs_ok fs' \<and> same_env fs fs' \<and> coll_inv cs fs' (ps @ [st]) \<and>
     tables_view cs fs' (ps @ [st]) = tables_view cs fs ps ++ entries_view data \<and>
     (\<forall>old \<in> set ps. ps_entries cs fs' old = ps_entries cs fs old) \<and>
     ps_entries cs fs' st = sort data \<and> length (ps_index st) = length data \<and>
     agree_on (other_files fs) fs fs'"

lemma entries_frame:
  assumes "coll_inv cs fs ps" "agree_on (table_files fs) fs fs'" "st \<in> set ps"
  shows "ps_entries cs fs' st = ps_entries cs fs st"
  using stored_agree(3) [OF assms(2) _ _ coll_inv_mem(2) [OF assms(1,3)]]
    is_table_files coll_inv_mem(1) [OF assms(1,3)] by blast

lemma persist_table:
  assumes "codecs_ok cs" "fs_ok fs" "coll_inv cs fs (collection c)" "distinct (map se_key data)"
    "length (table_bytes cs (sort data)) < 2 ^ 64"
  shows "\<exists>st fs1 fs2. NewPersistentStorage cs data fs = (Inr st, fs1) \<and> fs_ok fs1 \<and>
    Collection_Add cs st c fs1 = (Inr (), c\<lparr>collection := collection c @ [st]\<rparr>, fs2) \<and>
    persisted cs fs (collection c) data st fs2"
proof -
  from NewPersistentStorage_table [OF assms(1,2,4,5)] obtain st fs1 where n:
    "NewPersistentStorage cs data fs = (Inr st, fs1)" "fs_ok fs1" "fs_extends fs fs1" "ps_stored cs fs1 st"
    "ps_ok cs fs1 st" "ps_entries cs fs1 st = sort data" "is_table fs1 (ps_path st)"
    "length (ps_index st) = length data" "agree_on (insert (meta_path fs) (table_files fs)) fs fs1"
    "agree_on (other_files fs) fs fs1" "beside_tables cs fs st fs1" by blast
  have b: "coll_inv cs fs1 (collection c)"
    "tables_view cs fs1 (collection c) = tables_view cs fs (collection c)"
    using n(11) assms(3) by (auto simp: beside_tables_def)
  from Collection_Add_coll [OF assms(1) n(2) b(1) n(7,4,5)] obtain fs2 where a:
    "Collection_Add cs st c fs1 = (Inr (), c\<lparr>collection := collection c @ [st]\<rparr>, fs2)" "fs_ok fs2"
    "same_env fs1 fs2" "agree_on (- {meta_path fs1}) fs1 fs2" "coll_inv cs fs2 (collection c @ [st])"
    "tables_view cs fs2 (collection c @ [st]) =
      tables_view cs fs1 (collection c) ++ entries_view (ps_entries cs fs1 st)" by blast
  have "table_files fs1 \<subseteq> - {meta_path fs1}" using meta_not_table [OF n(2), of "[]"] by auto
  note ag2 = agree_on_mono [OF a(4) this]
  have ag1: "agree_on (table_files fs) fs fs1" using agree_on_mono [OF n(9)] by blast
  have "ps_entries cs fs2 old = ps_entries cs fs old" if "old \<in> set (collection c)" for old
    using entries_frame [OF b(1) ag2 that] entries_frame [OF assms(3) ag1 that] by simp
  moreover have "ps_entries cs fs2 st = sort data"
    using stored_agree(3) [OF ag2 _ _ n(4)] is_table_files [OF n(7)] n(6) by simp
  moreover have "entries_view (sort data) = entries_view data"
    by (rule entries_view_perm [symmetric]) (simp_all add: assms(4))
  moreover note n(10)
  moreover have "agree_on (other_files fs) fs1 fs2"
    by (rule agree_on_mono [OF a(4)])
      (auto simp: other_files_def meta_path_env [OF agree_on_env [OF n(9)]])
  moreover have "same_env fs fs2" using agree_on_env [OF n(9)] a(3) by (auto simp: same_env_def)
  ultimately have "persisted cs fs (collection c) data st fs2"
    using a(2,5,6) b(2) n(6,8) agree_on_trans by (auto simp: persisted_def)
  then show ?thesis using n(1,2) a(1) by blast
qed

lemma merged_distinct: "distinct (map se_key (merged cs fs ps))"
  using merged_sorted by (simp add: strict_sorted_iff)

lemma merged_sort [simp]: "sort (merged cs fs ps) = merged cs fs ps"
  by (simp add: merged_def sorted_sort_id)

lemma MergeData_merged:
  assumes "codecs_ok cs" "fs_ok fs" "collection c \<noteq> []"
    "\<forall>st \<in> set (collection c). ps_ok cs fs st \<and> ps_index st \<noteq> []"
    "length (table_bytes cs (merged cs fs (collection c))) < 2 ^ 64"
  shows "\<exists>st fs'. MergeData cs c fs = (Ret (Inr st), fs') \<and> fs_ok fs' \<and> fs_extends fs fs' \<and>
    ps_stored cs fs' st \<and> ps_ok cs fs' st \<and> ps_entries cs fs' st = merged cs fs (collection c) \<and>
    is_table fs' (ps_path st) \<and> agree_on (other_files fs) fs fs' \<and> beside_tables cs fs st fs'"
proof -
  from NewPersistentStorage_table [OF assms(1,2) merged_distinct] assms(5) obtain st fs' where
    "NewPersistentStorage cs (merged cs fs (collection c)) fs = (Inr st, fs')" "fs_ok fs'"
    "fs_extends fs fs'"
    "ps_stored cs fs' st" "ps_ok cs fs' st" "ps_entries cs fs' st = merged cs fs (collection c)"
    "is_table fs' (ps_path st)" "agree_on (other_files fs) fs fs'" "beside_tables cs fs st fs'"
    unfolding merged_sort by blast
  then show ?thesis
    using assms(3) merge_loop_merged [OF assms(4)] by (simp add: MergeData_def GetCollection_def)
qed

lemma RunCompaction_below: "Collection_Size c \<le> kThreshold \<Longrightarrow> RunCompaction cs c fs = (Ret (), c, fs)"
  by (simp add: RunCompaction_def)

lemma RunCompaction_merged:
  assumes "codecs_ok cs" "fs_ok fs" "coll_inv cs fs (collection c)" "kThreshold < Collection_Size c"
    "\<forall>st \<in> set (collection c). ps_index st \<noteq> []"
    "length (table_bytes cs (merged cs fs (collection c))) < 2 ^ 64"
  shows "\<exists>st fs'. RunCompaction cs c fs = (Ret (), c\<lparr>collection := [st]\<rparr>, fs') \<and> fs_ok fs' \<and>
    coll_inv cs fs' [st] \<and> ps_entries cs fs' st = merged cs fs (collection c) \<and>
    tables_view cs fs' [st] = tables_view cs fs (collection c) \<and>
    agree_on (other_files fs) fs fs' \<and>
    (\<forall>old \<in> set (collection c). map_of (fs_dir fs') (ps_path old) = None)"
proof -
  have "collection c \<noteq> []" using assms(4) by (auto simp: Collection_Size_def)
  from MergeData_merged [OF assms(1,2) this _ assms(6)] assms(3,5) obtain st fs1 where
    m: "MergeData cs c fs = (Ret (Inr st), fs1)" "fs_ok fs1" "ps_stored cs fs1 st" "ps_ok cs fs1 st"
    "ps_entries cs fs1 st = merged cs fs (collection c)" "is_table fs1 (ps_path st)"
    "coll_inv cs fs1 (collection c)" "\<forall>e \<in> set (disk_entries cs fs1). entry_path fs1 e \<noteq> ps_path st"
    "fs_extends fs fs1" "agree_on (other_files fs) fs fs1"
    by (auto simp: coll_inv_def beside_tables_def)
  from SwapWith_coll [OF assms(1) m(2,7,6,3,4,8)] obtain fs2 where
    "SwapWith cs st c fs1 = (Ret (Inr ()), c\<lparr>collection := [st]\<rparr>, fs2)" "fs_ok fs2"
    "coll_inv cs fs2 [st]" "ps_entries cs fs2 st = ps_entries cs fs1 st"
    "agree_on (other_files fs1) fs1 fs2"
    "\<forall>old \<in> set (collection c). map_of (fs_dir fs2) (ps_path old) = None" by blast
  moreover have "agree_on (other_files fs) fs fs2"
    using agree_on_trans [OF m(10)] calculation(5) other_files_env [OF agree_on_env [OF m(10)]] by simp
  ultimately show ?thesis
    using assms(4) m(1,5) merged_view [of cs fs "collection c"]
    by (intro exI [of _ st] exI [of _ fs2]) (simp add: RunCompaction_def tables_view_def)
qed

section \<open>Failures of the merge\<close>

text \<open>An iterator at its end in the queue, from an empty table, is dereferenced.\<close>

lemma pop_top_Undef:
  assumes "\<forall>a b. bad a \<or> bad b \<longrightarrow> cmp a b = Undef" "\<forall>a b. \<not> bad a \<longrightarrow> \<not> bad b \<longrightarrow> (\<exists>v. cmp a b = Ret v)"
  shows "ys \<noteq> [] \<Longrightarrow> \<exists>z \<in> insert x (set ys). bad z \<Longrightarrow> pop_top cmp x ys = Undef"
  using assms
proof (induction cmp x ys rule: pop_top.induct)
  case (2 cmp x y ys)
  show ?case
  proof (cases "bad x \<or> bad y")
    case True
    then have "cmp x y = Undef" using "2.prems"(3) by blast
    then show ?thesis by simp
  next
    case False
    then obtain v where v: "cmp x y = Ret v" using "2.prems"(4) by blast
    have "ys \<noteq> []" "\<exists>z \<in> set ys. bad z" using "2.prems"(2) False by auto
    then show ?thesis using "2.IH" [OF v] v "2.prems"(3,4) by (cases v) auto
  qed
qed simp

lemma merge_loop_empty_table:
  assumes "\<exists>p \<in> set queue. length (ps_index (it_storage (fst p))) \<le> it_index (fst p)"
  shows "merge_loop cs fs queue data = Undef"
proof -
  let ?bad = "\<lambda>p :: IteratorPair. length (ps_index (it_storage (fst p))) \<le> it_index (fst p)"
  obtain x xs where q: "queue = x # xs" using assms by (cases queue) auto
  have "pop_top (comparator cs fs) x xs = Undef" if "xs \<noteq> []"
  proof (rule pop_top_Undef [where bad = ?bad])
    show "\<forall>a b. ?bad a \<or> ?bad b \<longrightarrow> comparator cs fs a b = Undef"
      by (auto simp: comparator_def Iterator_deref_def)
    show "\<forall>a b. \<not> ?bad a \<longrightarrow> \<not> ?bad b \<longrightarrow> (\<exists>v. comparator cs fs a b = Ret v)"
      by (auto simp: comparator_def Iterator_deref_def)
  qed (use that assms q in auto)
  then show ?thesis
    using assms q by (cases xs) (auto simp: merge_loop.simps [of cs fs "_ # _"] Iterator_deref_def
        split: prod.splits)
qed

lemma RunCompaction_empty_table:
  assumes "kThreshold < Collection_Size c" "\<exists>st \<in> set (collection c). ps_index st = []"
  shows "RunCompaction cs c fs = (Undef, c, fs)"
proof -
  have "\<exists>p \<in> set (make_iterators (collection c) 0).
      length (ps_index (it_storage (fst p))) \<le> it_index (fst p)"
    using assms(2) by (force simp: set_make_iterators storage_begin_def in_set_conv_nth)
  from merge_loop_empty_table [OF this] show ?thesis
    using assms by (auto simp: RunCompaction_def MergeData_def GetCollection_def Let_def)
qed

text \<open>A read that fails ends the merge with an error, and the job leaves everything as it was.\<close>

lemma RunCompaction_read_failure:
  assumes "kThreshold < Collection_Size c"
    "merge_loop cs fs (make_iterators (collection c) 0) [] = Ret (Inl e)"
  shows "RunCompaction cs c fs = (Ret (), c, fs)"
  using assms by (auto simp: RunCompaction_def MergeData_def GetCollection_def Collection_Size_def Let_def)

text \<open>Both branches of a compaction of tables that all have entries.\<close>

definition tables_full :: "PersistentStorageCollection \<Rightarrow> bool" where
  "tables_full c \<longleftrightarrow> (\<forall>st \<in> set (collection c). ps_index st \<noteq> [])"

lemma merged_nonempty:
  assumes "tables_full c" "collection c \<noteq> []"
  shows "merged cs fs (collection c) \<noteq> []"
proof
  assume "merged cs fs (collection c) = []"
  then have none: "tables_view cs fs (collection c) k = None" for k
    using merged_view [of cs fs "collection c"] by (metis entries_view_Nil)
  from assms obtain st where st: "st \<in> set (collection c)" "ps_index st \<noteq> []"
    by (cases "collection c") (auto simp: tables_full_def)
  then have "ps_entries cs fs st \<noteq> []" by (simp add: ps_entries_def)
  then obtain e where "e \<in> set (ps_entries cs fs st)" using list.set_intros(1) by (metis neq_Nil_conv)
  with none [of "se_key e"] st(1) show False by (auto simp: tables_view_None)
qed

lemma RunCompaction_ok:
  assumes "codecs_ok cs" "fs_ok fs" "coll_inv cs fs (collection c)" "tables_full c"
    "length (table_bytes cs (merged cs fs (collection c))) < 2 ^ 64"
  shows "\<exists>c' fs'. RunCompaction cs c fs = (Ret (), c', fs') \<and> fs_ok fs' \<and>
    coll_inv cs fs' (collection c') \<and> tables_view cs fs' (collection c') = tables_view cs fs (collection c) \<and>
    agree_on (other_files fs) fs fs' \<and> tables_full c' \<and> Collection_Size c' \<le> kThreshold"
proof (cases "Collection_Size c \<le> kThreshold")
  case True
  then show ?thesis using assms by (simp add: RunCompaction_below)
next
  case False
  then have big: "kThreshold < Collection_Size c" and ne: "collection c \<noteq> []"
    by (auto simp: Collection_Size_def)
  from RunCompaction_merged [OF assms(1-3) big assms(4) [unfolded tables_full_def] assms(5)]
  obtain st fs' where r: "RunCompaction cs c fs = (Ret (), c\<lparr>collection := [st]\<rparr>, fs')" "fs_ok fs'"
    "coll_inv cs fs' [st]" "ps_entries cs fs' st = merged cs fs (collection c)"
    "tables_view cs fs' [st] = tables_view cs fs (collection c)" "agree_on (other_files fs) fs fs'" by blast
  have "ps_index st \<noteq> []"
    using merged_nonempty [OF assms(4) ne, of cs fs] r(4) by (auto simp: ps_entries_def)
  then show ?thesis
    using r by (auto simp: tables_full_def Collection_Size_def kThreshold_def)
qed

end
