(* ===== verification/Synchronization.thy ===== *)
theory Synchronization
  imports Prelude
begin

text \<open>
  \<open>logic/synchronization\<close>: the two reference counters with their spinning \<open>Wait\<close>
  (\<open>operations_guard.hpp\<close>) and the guard of the background job (\<open>job_guard.hpp\<close>,
  \<open>job_guard.cpp\<close>). Each operation here is one call that runs without interruption; a \<open>Wait\<close>
  that would spin on a non-zero counter is \<^const>\<open>Hang\<close>, because no other thread runs inside
  the call.
\<close>

section \<open>The contract of a counted pointer\<close>

text \<open>
  What the storage relies on, for the owning and the non-owning counter alike: \<open>add\<close> returns the
  pointer and counts a user, \<open>remove\<close> takes it back, and \<open>wait\<close> returns when there is no user
  and only then.
\<close>

locale counted_pointer =
  fixes add :: "'c \<Rightarrow> nat option \<times> 'c"
    and remove :: "'c \<Rightarrow> 'c"
    and wait :: "'c \<Rightarrow> unit exec"
    and ptr :: "'c \<Rightarrow> nat option"
    and users :: "'c \<Rightarrow> u32"
  assumes add_ptr: "fst (add c) = ptr c"
    and ptr_add: "ptr (snd (add c)) = ptr c"
    and ptr_remove: "ptr (remove c) = ptr c"
    and users_add: "users (snd (add c)) = users c + 1"
    and users_remove: "users (remove c) = users c - 1"
    and remove_add: "remove (snd (add c)) = c"
    and wait_iff: "wait c = (if users c = 0 then Ret () else Hang)"
begin

fun nested :: "nat \<Rightarrow> 'c \<Rightarrow> 'c" where
  "nested 0 c = c"
| "nested (Suc n) c = snd (add (nested n c))"

lemma users_nested: "users (nested n c) = users c + of_nat n"
  by (induction n) (simp_all add: users_add)

lemma ptr_nested: "ptr (nested n c) = ptr c"
  by (induction n) (simp_all add: ptr_add)

text \<open>While fewer than \<open>2 ^ 32\<close> users hold an unused counter, \<open>wait\<close> blocks exactly if one does.\<close>

lemma wait_nested:
  assumes "users c = 0" "n < 2 ^ 32"
  shows "wait (nested n c) = (if n = 0 then Ret () else Hang)"
proof -
  have "(of_nat n :: u32) = 0 \<longleftrightarrow> n = 0"
    using assms(2) by (auto simp: word_of_nat_eq_0_iff dest: dvd_imp_le)
  then show ?thesis using assms(1) by (simp add: wait_iff users_nested)
qed

end

section \<open>OwningReferenceCounter\<close>

record OwningReferenceCounter =
  orc_ptr :: "nat option"
  orc_count :: u32

definition ORC_new :: "nat \<Rightarrow> OwningReferenceCounter" where
  "ORC_new p = \<lparr>orc_ptr = Some p, orc_count = 0\<rparr>"

definition ORC_Add :: "OwningReferenceCounter \<Rightarrow> nat option \<times> OwningReferenceCounter" where
  "ORC_Add c = (orc_ptr c, c\<lparr>orc_count := orc_count c + 1\<rparr>)"

definition ORC_Remove :: "OwningReferenceCounter \<Rightarrow> OwningReferenceCounter" where
  "ORC_Remove c = c\<lparr>orc_count := orc_count c - 1\<rparr>"

definition ORC_GetUnderlying :: "OwningReferenceCounter \<Rightarrow> nat option" where
  "ORC_GetUnderlying c = orc_ptr c"

definition ORC_Wait :: "OwningReferenceCounter \<Rightarrow> unit exec" where
  "ORC_Wait c = (if orc_count c \<noteq> 0 then Hang else Ret ())"

text \<open>The move constructor takes the pointer and leaves the counts of both objects at zero.\<close>

definition ORC_move :: "OwningReferenceCounter \<Rightarrow> OwningReferenceCounter \<times> OwningReferenceCounter" where
  "ORC_move other = (\<lparr>orc_ptr = orc_ptr other, orc_count = 0\<rparr>,
     other\<lparr>orc_ptr := None, orc_count := 0\<rparr>)"

text \<open>The destructor waits for the users and says which object it deletes.\<close>

definition ORC_destroy :: "OwningReferenceCounter \<Rightarrow> nat option exec" where
  "ORC_destroy c = (case orc_ptr c of
       None \<Rightarrow> Ret None
     | Some p \<Rightarrow> exec_bind (ORC_Wait c) (\<lambda>_. Ret (Some p)))"

interpretation orc: counted_pointer ORC_Add ORC_Remove ORC_Wait orc_ptr orc_count
  by unfold_locales (simp_all add: ORC_Add_def ORC_Remove_def ORC_Wait_def)

section \<open>ReferenceCounter\<close>

record ReferenceCounter =
  rc_ptr :: "nat option"
  rc_count :: u32

definition RC_new :: "nat option \<Rightarrow> ReferenceCounter" where
  "RC_new p = \<lparr>rc_ptr = p, rc_count = 0\<rparr>"

definition RC_Add :: "ReferenceCounter \<Rightarrow> nat option \<times> ReferenceCounter" where
  "RC_Add c = (rc_ptr c, c\<lparr>rc_count := rc_count c + 1\<rparr>)"

definition RC_Remove :: "ReferenceCounter \<Rightarrow> ReferenceCounter" where
  "RC_Remove c = c\<lparr>rc_count := rc_count c - 1\<rparr>"

definition RC_GetUnderlying :: "ReferenceCounter \<Rightarrow> nat option" where
  "RC_GetUnderlying c = rc_ptr c"

definition RC_Wait :: "ReferenceCounter \<Rightarrow> unit exec" where
  "RC_Wait c = (if rc_count c \<noteq> 0 then Hang else Ret ())"

definition RC_move :: "ReferenceCounter \<Rightarrow> ReferenceCounter \<times> ReferenceCounter" where
  "RC_move other = (\<lparr>rc_ptr = rc_ptr other, rc_count = 0\<rparr>,
     other\<lparr>rc_ptr := None, rc_count := 0\<rparr>)"

definition RC_destroy :: "ReferenceCounter \<Rightarrow> unit exec" where
  "RC_destroy c = (case rc_ptr c of None \<Rightarrow> Ret () | Some p \<Rightarrow> RC_Wait c)"

interpretation rc: counted_pointer RC_Add RC_Remove RC_Wait rc_ptr rc_count
  by unfold_locales (simp_all add: RC_Add_def RC_Remove_def RC_Wait_def)

lemma ORC_new_inject [simp]: "ORC_new p = ORC_new q \<longleftrightarrow> p = q"
  by (simp add: ORC_new_def)

lemma RC_new_inject [simp]: "RC_new p = RC_new q \<longleftrightarrow> p = q"
  by (simp add: RC_new_def)

section \<open>JobGuard\<close>

record JobGuard =
  is_job_running :: bool

definition new_JobGuard :: JobGuard where
  "new_JobGuard = \<lparr>is_job_running = False\<rparr>"

definition JobGuard_copy :: "JobGuard \<Rightarrow> JobGuard" where
  "JobGuard_copy other = \<lparr>is_job_running = False\<rparr>"

definition JobGuard_assign :: "JobGuard \<Rightarrow> JobGuard \<Rightarrow> JobGuard" where
  "JobGuard_assign g other = g\<lparr>is_job_running := False\<rparr>"

definition TryAcquire :: "JobGuard \<Rightarrow> bool \<times> JobGuard" where
  "TryAcquire g = (\<not> is_job_running g, g\<lparr>is_job_running := True\<rparr>)"

definition Release :: "JobGuard \<Rightarrow> JobGuard" where
  "Release g = g\<lparr>is_job_running := False\<rparr>"

end
