(* ===== verification/Swappable.thy ===== *)
theory Swappable
  imports Memstorage Synchronization
begin

text \<open>
  \<open>SwappableMemoryStorage\<close> (\<open>swappable_memstorage.hpp\<close>, \<open>swappable_memory_storage.cpp\<close>): two hash
  maps that are read one after the other, and a writer that aliases one of them. The aliasing is
  the point of the class, so the model has a heap: map objects, owning counters and non-owning
  counters live at addresses, the three atomic members hold addresses, and using an address
  that holds no object (a null pointer or a deleted object) is \<^const>\<open>Undef\<close>.
\<close>

section \<open>State\<close>

record heap =
  h_maps :: "nat \<Rightarrow> MapStorage option"
  h_own :: "nat \<Rightarrow> OwningReferenceCounter option"
  h_ref :: "nat \<Rightarrow> ReferenceCounter option"
  h_next :: nat

record SwappableMemoryStorage =
  sw_heap :: heap
  reader_first :: "nat option"
  reader_second :: "nat option"
  writer :: "nat option"

definition deref :: "(nat \<Rightarrow> 'o option) \<Rightarrow> nat option \<Rightarrow> (nat \<times> 'o) exec" where
  "deref objs p = (case p of
       None \<Rightarrow> Undef
     | Some a \<Rightarrow> (case objs a of None \<Rightarrow> Undef | Some x \<Rightarrow> Ret (a, x)))"

definition empty_heap :: heap where
  "empty_heap = \<lparr>h_maps = (\<lambda>_. None), h_own = (\<lambda>_. None), h_ref = (\<lambda>_. None), h_next = 0\<rparr>"

definition alloc_map :: "MapStorage \<Rightarrow> heap \<Rightarrow> nat \<times> heap" where
  "alloc_map m h = (h_next h, h\<lparr>h_maps := (h_maps h)(h_next h \<mapsto> m), h_next := Suc (h_next h)\<rparr>)"

text \<open>\<open>new OwningReferenceCounter<MapStorage>(p)\<close>, and the variant that allocates its own map.\<close>

definition alloc_own :: "nat \<Rightarrow> heap \<Rightarrow> nat \<times> heap" where
  "alloc_own p h =
     (h_next h, h\<lparr>h_own := (h_own h)(h_next h \<mapsto> ORC_new p), h_next := Suc (h_next h)\<rparr>)"

definition alloc_own_new :: "heap \<Rightarrow> nat \<times> heap" where
  "alloc_own_new h = (let (p, h1) = alloc_map new_MapStorage h in alloc_own p h1)"

definition alloc_ref :: "nat option \<Rightarrow> heap \<Rightarrow> nat \<times> heap" where
  "alloc_ref p h =
     (h_next h, h\<lparr>h_ref := (h_ref h)(h_next h \<mapsto> RC_new p), h_next := Suc (h_next h)\<rparr>)"

section \<open>Construction and destruction\<close>

definition new_Swappable_from :: "MapStorage \<Rightarrow> SwappableMemoryStorage" where
  "new_Swappable_from other =
     (let (p, h0) = alloc_map other empty_heap;
          (a, h1) = alloc_own_new h0;
          (b, h2) = alloc_own p h1;
          (w, h3) = alloc_ref (Some p) h2
      in \<lparr>sw_heap = h3, reader_first = Some a, reader_second = Some b, writer = Some w\<rparr>)"

definition new_Swappable :: SwappableMemoryStorage where
  "new_Swappable =
     (let (a, h1) = alloc_own_new empty_heap;
          (b, h2) = alloc_own_new h1;
          (w, h3) = alloc_ref (case h_own h2 b of None \<Rightarrow> None | Some c \<Rightarrow> ORC_GetUnderlying c) h2
      in \<lparr>sw_heap = h3, reader_first = Some a, reader_second = Some b, writer = Some w\<rparr>)"

text \<open>\<open>delete\<close> of an owning counter destroys its map too; \<open>delete\<close> of a writer only waits.\<close>

definition delete_own :: "nat option \<Rightarrow> heap \<Rightarrow> heap exec" where
  "delete_own p h = exec_bind (deref (h_own h) p) (\<lambda>(a, c).
     exec_bind (ORC_destroy c) (\<lambda>victim.
       let h1 = (case victim of None \<Rightarrow> h | Some m \<Rightarrow> h\<lparr>h_maps := (h_maps h)(m := None)\<rparr>)
       in Ret (h1\<lparr>h_own := (h_own h1)(a := None)\<rparr>)))"

definition delete_ref :: "nat option \<Rightarrow> heap \<Rightarrow> heap exec" where
  "delete_ref p h = exec_bind (deref (h_ref h) p) (\<lambda>(a, c).
     exec_bind (RC_destroy c) (\<lambda>_. Ret (h\<lparr>h_ref := (h_ref h)(a := None)\<rparr>)))"

definition Swappable_move ::
  "SwappableMemoryStorage \<Rightarrow> SwappableMemoryStorage \<times> SwappableMemoryStorage" where
  "Swappable_move other =
     (other, other\<lparr>reader_first := None, reader_second := None, writer := None\<rparr>)"

definition Swappable_destroy :: "SwappableMemoryStorage \<Rightarrow> heap exec" where
  "Swappable_destroy s =
     (let del = (\<lambda>p d h. if p = None then Ret h else d p h) in
      exec_bind (del (reader_first s) delete_own (sw_heap s)) (\<lambda>h1.
      exec_bind (del (reader_second s) delete_own h1) (\<lambda>h2.
        del (writer s) delete_ref h2)))"

text \<open>The assignment replaces the pointers and deletes nothing. A storage of the model carries the heap of its
  objects, so the heap comes with the pointers.\<close>

definition Swappable_move_assign ::
  "SwappableMemoryStorage \<Rightarrow> SwappableMemoryStorage \<Rightarrow> SwappableMemoryStorage \<times> SwappableMemoryStorage" where
  "Swappable_move_assign this other =
     (this\<lparr>sw_heap := sw_heap other, reader_first := reader_first other, reader_second := reader_second other,
        writer := writer other\<rparr>,
      other\<lparr>reader_first := None, reader_second := None, writer := None\<rparr>)"

text \<open>Pointers are all a storage has, so an assigned storage is the moved one; what is left of the source
  owns nothing.\<close>

lemma fst_Swappable_move [simp]: "fst (Swappable_move other) = other"
  by (simp add: Swappable_move_def)

lemma Swappable_move_assign_eq [simp]: "Swappable_move_assign this other = Swappable_move other"
  by (simp add: Swappable_move_assign_def Swappable_move_def)

lemma Swappable_moved_from: "Swappable_destroy (snd (Swappable_move_assign this other)) = Ret (sw_heap other)"
  by (simp add: Swappable_move_def Swappable_destroy_def)

lemma delete_own_other:
  "(if p = None then Ret h else delete_own p h) = Ret h' \<Longrightarrow> p \<noteq> Some a \<Longrightarrow> h_own h' a = h_own h a"
  by (auto simp: delete_own_def deref_def exec_bind_Ret_iff Let_def split: option.splits if_splits)

lemma delete_ref_other: "(if p = None then Ret h else delete_ref p h) = Ret h' \<Longrightarrow> h_own h' = h_own h"
  by (auto simp: delete_ref_def exec_bind_Ret_iff split: if_splits)

text \<open>When both live on one heap, the assignment leaks the counters that it overwrites: the destruction of
  the result does not delete them.\<close>

lemma Swappable_assign_leaks:
  assumes "Swappable_destroy (fst (Swappable_move_assign this other)) = Ret h" "sw_heap other = sw_heap this"
    "reader_first this = Some a" "reader_first other \<noteq> Some a" "reader_second other \<noteq> Some a"
  shows "h_own h a = h_own (sw_heap this) a"
proof -
  obtain h1 h2 where "(if reader_first other = None then Ret (sw_heap this) else delete_own (reader_first other) (sw_heap this)) = Ret h1"
    "(if reader_second other = None then Ret h1 else delete_own (reader_second other) h1) = Ret h2"
    "(if writer other = None then Ret h2 else delete_ref (writer other) h2) = Ret h"
    using assms(1,2) by (auto simp: Swappable_destroy_def Swappable_move_def exec_bind_Ret_iff Let_def)
  then show ?thesis using assms(4,5) delete_own_other delete_ref_other by metis
qed

section \<open>Readers and writers\<close>

text \<open>
  The common shape of the operations: load the counter's address, \<open>Add\<close>, use the map, \<open>Remove\<close>.
\<close>

definition with_reader ::
  "nat option \<Rightarrow> (MapStorage \<Rightarrow> 'r) \<Rightarrow> heap \<Rightarrow> ('r \<times> heap) exec" where
  "with_reader p f h = exec_bind (deref (h_own h) p) (\<lambda>(a, c).
     let (mp, c1) = ORC_Add c; h1 = h\<lparr>h_own := (h_own h)(a \<mapsto> c1)\<rparr> in
     exec_bind (deref (h_maps h1) mp) (\<lambda>(_, m).
     exec_bind (deref (h_own h1) p) (\<lambda>(_, c2).
       Ret (f m, h1\<lparr>h_own := (h_own h1)(a \<mapsto> ORC_Remove c2)\<rparr>))))"

definition with_writer ::
  "nat option \<Rightarrow> (MapStorage \<Rightarrow> 'r \<times> MapStorage) \<Rightarrow> heap \<Rightarrow> ('r \<times> heap) exec" where
  "with_writer p f h = exec_bind (deref (h_ref h) p) (\<lambda>(a, c).
     let (mp, c1) = RC_Add c; h1 = h\<lparr>h_ref := (h_ref h)(a \<mapsto> c1)\<rparr> in
     exec_bind (deref (h_maps h1) mp) (\<lambda>(ma, m).
     let (r, m') = f m; h2 = h1\<lparr>h_maps := (h_maps h1)(ma \<mapsto> m')\<rparr> in
     exec_bind (deref (h_ref h2) p) (\<lambda>(_, c2).
       Ret (r, h2\<lparr>h_ref := (h_ref h2)(a \<mapsto> RC_Remove c2)\<rparr>))))"

definition Swappable_Get ::
  "string \<Rightarrow> SwappableMemoryStorage \<Rightarrow> (Value res \<times> SwappableMemoryStorage) exec" where
  "Swappable_Get key s =
     exec_bind (with_reader (reader_first s) (MapStorage_Get key) (sw_heap s)) (\<lambda>(res, h1).
       if has_value res then Ret (res, s\<lparr>sw_heap := h1\<rparr>)
       else exec_bind (with_reader (reader_second s) (MapStorage_Get key) h1) (\<lambda>(res2, h2).
         Ret (res2, s\<lparr>sw_heap := h2\<rparr>)))"

definition Swappable_Remove ::
  "string \<Rightarrow> u64 \<Rightarrow> SwappableMemoryStorage \<Rightarrow> SwappableMemoryStorage exec" where
  "Swappable_Remove key version s =
     exec_bind (with_writer (writer s) (\<lambda>m. ((), MapStorage_Remove key version m)) (sw_heap s))
       (\<lambda>(_, h1). Ret (s\<lparr>sw_heap := h1\<rparr>))"

definition Swappable_Insert ::
  "KwPair \<Rightarrow> SwappableMemoryStorage \<Rightarrow> SwappableMemoryStorage exec" where
  "Swappable_Insert data s =
     exec_bind (with_writer (writer s) (\<lambda>m. ((), MapStorage_Insert data m)) (sw_heap s))
       (\<lambda>(_, h1). Ret (s\<lparr>sw_heap := h1\<rparr>))"

definition Swappable_Size ::
  "SwappableMemoryStorage \<Rightarrow> (nat \<times> SwappableMemoryStorage) exec" where
  "Swappable_Size s =
     exec_bind (with_writer (writer s) (\<lambda>m. (MapStorage_Size m, m)) (sw_heap s))
       (\<lambda>(n, h1). Ret (n, s\<lparr>sw_heap := h1\<rparr>))"

section \<open>Swapping\<close>

definition SwappableCollect ::
  "SwappableMemoryStorage \<Rightarrow> (StorageEntry list \<times> SwappableMemoryStorage) exec" where
  "SwappableCollect s =
     \<comment> \<open>Step 1\<close>
     exec_bind (deref (h_own (sw_heap s)) (reader_first s)) (\<lambda>(_, c).
     let (w, h1) = alloc_ref (ORC_GetUnderlying c) (sw_heap s) in
     \<comment> \<open>Step 2\<close>
     exec_bind (delete_ref (writer s) h1) (\<lambda>h2.
     let s1 = s\<lparr>sw_heap := h2, writer := Some w\<rparr> in
     \<comment> \<open>Step 3\<close>
     exec_bind (deref (h_own h2) (reader_second s1)) (\<lambda>(_, c2).
     exec_bind (deref (h_maps h2) (ORC_GetUnderlying c2)) (\<lambda>(_, m).
       Ret (ToEntries (MapStorage_GetUnderlying m), s1)))))"

definition RemoveCollected :: "SwappableMemoryStorage \<Rightarrow> SwappableMemoryStorage exec" where
  "RemoveCollected s =
     \<comment> \<open>Step 4\<close>
     (let s1 = s\<lparr>reader_second := reader_first s\<rparr> in
     exec_bind (delete_own (reader_second s) (sw_heap s1)) (\<lambda>h1.
     \<comment> \<open>Step 5\<close>
     let (a, h2) = alloc_own_new h1 in
     Ret (s1\<lparr>sw_heap := h2, reader_first := Some a\<rparr>)))"


section \<open>The abstract storage: two maps and a mode\<close>

text \<open>
  \<open>sw_rep s collecting ma mb\<close>: the object is well formed, its first map is \<open>ma\<close>, its second map
  \<open>mb\<close>, nobody holds a counter, and the writer aliases the second map, or the first one while
  collected data are being persisted. Outside a collection the first map is empty.
\<close>

definition sw_rep :: "SwappableMemoryStorage \<Rightarrow> bool \<Rightarrow> MapStorage \<Rightarrow> MapStorage \<Rightarrow> bool" where
  "sw_rep s collecting ma mb \<longleftrightarrow> (\<exists>a b w pa pb.
     reader_first s = Some a \<and> reader_second s = Some b \<and> writer s = Some w \<and>
     a \<noteq> b \<and> pa \<noteq> pb \<and>
     h_own (sw_heap s) a = Some (ORC_new pa) \<and> h_own (sw_heap s) b = Some (ORC_new pb) \<and>
     h_ref (sw_heap s) w = Some (RC_new (Some (if collecting then pa else pb))) \<and>
     h_maps (sw_heap s) pa = Some ma \<and> h_maps (sw_heap s) pb = Some mb \<and>
     ms_inv ma \<and> ms_inv mb \<and> (\<not> collecting \<longrightarrow> ms_view ma = Map.empty) \<and>
     a < h_next (sw_heap s) \<and> b < h_next (sw_heap s) \<and> w < h_next (sw_heap s) \<and>
     pa < h_next (sw_heap s) \<and> pb < h_next (sw_heap s))"

definition sw_inv :: "SwappableMemoryStorage \<Rightarrow> bool" where
  "sw_inv s \<longleftrightarrow> (\<exists>c ma mb. sw_rep s c ma mb)"

text \<open>What a reader sees: the first map before the second.\<close>

definition reader_map :: "heap \<Rightarrow> nat option \<Rightarrow> MapStorage option" where
  "reader_map h p = (case p of None \<Rightarrow> None | Some a \<Rightarrow>
     (case h_own h a of None \<Rightarrow> None | Some c \<Rightarrow>
       (case orc_ptr c of None \<Rightarrow> None | Some m \<Rightarrow> h_maps h m)))"

definition opt_view :: "MapStorage option \<Rightarrow> string \<Rightarrow> Value option" where
  "opt_view m = (case m of None \<Rightarrow> Map.empty | Some m \<Rightarrow> ms_view m)"

definition sw_view :: "SwappableMemoryStorage \<Rightarrow> string \<Rightarrow> Value option" where
  "sw_view s = opt_view (reader_map (sw_heap s) (reader_second s)) ++
     opt_view (reader_map (sw_heap s) (reader_first s))"

lemma sw_view_rep: "sw_rep s c ma mb \<Longrightarrow> sw_view s = ms_view mb ++ ms_view ma"
  by (auto simp: sw_rep_def sw_view_def reader_map_def opt_view_def ORC_new_def)

lemmas counter_defs = ORC_new_def ORC_Add_def ORC_Remove_def ORC_GetUnderlying_def
  ORC_destroy_def ORC_Wait_def RC_new_def RC_Add_def RC_Remove_def RC_GetUnderlying_def
  RC_destroy_def RC_Wait_def

lemma with_reader_eq:
  "p = Some a \<Longrightarrow> h_own h a = Some (ORC_new q) \<Longrightarrow> h_maps h q = Some m \<Longrightarrow>
   with_reader p f h = Ret (f m, h)"
  by (simp add: with_reader_def deref_def counter_defs fun_upd_idem)

lemma with_writer_eq:
  "p = Some w \<Longrightarrow> h_ref h w = Some (RC_new (Some q)) \<Longrightarrow> h_maps h q = Some m \<Longrightarrow>
   with_writer p f h = Ret (fst (f m), h\<lparr>h_maps := (h_maps h)(q \<mapsto> snd (f m))\<rparr>)"
  by (simp add: with_writer_def deref_def counter_defs fun_upd_idem case_prod_beta Let_def)

lemma rep_Get:
  assumes "sw_rep s c ma mb"
  shows "Swappable_Get k s = Ret (case (ms_view mb ++ ms_view ma) k of
      None \<Rightarrow> Inl (MakeError kNotFound (kNotFound_msg k)) | Some v \<Rightarrow> Inr v, s)"
proof -
  from assms obtain a b pa pb where
    p: "reader_first s = Some a" "reader_second s = Some b"
    and o: "h_own (sw_heap s) a = Some (ORC_new pa)" "h_own (sw_heap s) b = Some (ORC_new pb)"
    and m: "h_maps (sw_heap s) pa = Some ma" "h_maps (sw_heap s) pb = Some mb"
    by (auto simp: sw_rep_def)
  show ?thesis
    unfolding Swappable_Get_def
      with_reader_eq [OF p(1) o(1) m(1)] with_reader_eq [OF p(2) o(2) m(2)] exec_bind.simps
    by (simp add: with_reader_eq [OF p(2) o(2) m(2)] MapStorage_Get_view map_add_def
        split: option.splits)
qed

lemma Swappable_Get_view:
  "sw_inv s \<Longrightarrow> Swappable_Get k s = Ret (case sw_view s k of
      None \<Rightarrow> Inl (MakeError kNotFound (kNotFound_msg k)) | Some v \<Rightarrow> Inr v, s)"
  unfolding sw_inv_def by (elim exE) (simp only: rep_Get sw_view_rep)

text \<open>A write goes to the first map while collecting and to the second map otherwise.\<close>

lemma rep_write:
  assumes "sw_rep s c ma mb" and f: "\<And>m. ms_inv m \<Longrightarrow> ms_inv (snd (f m))"
  shows "\<exists>s'. exec_bind (with_writer (writer s) f (sw_heap s)) (\<lambda>(r, h1). Ret (r, s\<lparr>sw_heap := h1\<rparr>)) =
      Ret (fst (f (if c then ma else mb)), s') \<and>
    sw_rep s' c (if c then snd (f ma) else ma) (if c then mb else snd (f mb))"
proof -
  from assms(1) obtain a b w pa pb where
    p: "reader_first s = Some a" "reader_second s = Some b" "writer s = Some w" "a \<noteq> b" "pa \<noteq> pb"
    and o: "h_own (sw_heap s) a = Some (ORC_new pa)" "h_own (sw_heap s) b = Some (ORC_new pb)"
    and w: "h_ref (sw_heap s) w = Some (RC_new (Some (if c then pa else pb)))"
    and m: "h_maps (sw_heap s) pa = Some ma" "h_maps (sw_heap s) pb = Some mb"
    and i: "ms_inv ma" "ms_inv mb" "\<not> c \<longrightarrow> ms_view ma = Map.empty"
    and b: "a < h_next (sw_heap s)" "b < h_next (sw_heap s)" "w < h_next (sw_heap s)"
      "pa < h_next (sw_heap s)" "pb < h_next (sw_heap s)"
    unfolding sw_rep_def by blast
  let ?q = "if c then pa else pb" and ?m = "if c then ma else mb"
  let ?h = "(sw_heap s)\<lparr>h_maps := (h_maps (sw_heap s))(?q \<mapsto> snd (f ?m))\<rparr>"
  have "h_maps (sw_heap s) ?q = Some ?m" using m by simp
  note eq = with_writer_eq [OF p(3) w this, of f]
  have "sw_rep (s\<lparr>sw_heap := ?h\<rparr>) c (if c then snd (f ma) else ma) (if c then mb else snd (f mb))"
    unfolding sw_rep_def
    by (rule exI [of _ a], rule exI [of _ b], rule exI [of _ w], rule exI [of _ pa],
        rule exI [of _ pb]) (use p o w m i b f in auto)
  then show ?thesis unfolding eq by auto
qed

lemma rep_Insert:
  assumes "sw_rep s c ma mb"
  shows "\<exists>s'. Swappable_Insert p s = Ret s' \<and>
    sw_rep s' c (if c then MapStorage_Insert p ma else ma) (if c then mb else MapStorage_Insert p mb)"
  using rep_write [OF assms, of "\<lambda>m. ((), MapStorage_Insert p m)"]
  by (auto simp: Swappable_Insert_def exec_bind_Ret_iff case_prod_beta)

lemma rep_Remove:
  assumes "sw_rep s c ma mb"
  shows "\<exists>s'. Swappable_Remove k v s = Ret s' \<and>
    sw_rep s' c (if c then MapStorage_Remove k v ma else ma)
      (if c then mb else MapStorage_Remove k v mb)"
  using rep_write [OF assms, of "\<lambda>m. ((), MapStorage_Remove k v m)"]
  by (auto simp: Swappable_Remove_def exec_bind_Ret_iff case_prod_beta)

lemma rep_Size:
  assumes "sw_rep s c ma mb"
  shows "\<exists>s'. Swappable_Size s = Ret (MapStorage_Size (if c then ma else mb), s') \<and>
    sw_rep s' c ma mb"
  using rep_write [OF assms, of "\<lambda>m. (MapStorage_Size m, m)"]
  by (auto simp: Swappable_Size_def split: if_splits)


lemma rep_new_from: "ms_inv m \<Longrightarrow> sw_rep (new_Swappable_from m) False new_MapStorage m"
  unfolding sw_rep_def
  by (rule exI [of _ 2], rule exI [of _ 3], rule exI [of _ 4], rule exI [of _ 1],
      rule exI [of _ 0]) (simp add: new_Swappable_from_def Let_def alloc_map_def
      alloc_own_new_def alloc_own_def alloc_ref_def empty_heap_def)

lemma rep_new: "sw_rep new_Swappable False new_MapStorage new_MapStorage"
  unfolding sw_rep_def
  by (rule exI [of _ 1], rule exI [of _ 3], rule exI [of _ 4], rule exI [of _ 0],
      rule exI [of _ 2]) (simp add: new_Swappable_def Let_def alloc_map_def alloc_own_new_def
      alloc_own_def alloc_ref_def empty_heap_def ORC_GetUnderlying_def ORC_new_def)

text \<open>
  Collecting redirects the writer to the first map and copies the second; removing what was
  collected makes the first map the second and puts a fresh empty map in front.
\<close>

lemma rep_Collect:
  assumes "sw_rep s c ma mb"
  shows "\<exists>s'. SwappableCollect s = Ret (ToEntries (ms_map mb), s') \<and> sw_rep s' True ma mb"
proof -
  from assms obtain a b w pa pb where
    p: "reader_first s = Some a" "reader_second s = Some b" "writer s = Some w" "a \<noteq> b" "pa \<noteq> pb"
    and o: "h_own (sw_heap s) a = Some (ORC_new pa)" "h_own (sw_heap s) b = Some (ORC_new pb)"
    and w: "h_ref (sw_heap s) w = Some (RC_new (Some (if c then pa else pb)))"
    and m: "h_maps (sw_heap s) pa = Some ma" "h_maps (sw_heap s) pb = Some mb"
    and i: "ms_inv ma" "ms_inv mb"
    and b: "a < h_next (sw_heap s)" "b < h_next (sw_heap s)" "w < h_next (sw_heap s)"
      "pa < h_next (sw_heap s)" "pb < h_next (sw_heap s)"
    unfolding sw_rep_def by blast
  let ?n = "h_next (sw_heap s)"
  let ?h = "(sw_heap s)\<lparr>h_ref := (h_ref (sw_heap s))(?n \<mapsto> RC_new (Some pa), w := None),
    h_next := Suc ?n\<rparr>"
  let ?s = "s\<lparr>sw_heap := ?h, writer := Some ?n\<rparr>"
  have "SwappableCollect s = Ret (ToEntries (ms_map mb), ?s)"
    using p o w m b
    by (cases c) (simp_all add: SwappableCollect_def deref_def alloc_ref_def delete_ref_def counter_defs
        MapStorage_GetUnderlying_def Let_def)
  moreover have "sw_rep ?s True ma mb"
    unfolding sw_rep_def
    by (rule exI [of _ a], rule exI [of _ b], rule exI [of _ ?n], rule exI [of _ pa],
        rule exI [of _ pb]) (use p o w m i b in auto)
  ultimately show ?thesis by blast
qed

lemma rep_RemoveCollected:
  assumes "sw_rep s True ma mb"
  shows "\<exists>s'. RemoveCollected s = Ret s' \<and> sw_rep s' False new_MapStorage ma"
proof -
  from assms obtain a b w pa pb where
    p: "reader_first s = Some a" "reader_second s = Some b" "writer s = Some w" "a \<noteq> b" "pa \<noteq> pb"
    and o: "h_own (sw_heap s) a = Some (ORC_new pa)" "h_own (sw_heap s) b = Some (ORC_new pb)"
    and w: "h_ref (sw_heap s) w = Some (RC_new (Some pa))"
    and m: "h_maps (sw_heap s) pa = Some ma" "h_maps (sw_heap s) pb = Some mb"
    and i: "ms_inv ma" "ms_inv mb"
    and b: "a < h_next (sw_heap s)" "b < h_next (sw_heap s)" "w < h_next (sw_heap s)"
      "pa < h_next (sw_heap s)" "pb < h_next (sw_heap s)"
    unfolding sw_rep_def by auto
  let ?n = "h_next (sw_heap s)"
  let ?h = "(sw_heap s)\<lparr>h_maps := (h_maps (sw_heap s))(pb := None, ?n \<mapsto> new_MapStorage),
    h_own := (h_own (sw_heap s))(b := None, Suc ?n \<mapsto> ORC_new ?n), h_next := Suc (Suc ?n)\<rparr>"
  let ?s = "s\<lparr>sw_heap := ?h, reader_second := Some a, reader_first := Some (Suc ?n)\<rparr>"
  have "RemoveCollected s = Ret ?s"
    using p o m
    by (simp add: RemoveCollected_def delete_own_def deref_def counter_defs alloc_own_new_def
        alloc_map_def alloc_own_def Let_def)
  moreover have "sw_rep ?s False new_MapStorage ma"
    unfolding sw_rep_def
    by (rule exI [of _ "Suc ?n"], rule exI [of _ a], rule exI [of _ w], rule exI [of _ ?n],
        rule exI [of _ pa]) (use p o w m i b in auto)
  ultimately show ?thesis by blast
qed

lemma rep_destroy:
  assumes "sw_rep s c ma mb"
  shows "\<exists>h. Swappable_destroy s = Ret h"
proof -
  from assms obtain a b w pa pb q where
    "reader_first s = Some a" "reader_second s = Some b" "writer s = Some w" "a \<noteq> b"
    "h_own (sw_heap s) a = Some (ORC_new pa)" "h_own (sw_heap s) b = Some (ORC_new pb)"
    "h_ref (sw_heap s) w = Some (RC_new (Some q))"
    unfolding sw_rep_def by blast
  then show ?thesis
    by (simp add: Swappable_destroy_def delete_own_def delete_ref_def deref_def counter_defs Let_def)
qed

section \<open>The KwStorage and CollectableStorage interfaces\<close>

text \<open>
  \<open>CollectableStorage\<close> adds to \<open>KwStorage\<close>: outside a collection (\<open>idle\<close>) \<open>Collect\<close> returns
  the whole contents and starts one; \<open>RemoveCollected\<close> forgets exactly what was there when the
  collection started, so the writes made since then (\<open>recent\<close>) are what is left.
\<close>

locale collectable_storage = kw_storage +
  fixes collect :: "'s \<Rightarrow> (StorageEntry list \<times> 's) exec"
    and remove_collected :: "'s \<Rightarrow> 's exec"
    and idle :: "'s \<Rightarrow> bool"
    and recent :: "'s \<Rightarrow> string \<Rightarrow> Value option"
    and base :: "'s \<Rightarrow> string \<Rightarrow> Value option"
  assumes view_split: "inv s \<Longrightarrow> view s = base s ++ recent s"
    and idle_recent: "inv s \<Longrightarrow> idle s \<Longrightarrow> recent s = Map.empty"
    and collect_law: "inv s \<Longrightarrow> \<exists>es s'. collect s = Ret (es, s') \<and> inv s' \<and> \<not> idle s' \<and>
      entries_view es = base s \<and> distinct (map se_key es) \<and> base s' = base s \<and> recent s' = recent s"
    and remove_collected_law: "inv s \<Longrightarrow> \<not> idle s \<Longrightarrow> \<exists>s'. remove_collected s = Ret s' \<and> inv s' \<and>
      idle s' \<and> view s' = recent s"
    and insert_mode: "inv s \<Longrightarrow> insert p s = Ret s' \<Longrightarrow> idle s' = idle s \<and> (\<not> idle s \<longrightarrow>
      base s' = base s \<and>
      recent s' = (recent s)(kw_key p \<mapsto> \<lparr>val_value = Some (kw_value p), val_version = kw_version p\<rparr>))"
    and remove_mode: "inv s \<Longrightarrow> remove k ver s = Ret s' \<Longrightarrow> idle s' = idle s \<and> (\<not> idle s \<longrightarrow>
      base s' = base s \<and> recent s' = (recent s)(k \<mapsto> \<lparr>val_value = None, val_version = ver\<rparr>))"
begin

lemma collect_idle:
  assumes "inv s" "idle s"
  shows "\<exists>es s'. collect s = Ret (es, s') \<and> inv s' \<and> \<not> idle s' \<and> entries_view es = view s \<and>
    distinct (map se_key es) \<and> view s' = view s \<and> base s' = view s \<and> recent s' = Map.empty"
proof -
  from collect_law [OF assms(1)] obtain es s' where c: "collect s = Ret (es, s')" "inv s'" "\<not> idle s'"
    "entries_view es = base s" "distinct (map se_key es)" "base s' = base s" "recent s' = recent s" by blast
  have "view s = base s" "view s' = base s'" "recent s = Map.empty"
    using idle_recent [OF assms] view_split [OF assms(1)] view_split [OF c(2)] c(7) by simp_all
  then show ?thesis using c by auto
qed

text \<open>A key written while a collection runs survives it; every other key leaves with it.\<close>

lemma insert_during_collection:
  assumes "inv s" "\<not> idle s"
  shows "\<exists>s1 s2. insert p s = Ret s1 \<and> remove_collected s1 = Ret s2 \<and>
    view s2 = (recent s)(kw_key p \<mapsto> \<lparr>val_value = Some (kw_value p), val_version = kw_version p\<rparr>)"
proof -
  from insert_law [OF assms(1), of p] obtain s1 where s1: "insert p s = Ret s1" "inv s1" by blast
  note m = insert_mode [OF assms(1) s1(1)]
  with assms(2) remove_collected_law [OF s1(2)] obtain s2 where
    "remove_collected s1 = Ret s2" "view s2 = recent s1" by blast
  with s1 m assms(2) show ?thesis by auto
qed

end

definition sw_idle :: "SwappableMemoryStorage \<Rightarrow> bool" where
  "sw_idle s \<longleftrightarrow> (\<exists>ma mb. sw_rep s False ma mb)"

definition sw_recent :: "SwappableMemoryStorage \<Rightarrow> string \<Rightarrow> Value option" where
  "sw_recent s = opt_view (reader_map (sw_heap s) (reader_first s))"

definition sw_base :: "SwappableMemoryStorage \<Rightarrow> string \<Rightarrow> Value option" where
  "sw_base s = opt_view (reader_map (sw_heap s) (reader_second s))"

lemma rep_recent: "sw_rep s c ma mb \<Longrightarrow> sw_recent s = ms_view ma"
  by (auto simp: sw_rep_def sw_recent_def reader_map_def opt_view_def ORC_new_def)

lemma rep_base: "sw_rep s c ma mb \<Longrightarrow> sw_base s = ms_view mb"
  by (auto simp: sw_rep_def sw_base_def reader_map_def opt_view_def ORC_new_def)

lemma rep_mode: "sw_rep s c ma mb \<Longrightarrow> sw_rep s c' ma' mb' \<Longrightarrow> c' = c"
  by (auto simp: sw_rep_def split: if_splits)

lemma rep_idle: "sw_rep s c ma mb \<Longrightarrow> sw_idle s \<longleftrightarrow> \<not> c"
  unfolding sw_idle_def using rep_mode [of s c ma mb False] by (cases c) auto

lemma rep_idle_empty: "sw_rep s False ma mb \<Longrightarrow> ms_view ma = Map.empty"
  by (auto simp: sw_rep_def)

lemma rep_inv: "sw_rep s c ma mb \<Longrightarrow> sw_inv s"
  by (auto simp: sw_inv_def)

lemmas rep_abs = sw_view_rep rep_recent rep_base rep_idle rep_inv

interpretation sw: collectable_storage Swappable_Get Swappable_Remove Swappable_Insert sw_view
  sw_inv SwappableCollect RemoveCollected sw_idle sw_recent sw_base
proof unfold_locales
  fix s k assume "sw_inv s"
  then obtain c ma mb where r: "sw_rep s c ma mb" by (auto simp: sw_inv_def)
  note abs = rep_abs [OF r]
  show "\<exists>s'. Swappable_Get k s = Ret (Inr v, s') \<and> sw_inv s' \<and> sw_view s' = sw_view s"
    if "sw_view s k = Some v" for v
    using that Swappable_Get_view [OF \<open>sw_inv s\<close>] \<open>sw_inv s\<close> by simp
  show "\<exists>e s'. Swappable_Get k s = Ret (Inl e, s') \<and> Wraps e kNotFound \<and> sw_inv s' \<and>
      sw_view s' = sw_view s" if "sw_view s k = None"
    using that Swappable_Get_view [OF \<open>sw_inv s\<close>] \<open>sw_inv s\<close> by simp
  show "\<exists>s'. Swappable_Remove k ver s = Ret s' \<and> sw_inv s' \<and>
      sw_view s' = (sw_view s)(k \<mapsto> \<lparr>val_value = None, val_version = ver\<rparr>)" for ver
    using rep_Remove [OF r, of k ver] abs rep_idle_empty r
    by (cases c) (fastforce simp: rep_abs view_simps)+
  show "sw_view s = sw_base s ++ sw_recent s" using abs by simp
next
  fix s p assume "sw_inv s"
  then obtain c ma mb where r: "sw_rep s c ma mb" by (auto simp: sw_inv_def)
  note abs = rep_abs [OF r]
  show "\<exists>s'. Swappable_Insert p s = Ret s' \<and> sw_inv s' \<and> sw_view s' =
      (sw_view s)(kw_key p \<mapsto> \<lparr>val_value = Some (kw_value p), val_version = kw_version p\<rparr>)"
    using rep_Insert [OF r, of p] abs rep_idle_empty r
    by (cases c) (fastforce simp: rep_abs view_simps)+
  show "sw_idle s' = sw_idle s \<and> (\<not> sw_idle s \<longrightarrow> sw_base s' = sw_base s \<and> sw_recent s' =
      (sw_recent s)(kw_key p \<mapsto> \<lparr>val_value = Some (kw_value p), val_version = kw_version p\<rparr>))"
    if "Swappable_Insert p s = Ret s'" for s'
    using rep_Insert [OF r, of p] abs that by (cases c) (auto simp: rep_abs view_simps)
next
  fix s k ver s' assume "sw_inv s" and e: "Swappable_Remove k ver s = Ret s'"
  then obtain c ma mb where r: "sw_rep s c ma mb" by (auto simp: sw_inv_def)
  show "sw_idle s' = sw_idle s \<and> (\<not> sw_idle s \<longrightarrow> sw_base s' = sw_base s \<and> sw_recent s' =
      (sw_recent s)(k \<mapsto> \<lparr>val_value = None, val_version = ver\<rparr>))"
    using rep_Remove [OF r, of k ver] rep_abs [OF r] e by (cases c) (auto simp: rep_abs view_simps)
next
  fix s assume "sw_inv s"
  then obtain c ma mb where r: "sw_rep s c ma mb" by (auto simp: sw_inv_def)
  then have "ms_inv mb" by (auto simp: sw_rep_def)
  then show "\<exists>es s'. SwappableCollect s = Ret (es, s') \<and> sw_inv s' \<and> \<not> sw_idle s' \<and>
      entries_view es = sw_base s \<and> distinct (map se_key es) \<and> sw_base s' = sw_base s \<and>
      sw_recent s' = sw_recent s"
    using rep_Collect [OF r] rep_abs [OF r]
    by (auto simp: rep_abs entries_view_ToEntries keys_ToEntries ms_inv_def ms_view_def)
  show "sw_recent s = Map.empty" if "sw_idle s"
    using that rep_idle_empty rep_recent by (auto simp: sw_idle_def)
next
  fix s assume "sw_inv s" "\<not> sw_idle s"
  then obtain ma mb where r: "sw_rep s True ma mb"
    by (auto simp: sw_inv_def sw_idle_def) (metis (full_types))
  then show "\<exists>s'. RemoveCollected s = Ret s' \<and> sw_inv s' \<and> sw_idle s' \<and> sw_view s' = sw_recent s"
    using rep_RemoveCollected [OF r] rep_abs [OF r] by (fastforce simp: rep_abs)
qed

text \<open>Writers that are between \<open>Add\<close> and \<open>Remove\<close> on the current writer's counter.\<close>

definition writer_users :: "nat \<Rightarrow> SwappableMemoryStorage \<Rightarrow> SwappableMemoryStorage" where
  "writer_users n s = (case writer s of None \<Rightarrow> s
     | Some w \<Rightarrow> s\<lparr>sw_heap := (sw_heap s)\<lparr>h_ref := (h_ref (sw_heap s))
         (w := map_option (rc.nested n) (h_ref (sw_heap s) w))\<rparr>\<rparr>)"

lemma Collect_writer_users:
  assumes "sw_inv s" "0 < n" "n < 2 ^ 32"
  shows "SwappableCollect (writer_users n s) = Hang"
proof -
  from assms(1) obtain c ma mb where "sw_rep s c ma mb" by (auto simp: sw_inv_def)
  then obtain a w q p where r: "reader_first s = Some a" "writer s = Some w" "w < h_next (sw_heap s)"
    "h_own (sw_heap s) a = Some (ORC_new q)" "h_ref (sw_heap s) w = Some (RC_new (Some p))"
    unfolding sw_rep_def by blast
  have "RC_Wait (rc.nested n (RC_new (Some p))) = Hang"
    using rc.wait_nested [of "RC_new (Some p)" n] assms(2,3) by (simp add: RC_new_def)
  moreover have "rc_ptr (rc.nested n (RC_new (Some p))) = Some p"
    by (simp add: rc.ptr_nested RC_new_def)
  ultimately show ?thesis
    using r by (simp add: writer_users_def SwappableCollect_def deref_def alloc_ref_def delete_ref_def
        RC_destroy_def ORC_GetUnderlying_def)
qed

lemma writer_users_0 [simp]: "writer_users 0 s = s"
proof -
  have [simp]: "map_option (rc.nested 0) x = x" for x by (cases x) simp_all
  show ?thesis by (cases "writer s") (simp_all add: writer_users_def)
qed

end
