(* ===== verification/Wal.thy ===== *)
theory Wal
  imports Filesystem Memstorage Codec
begin

text \<open>
  The write-ahead log: the writer of one log file (\<open>wal_writer_impl.hpp\<close>, \<open>wal_writer.cpp\<close>), the
  writer that can be switched to a new file (\<open>swappable_wal_writer_impl.hpp\<close>,
  \<open>swappable_wal_writer.cpp\<close>) and the reader (\<open>ReadWAL\<close> of \<open>wal_reader.cpp\<close>). The abstract
  classes \<open>WALWriter\<close> and \<open>SwappableWalWriter\<close> are locales over the list of operations that the
  log holds. The strand runs one call at a time, so each call is one step.
\<close>

section \<open>WALWriterImpl\<close>

record WALWriterImpl =
  wal_path :: path
  wal_f :: ofstream

definition kFailedToCreateWAL :: string where
  "kFailedToCreateWAL = ''failed to create WAL''"

text \<open>The flush comes after the check of the write has been made: its failure goes unnoticed.\<close>

definition WALWriterImpl_WriteEntry ::
  "codecs \<Rightarrow> WEntry \<Rightarrow> WALWriterImpl \<Rightarrow> fs \<Rightarrow> unit res \<times> WALWriterImpl \<times> fs" where
  "WALWriterImpl_WriteEntry cs entry w fs =
     (let (is_ok, f1, fs1) = os_write (d_ser (c_wal cs) entry) (wal_f w) fs;
          (f2, fs2) = os_flush f1 fs1 in
      (if \<not> is_ok then Inl (MakeError kUnknown ''failed to write log entry'') else Inr (),
       w\<lparr>wal_f := f2\<rparr>, fs2))"

definition WALWriterImpl_GetPath :: "WALWriterImpl \<Rightarrow> path" where
  "WALWriterImpl_GetPath w = wal_path w"

definition NewWALWriter :: "fs \<Rightarrow> WALWriterImpl res \<times> fs" where
  "NewWALWriter fs =
     (let (path, fs1) = GetPath ''wal'' fs in
      case CreateBinaryFile path om_out fs1 of
        (Inl e, fs2) \<Rightarrow> (Inl (WrapError e kUnknown kFailedToCreateWAL), fs2)
      | (Inr f, fs2) \<Rightarrow> (Inr \<lparr>wal_path = path, wal_f = f\<rparr>, fs2))"

definition LoadWALWriter :: "path \<Rightarrow> nat \<Rightarrow> fs \<Rightarrow> WALWriterImpl res \<times> fs" where
  "LoadWALWriter path seek fs =
     (case CreateBinaryFile path om_in fs of
        (Inl e, fs1) \<Rightarrow> (Inl (WrapError e kUnknown kFailedToCreateWAL), fs1)
      | (Inr f, fs1) \<Rightarrow>
          (let (f1, fs2) = seekp seek f fs1 in (Inr \<lparr>wal_path = path, wal_f = f1\<rparr>, fs2)))"

section \<open>SwappableWalWriterImpl\<close>

record SwappableWalWriterImpl =
  sww_writer :: WALWriterImpl

definition NewSwappableWalWriter :: "fs \<Rightarrow> SwappableWalWriterImpl res \<times> fs" where
  "NewSwappableWalWriter fs =
     (case NewWALWriter fs of
        (Inl e, fs1) \<Rightarrow> (Inl (WrapError e kUnknown ''failed to create wal file''), fs1)
      | (Inr w, fs1) \<Rightarrow> (Inr \<lparr>sww_writer = w\<rparr>, fs1))"

definition LoadSwappableWalWriter :: "path \<Rightarrow> nat \<Rightarrow> fs \<Rightarrow> SwappableWalWriterImpl res \<times> fs" where
  "LoadSwappableWalWriter path seek fs =
     (case LoadWALWriter path seek fs of
        (Inl e, fs1) \<Rightarrow> (Inl (WrapError e kUnknown ''failed to create wal file''), fs1)
      | (Inr w, fs1) \<Rightarrow> (Inr \<lparr>sww_writer = w\<rparr>, fs1))"

definition Wal_WriteEntry ::
  "codecs \<Rightarrow> WEntry \<Rightarrow> SwappableWalWriterImpl \<times> fs \<Rightarrow> unit res \<times> SwappableWalWriterImpl \<times> fs" where
  "Wal_WriteEntry cs entry s =
     (let (r, w1, fs1) = WALWriterImpl_WriteEntry cs entry (sww_writer (fst s)) (snd s) in
      (r, (fst s)\<lparr>sww_writer := w1\<rparr>, fs1))"

definition Wal_Remove ::
  "codecs \<Rightarrow> string \<Rightarrow> u64 \<Rightarrow> SwappableWalWriterImpl \<times> fs \<Rightarrow> unit res \<times> SwappableWalWriterImpl \<times> fs" where
  "Wal_Remove cs key version s =
     Wal_WriteEntry cs (WRemoveOp \<lparr>wr_key = Some key, wr_version = Some version\<rparr>) s"

definition Wal_Insert ::
  "codecs \<Rightarrow> KwPair \<Rightarrow> SwappableWalWriterImpl \<times> fs \<Rightarrow> unit res \<times> SwappableWalWriterImpl \<times> fs" where
  "Wal_Insert cs data s =
     Wal_WriteEntry cs (WInsertOp \<lparr>wi_key = Some (kw_key data), wi_value = Some (kw_value data),
       wi_version = Some (kw_version data)\<rparr>) s"

text \<open>
  \<open>Swap\<close> returns a callback that deletes the old file; the callback is the path it captured. The
  old writer is destroyed, which flushes its stream.
\<close>

definition Wal_Swap ::
  "SwappableWalWriterImpl \<times> fs \<Rightarrow> path res \<times> SwappableWalWriterImpl \<times> fs" where
  "Wal_Swap s =
     (case NewWALWriter (snd s) of
        (Inl e, fs1) \<Rightarrow> (Inl (WrapError e kUnknown ''failed to create new WAL file''), fst s, fs1)
      | (Inr new_writer, fs1) \<Rightarrow>
          let path = WALWriterImpl_GetPath (sww_writer (fst s));
              (_, fs2) = os_flush (wal_f (sww_writer (fst s))) fs1 in
          (Inr path, (fst s)\<lparr>sww_writer := new_writer\<rparr>, fs2))"

definition RemoveWalCallback :: "path \<Rightarrow> fs \<Rightarrow> fs" where
  "RemoveWalCallback path fs = fs_remove_ec path fs"

definition Wal_GetPath :: "SwappableWalWriterImpl \<Rightarrow> path" where
  "Wal_GetPath w = WALWriterImpl_GetPath (sww_writer w)"

section \<open>Reading a log\<close>

datatype OperationType = kInsert | kRemove

fun ToString :: "OperationType \<Rightarrow> string" where
  "ToString kInsert = ''insert''"
| "ToString kRemove = ''remove''"

record Operation =
  op_type :: OperationType
  op_key :: string
  op_value :: "string option"
  op_version :: u64

text \<open>An entry with neither operation set is logged and skipped.\<close>

definition operations_of :: "WEntry \<Rightarrow> Operation list" where
  "operations_of entry = (case entry of
       WInsertOp i \<Rightarrow> [\<lparr>op_type = kInsert, op_key = get_string (wi_key i),
         op_value = Some (get_string (wi_value i)), op_version = get_u64 (wi_version i)\<rparr>]
     | WRemoveOp r \<Rightarrow> [\<lparr>op_type = kRemove, op_key = get_string (wr_key r),
         op_value = None, op_version = get_u64 (wr_version r)\<rparr>]
     | WNotSet \<Rightarrow> [])"

text \<open>
  The loop of \<open>ReadWAL\<close> on the bytes that are left; \<open>last_valid\<close> counts the bytes consumed. How far
  a message reaches is up to the parser, so nothing but the parser's contract makes the loop end.
\<close>

partial_function (option) read_loop ::
  "codecs \<Rightarrow> bytes \<Rightarrow> nat \<Rightarrow> Operation list \<Rightarrow> (Operation list \<times> nat) option" where
  "read_loop cs bs last_valid result =
     (case d_parse (c_wal cs) bs of
        Eof \<Rightarrow> Some (result, last_valid)
      | Bad \<Rightarrow> Some (result, last_valid)
      | Msg entry n \<Rightarrow> read_loop cs (drop n bs) (last_valid + n) (result @ operations_of entry))"

definition ReadWAL :: "codecs \<Rightarrow> path \<Rightarrow> fs \<Rightarrow> (Operation list \<times> nat) res exec \<times> fs" where
  "ReadWAL cs path fs =
     (case OpenBinaryFD path fs of
        (Inl e, fs1) \<Rightarrow> (Ret (Inl (WrapError e kUnknown ''failed to open WAL file'')), fs1)
      | (Inr f, fs1) \<Rightarrow>
          (case read_loop cs (fs_data fs1 f) 0 [] of
             None \<Rightarrow> (Hang, fs1)
           | Some r \<Rightarrow> (Ret (Inr r), fs1)))"

section \<open>Reading back what was written\<close>

text \<open>
  A log is its entries followed by a tail that does not parse: nothing, or what a write that was
  cut short left behind. The reader returns the operations of the entries and where the tail is.
\<close>

lemma read_loop_entries:
  assumes "delimited_ok (c_wal cs)" "d_parse (c_wal cs) tail = Eof \<or> d_parse (c_wal cs) tail = Bad"
  shows "read_loop cs (ser_all (c_wal cs) es @ tail) n ops =
    Some (ops @ concat (map operations_of es), n + length (ser_all (c_wal cs) es))"
proof (induction es arbitrary: n ops)
  case Nil
  then show ?case using assms(2) by (subst read_loop.simps) auto
next
  case (Cons e es)
  have "d_parse (c_wal cs) (ser_all (c_wal cs) (e # es) @ tail) = Msg e (length (d_ser (c_wal cs) e))"
    using delimited_parse_ser [OF assms(1)] by simp
  then show ?case
    using Cons.IH by (subst read_loop.simps) (simp add: add.assoc)
qed

lemma ReadWAL_entries:
  assumes "codecs_ok cs" "fs_ok fs" "read_file fs p = Some (ser_all (c_wal cs) es @ tail)"
    "d_parse (c_wal cs) tail = Eof \<or> d_parse (c_wal cs) tail = Bad"
  shows "ReadWAL cs p fs =
    (Ret (Inr (concat (map operations_of es), length (ser_all (c_wal cs) es))), tick fs)"
proof -
  from assms(3) obtain i where "map_of (fs_dir fs) p = Some i"
    "fs_data fs i = ser_all (c_wal cs) es @ tail" by (auto simp: read_file_def)
  then show ?thesis
    using read_loop_entries [OF codecs_okD(1) [OF assms(1)] assms(4), of es 0 "[]"] assms(2)
    by (simp add: ReadWAL_def OpenBinaryFD_ok)
qed

text \<open>A log whose last entry was cut anywhere inside it loses that entry and no other.\<close>

lemma ReadWAL_torn:
  assumes "codecs_ok cs" "fs_ok fs" "strict_prefix part (d_ser (c_wal cs) e)"
    "read_file fs p = Some (ser_all (c_wal cs) es @ part)"
  shows "ReadWAL cs p fs =
    (Ret (Inr (concat (map operations_of es), length (ser_all (c_wal cs) es))), tick fs)"
proof (rule ReadWAL_entries [OF assms(1,2,4)])
  show "d_parse (c_wal cs) part = Eof \<or> d_parse (c_wal cs) part = Bad"
    using delimited_parse_torn [OF codecs_okD(1) [OF assms(1)] _ assms(3)]
      delimited_parse_Nil [OF codecs_okD(1) [OF assms(1)]] by (cases "part = []") auto
qed

section \<open>The state of a writer\<close>

text \<open>
  \<open>wal_state cs fs w es tail\<close>: the writer's file is linked, holds the entries \<open>es\<close> and then \<open>tail\<close>,
  the stream is good, has nothing in its buffer and stands behind the entries.
\<close>

definition wal_state ::
  "codecs \<Rightarrow> fs \<Rightarrow> WALWriterImpl \<Rightarrow> WEntry list \<Rightarrow> bytes \<Rightarrow> bool" where
  "wal_state cs fs w es tail \<longleftrightarrow> map_of (fs_dir fs) (wal_path w) = Some (os_ino (wal_f w)) \<and>
     \<not> os_bad (wal_f w) \<and> os_buf (wal_f w) = [] \<and>
     os_pos (wal_f w) = length (ser_all (c_wal cs) es) \<and>
     fs_data fs (os_ino (wal_f w)) = ser_all (c_wal cs) es @ tail"

lemma wal_state_read: "wal_state cs fs w es tail \<Longrightarrow>
  read_file fs (wal_path w) = Some (ser_all (c_wal cs) es @ tail)"
  by (simp add: wal_state_def read_file_def)

lemma wal_state_agree:
  "wal_state cs fs w es tail \<Longrightarrow> agree_on S fs fs' \<Longrightarrow> wal_path w \<in> S \<Longrightarrow> wal_state cs fs' w es tail"
  using agree_on_dir [of S fs fs' "wal_path w"] agree_on_data [of S fs fs' "wal_path w"]
  by (simp add: wal_state_def)

lemma WriteEntry_state:
  assumes "fs_ok fs" "wal_state cs fs w es tail"
  shows "\<exists>w' fs'. WALWriterImpl_WriteEntry cs e w fs = (Inr (), w', fs') \<and>
    wal_state cs fs' w' (es @ [e]) (drop (length (d_ser (c_wal cs) e)) tail) \<and> fs_ok fs' \<and>
    wal_path w' = wal_path w \<and> touches (os_ino (wal_f w)) fs fs' \<and>
    agree_on (- {wal_path w}) fs fs'"
proof -
  let ?f = "wal_f w" and ?es = "ser_all (c_wal cs) es" and ?b = "d_ser (c_wal cs) e"
  note st = assms(2) [unfolded wal_state_def]
  have at: "stream_at ?f fs (?es @ tail) (length ?es) []"
    using st by (simp add: stream_at_def write_at_Nil)
  obtain k f1 fs1 where w: "os_write ?b ?f fs = (k, f1, fs1)" by (metis prod_cases3)
  note ws = os_write_spec [OF at assms(1) w]
  have ok1: "fs_ok fs1" using touches_same(1) [OF ws(4)] assms(1) by simp
  obtain f2 fs2 where fl: "os_flush f1 fs1 = (f2, fs2)" by (metis surj_pair)
  note fs = os_flush_spec [OF ws(2) ok1 fl]
  have t: "touches (os_ino ?f) fs fs2" using touches_trans [OF ws(4)] fs(5) ws(3) by simp
  have ag: "agree_on (- {wal_path w}) fs fs2" using agree_on_touches [OF assms(1) t] st by blast
  have run: "WALWriterImpl_WriteEntry cs e w fs = (Inr (), w\<lparr>wal_f := f2\<rparr>, fs2)"
    using w fl ws(1) by (simp add: WALWriterImpl_WriteEntry_def)
  have "wal_state cs fs2 (w\<lparr>wal_f := f2\<rparr>) (es @ [e]) (drop (length ?b) tail)"
    using st fs(1-4) ws(3) touches_same(2) [OF t]
    by (simp add: wal_state_def stream_at_def write_at_def)
  then show ?thesis
    using run ok1 touches_same(1) [OF fs(5)] t ag by auto
qed

text \<open>A new log: a fresh file, linked and empty; every other file is as it was.\<close>

lemma NewWALWriter_state:
  assumes "fs_ok fs"
  shows "\<exists>w fs'. NewWALWriter fs = (Inr w, fs') \<and> wal_state cs fs' w [] [] \<and> fs_ok fs' \<and>
    wal_path w = format_path fs (fs_uuid fs (fs_uuid_pos fs)) ''wal'' \<and>
    map_of (fs_dir fs) (wal_path w) = None \<and> agree_on (- {wal_path w}) fs fs' \<and>
    fs_uuid_pos fs' = Suc (fs_uuid_pos fs)"
proof -
  obtain p fs1 where gp: "GetPath ''wal'' fs = (p, fs1)" by (metis surj_pair)
  have "''wal'' \<in> set file_extensions" by (simp add: file_extensions_def)
  note g = fs_ok_GetPath [OF assms this gp]
  have par: "parent_path p \<in> set (fs_dirs fs1)" using g(2,5,7) by simp
  let ?f = "new_ofstream (fs_next fs1)" and ?fs2 = "created p fs1"
  have c: "CreateBinaryFile p om_out fs1 = (Inr ?f, ?fs2)"
    by (rule CreateBinaryFile_new [OF g(3,4) par]) simp
  have "agree_on (- {p}) fs1 ?fs2" by (rule agree_on_created [OF g(3)])
  moreover have "agree_on (- {p}) fs fs1" using g(2) by (simp add: agree_on_def same_env_def)
  ultimately have "agree_on (- {p}) fs ?fs2" by (rule agree_on_trans [rotated])
  then show ?thesis
    using gp c fs_ok_created [OF g(3,4,6)] g(1,2,4)
    by (simp add: NewWALWriter_def wal_state_def new_ofstream_def)
qed

lemma LoadWALWriter_state:
  assumes "fs_ok fs" "read_file fs p = Some (ser_all (c_wal cs) es @ tail)"
    "parent_path p \<in> set (fs_dirs fs)"
  shows "\<exists>w. LoadWALWriter p (length (ser_all (c_wal cs) es)) fs = (Inr w, tick fs) \<and>
    wal_state cs (tick fs) w es tail \<and> wal_path w = p"
  using assms CreateBinaryFile_keep [OF assms(1) _ assms(3)]
  by (auto simp: LoadWALWriter_def seekp_def os_flush_def new_ofstream_def wal_state_def read_file_def)

section \<open>The interfaces of the log\<close>

definition insert_op :: "KwPair \<Rightarrow> Operation" where
  "insert_op p = \<lparr>op_type = kInsert, op_key = kw_key p, op_value = Some (kw_value p),
     op_version = kw_version p\<rparr>"

definition remove_op :: "string \<Rightarrow> u64 \<Rightarrow> Operation" where
  "remove_op k v = \<lparr>op_type = kRemove, op_key = k, op_value = None, op_version = v\<rparr>"

text \<open>
  \<open>WALWriter\<close>: an operation that returns success is the last one in the log. \<open>SwappableWalWriter\<close>:
  \<open>Swap\<close> starts an empty log and leaves the old one under the name that the callback will delete.
\<close>

locale wal_writer =
  fixes w_insert :: "KwPair \<Rightarrow> 's \<Rightarrow> unit res \<times> 's"
    and w_remove :: "string \<Rightarrow> u64 \<Rightarrow> 's \<Rightarrow> unit res \<times> 's"
    and logged :: "'s \<Rightarrow> Operation list"
    and w_inv :: "'s \<Rightarrow> bool"
  assumes insert_logged: "w_inv s \<Longrightarrow>
      \<exists>s'. w_insert p s = (Inr (), s') \<and> w_inv s' \<and> logged s' = logged s @ [insert_op p]"
    and remove_logged: "w_inv s \<Longrightarrow>
      \<exists>s'. w_remove k v s = (Inr (), s') \<and> w_inv s' \<and> logged s' = logged s @ [remove_op k v]"
begin

fun write_ops :: "(KwPair + string \<times> u64) list \<Rightarrow> 's \<Rightarrow> unit res \<times> 's" where
  "write_ops [] s = (Inr (), s)"
| "write_ops (Inl p # ops) s = (case w_insert p s of
     (Inl e, s1) \<Rightarrow> (Inl e, s1) | (Inr _, s1) \<Rightarrow> write_ops ops s1)"
| "write_ops (Inr (k, v) # ops) s = (case w_remove k v s of
     (Inl e, s1) \<Rightarrow> (Inl e, s1) | (Inr _, s1) \<Rightarrow> write_ops ops s1)"

lemma write_ops_logged:
  "w_inv s \<Longrightarrow> \<exists>s'. write_ops ops s = (Inr (), s') \<and> w_inv s' \<and>
     logged s' = logged s @ map (\<lambda>x. case x of Inl p \<Rightarrow> insert_op p | Inr (k, v) \<Rightarrow> remove_op k v) ops"
proof (induction ops s rule: write_ops.induct)
  case (2 p ops s)
  then show ?case using insert_logged [OF 2(2), of p] by fastforce
next
  case (3 k v ops s)
  then show ?case using remove_logged [OF 3(2), of k v] by fastforce
qed simp

end

locale swappable_wal_writer = wal_writer w_insert w_remove logged w_inv
  for w_insert :: "KwPair \<Rightarrow> 's \<Rightarrow> unit res \<times> 's" and w_remove logged w_inv +
  fixes swap :: "'s \<Rightarrow> path res \<times> 's"
    and archived :: "'s \<Rightarrow> path \<Rightarrow> Operation list"
  assumes swap_law: "w_inv s \<Longrightarrow> \<exists>old s'. swap s = (Inr old, s') \<and> w_inv s' \<and>
      logged s' = [] \<and> archived s' old = logged s"
begin

text \<open>What was written before a switch is in the archived log, what comes after in the new one.\<close>

lemma write_swap_write:
  assumes "w_inv s" "write_ops a s = (Inr (), s1)" "swap s1 = (Inr old, s2)"
    "write_ops b s2 = (Inr (), s3)" "logged s = []"
  shows "archived s2 old = map (\<lambda>x. case x of Inl p \<Rightarrow> insert_op p | Inr (k, v) \<Rightarrow> remove_op k v) a"
    "logged s3 = map (\<lambda>x. case x of Inl p \<Rightarrow> insert_op p | Inr (k, v) \<Rightarrow> remove_op k v) b"
  using write_ops_logged [OF assms(1), of a] assms swap_law [of s1] write_ops_logged [of s2 b] by auto

end

text \<open>The log of a writer is what the reader finds in its file.\<close>

definition wal_ops :: "codecs \<Rightarrow> fs \<Rightarrow> path \<Rightarrow> Operation list" where
  "wal_ops cs fs p = (case ReadWAL cs p fs of (Ret (Inr (ops, _)), _) \<Rightarrow> ops | _ \<Rightarrow> [])"

definition wal_logged :: "codecs \<Rightarrow> SwappableWalWriterImpl \<times> fs \<Rightarrow> Operation list" where
  "wal_logged cs s = wal_ops cs (snd s) (Wal_GetPath (fst s))"

definition wal_inv :: "codecs \<Rightarrow> SwappableWalWriterImpl \<times> fs \<Rightarrow> bool" where
  "wal_inv cs s \<longleftrightarrow> codecs_ok cs \<and> fs_ok (snd s) \<and> (\<exists>es. wal_state cs (snd s) (sww_writer (fst s)) es [])"

lemma wal_ops_entries:
  assumes "codecs_ok cs" "fs_ok fs" "read_file fs p = Some (ser_all (c_wal cs) es)"
  shows "wal_ops cs fs p = concat (map operations_of es)"
  using ReadWAL_entries [OF assms(1,2), of p es "[]"] assms(3)
    delimited_parse_Nil [OF codecs_okD(1) [OF assms(1)]] by (simp add: wal_ops_def)

lemma wal_state_ops:
  "codecs_ok cs \<Longrightarrow> fs_ok fs \<Longrightarrow> wal_state cs fs w es [] \<Longrightarrow>
   wal_ops cs fs (wal_path w) = concat (map operations_of es)"
  using wal_ops_entries wal_state_read [of cs fs w es "[]"] by simp

lemma Wal_WriteEntry_logged:
  assumes "wal_inv cs s"
  shows "\<exists>s'. Wal_WriteEntry cs e s = (Inr (), s') \<and> wal_inv cs s' \<and>
    wal_logged cs s' = wal_logged cs s @ operations_of e \<and>
    agree_on (- {Wal_GetPath (fst s)}) (snd s) (snd s') \<and> Wal_GetPath (fst s') = Wal_GetPath (fst s) \<and>
    fs_dir (snd s') = fs_dir (snd s)"
proof -
  from assms obtain es where i: "codecs_ok cs" "fs_ok (snd s)" "wal_state cs (snd s) (sww_writer (fst s)) es []"
    by (auto simp: wal_inv_def)
  from WriteEntry_state [OF i(2,3), of e] obtain w' fs' where w:
    "WALWriterImpl_WriteEntry cs e (sww_writer (fst s)) (snd s) = (Inr (), w', fs')"
    "wal_state cs fs' w' (es @ [e]) []" "fs_ok fs'" "wal_path w' = wal_path (sww_writer (fst s))"
    "agree_on (- {wal_path (sww_writer (fst s))}) (snd s) fs'" "fs_dir fs' = fs_dir (snd s)"
    using touches_same by fastforce
  then show ?thesis
    using wal_state_ops [OF i] wal_state_ops [OF i(1) w(3,2)] i(1)
    by (auto simp: Wal_WriteEntry_def wal_inv_def wal_logged_def Wal_GetPath_def WALWriterImpl_GetPath_def)
qed

lemma Wal_Swap_logged:
  assumes "wal_inv cs s"
  shows "\<exists>s'. Wal_Swap s = (Inr (Wal_GetPath (fst s)), s') \<and> wal_inv cs s' \<and> wal_logged cs s' = [] \<and>
    wal_ops cs (snd s') (Wal_GetPath (fst s)) = wal_logged cs s \<and>
    Wal_GetPath (fst s') = format_path (snd s) (fs_uuid (snd s) (fs_uuid_pos (snd s))) ''wal'' \<and>
    map_of (fs_dir (snd s)) (Wal_GetPath (fst s')) = None \<and>
    agree_on (- {Wal_GetPath (fst s')}) (snd s) (snd s')"
proof -
  let ?old = "sww_writer (fst s)"
  from assms obtain es where i: "codecs_ok cs" "fs_ok (snd s)" "wal_state cs (snd s) ?old es []"
    by (auto simp: wal_inv_def)
  from NewWALWriter_state [OF i(2), of cs] obtain w fs' where n: "NewWALWriter (snd s) = (Inr w, fs')"
    "wal_state cs fs' w [] []" "fs_ok fs'"
    "wal_path w = format_path (snd s) (fs_uuid (snd s) (fs_uuid_pos (snd s))) ''wal''"
    "map_of (fs_dir (snd s)) (wal_path w) = None" "agree_on (- {wal_path w}) (snd s) fs'" by blast
  have "wal_path ?old \<noteq> wal_path w" using n(5) i(3) by (auto simp: wal_state_def)
  then have "wal_state cs fs' ?old es []" by (intro wal_state_agree [OF i(3) n(6)]) simp
  then have old: "wal_ops cs fs' (wal_path ?old) = wal_ops cs (snd s) (wal_path ?old)"
    using wal_state_ops [OF i(1) n(3)] wal_state_ops [OF i] by simp
  have "os_flush (wal_f ?old) fs' = (wal_f ?old, fs')" using i(3) by (simp add: os_flush_def wal_state_def)
  then show ?thesis
    using n old i(1) wal_state_ops [OF i(1) n(3,2)]
    by (auto simp: Wal_Swap_def wal_inv_def wal_logged_def Wal_GetPath_def WALWriterImpl_GetPath_def)
qed

lemma Wal_Insert_logged:
  "wal_inv cs s \<Longrightarrow> \<exists>s'. Wal_Insert cs p s = (Inr (), s') \<and> wal_inv cs s' \<and>
     wal_logged cs s' = wal_logged cs s @ [insert_op p]"
  using Wal_WriteEntry_logged [of cs s] by (fastforce simp: Wal_Insert_def operations_of_def insert_op_def)

lemma Wal_Remove_logged:
  "wal_inv cs s \<Longrightarrow> \<exists>s'. Wal_Remove cs k v s = (Inr (), s') \<and> wal_inv cs s' \<and>
     wal_logged cs s' = wal_logged cs s @ [remove_op k v]"
  using Wal_WriteEntry_logged [of cs s] by (fastforce simp: Wal_Remove_def operations_of_def remove_op_def)

interpretation sww: swappable_wal_writer "Wal_Insert cs" "Wal_Remove cs" "wal_logged cs" "wal_inv cs"
  Wal_Swap "\<lambda>s. wal_ops cs (snd s)" for cs
proof
  show "\<exists>s'. Wal_Insert cs p s = (Inr (), s') \<and> wal_inv cs s' \<and>
    wal_logged cs s' = wal_logged cs s @ [insert_op p]" if "wal_inv cs s" for s p
    by (rule Wal_Insert_logged [OF that])
  show "\<exists>s'. Wal_Remove cs k v s = (Inr (), s') \<and> wal_inv cs s' \<and>
    wal_logged cs s' = wal_logged cs s @ [remove_op k v]" if "wal_inv cs s" for s k v
    by (rule Wal_Remove_logged [OF that])
  show "\<exists>old s'. Wal_Swap s = (Inr old, s') \<and> wal_inv cs s' \<and> wal_logged cs s' = [] \<and>
    wal_ops cs (snd s') old = wal_logged cs s" if "wal_inv cs s" for s
    using Wal_Swap_logged [OF that] by blast
qed

end
