(* ===== verification/Versioning.thy ===== *)
theory Versioning
  imports Prelude
begin

text \<open>
  \<open>VersionNumberGenerator\<close> (\<open>global_versioning.hpp\<close>, \<open>global_versioning.cpp\<close>): the calls as
  functions on the counter, and the same calls as threads that interleave their atomic
  operations on it.
\<close>

section \<open>The calls\<close>

record VersionNumberGenerator =
  vng_current :: u64

definition new_VersionNumberGenerator :: "u64 \<Rightarrow> VersionNumberGenerator" where
  "new_VersionNumberGenerator start = \<lparr>vng_current = start\<rparr>"

definition Generate :: "VersionNumberGenerator \<Rightarrow> u64 \<times> VersionNumberGenerator" where
  "Generate g = (vng_current g, g\<lparr>vng_current := vng_current g + 1\<rparr>)"

text \<open>
  \<open>compare_exchange_weak\<close> may fail for no reason; the first argument is how often it does before
  it succeeds.
\<close>

fun UpdateMaxVersion :: "nat \<Rightarrow> u64 \<Rightarrow> VersionNumberGenerator \<Rightarrow> VersionNumberGenerator" where
  "UpdateMaxVersion 0 version g =
     (if vng_current g > version then g else g\<lparr>vng_current := version\<rparr>)"
| "UpdateMaxVersion (Suc n) version g =
     (if vng_current g > version then g else UpdateMaxVersion n version g)"

definition vng_move :: "VersionNumberGenerator \<Rightarrow> VersionNumberGenerator \<times> VersionNumberGenerator" where
  "vng_move other = (\<lparr>vng_current = vng_current other\<rparr>, other\<lparr>vng_current := 0\<rparr>)"

definition vng_move_assign ::
  "VersionNumberGenerator \<Rightarrow> VersionNumberGenerator \<Rightarrow> VersionNumberGenerator \<times> VersionNumberGenerator" where
  "vng_move_assign g other = (g\<lparr>vng_current := vng_current other\<rparr>, other\<lparr>vng_current := 0\<rparr>)"

lemma UpdateMaxVersion_max:
  "UpdateMaxVersion n v g = g\<lparr>vng_current := max (vng_current g) v\<rparr>"
  by (induction n v g rule: UpdateMaxVersion.induct) (auto simp: max_def)

lemma Generate_simps [simp]:
  "fst (Generate g) = vng_current g" "vng_current (snd (Generate g)) = vng_current g + 1"
  by (simp_all add: Generate_def)

section \<open>Interleavings\<close>

text \<open>
  A thread is outside a call, at the top of the loop of \<open>UpdateMaxVersion(v)\<close>, or past its load
  with the value \<open>c\<close> and about to exchange. \<open>vs_issued\<close> collects what \<open>Generate\<close> has returned and
  \<open>vs_wrapped\<close> whether the counter ever went past its largest value.
\<close>

datatype vthread = TIdle | TLoop u64 | TExchange u64 u64

record vstate =
  vs_current :: u64
  vs_thread :: "nat \<Rightarrow> vthread"
  vs_issued :: "u64 list"
  vs_wrapped :: bool

definition vinit :: "u64 \<Rightarrow> vstate" where
  "vinit start = \<lparr>vs_current = start, vs_thread = (\<lambda>_. TIdle), vs_issued = [], vs_wrapped = False\<rparr>"

inductive vstep :: "vstate \<Rightarrow> vstate \<Rightarrow> bool" where
  vs_generate: "vs_thread s t = TIdle \<Longrightarrow>
     vstep s (s\<lparr>vs_current := vs_current s + 1, vs_issued := vs_issued s @ [vs_current s],
       vs_wrapped := vs_wrapped s \<or> vs_current s = - 1\<rparr>)"
| vs_call: "vs_thread s t = TIdle \<Longrightarrow> vstep s (s\<lparr>vs_thread := (vs_thread s)(t := TLoop v)\<rparr>)"
| vs_newer: "vs_thread s t = TLoop v \<Longrightarrow> vs_current s > v \<Longrightarrow>
     vstep s (s\<lparr>vs_thread := (vs_thread s)(t := TIdle)\<rparr>)"
| vs_load: "vs_thread s t = TLoop v \<Longrightarrow> \<not> vs_current s > v \<Longrightarrow>
     vstep s (s\<lparr>vs_thread := (vs_thread s)(t := TExchange v (vs_current s))\<rparr>)"
| vs_exchange: "vs_thread s t = TExchange v c \<Longrightarrow> vs_current s = c \<Longrightarrow>
     vstep s (s\<lparr>vs_current := v, vs_thread := (vs_thread s)(t := TIdle)\<rparr>)"
| vs_fail: "vs_thread s t = TExchange v c \<Longrightarrow>
     vstep s (s\<lparr>vs_thread := (vs_thread s)(t := TLoop v)\<rparr>)"

inductive vreach :: "vstate \<Rightarrow> vstate \<Rightarrow> bool" where
  vreach_refl: "vreach s s"
| vreach_step: "vreach s s' \<Longrightarrow> vstep s' s'' \<Longrightarrow> vreach s s''"

inductive_cases vstep_cases: "vstep s s'"

text \<open>
  A thread that is about to exchange has seen a value not above the version it brings, so an
  exchange that succeeds never lowers the counter; and what was issued lies below the counter.
\<close>

definition vinv :: "vstate \<Rightarrow> bool" where
  "vinv s \<longleftrightarrow> (\<forall>t v c. vs_thread s t = TExchange v c \<longrightarrow> c \<le> v) \<and>
     (\<not> vs_wrapped s \<longrightarrow> distinct (vs_issued s) \<and> (\<forall>n \<in> set (vs_issued s). n < vs_current s))"

lemma vinv_init: "vinv (vinit start)"
  by (simp add: vinv_def vinit_def)

lemma less_increment: "c \<noteq> - 1 \<Longrightarrow> (n :: u64) < c + 1 \<longleftrightarrow> n \<le> c"
proof -
  assume "c \<noteq> - 1"
  then have "c + 1 \<noteq> 0" by (simp add: eq_neg_iff_add_eq_0)
  then have "unat (c + 1) = Suc (unat c)" by (metis add.commute unatSuc)
  then show ?thesis by (simp add: word_less_nat_alt word_le_nat_alt less_Suc_eq_le)
qed

lemma vinv_step: "vstep s s' \<Longrightarrow> vinv s \<Longrightarrow> vinv s'"
proof (induction rule: vstep.induct)
  case (vs_generate s t)
  then show ?case by (auto simp: vinv_def less_increment)
next
  case (vs_exchange s t v c)
  then have "vs_current s \<le> v" by (auto simp: vinv_def)
  moreover have "n < v" if "n < vs_current s" for n
    using that calculation by (rule order_less_le_trans)
  ultimately show ?case using vs_exchange by (auto simp: vinv_def)
qed (auto simp: vinv_def)

lemma vinv_reach: "vreach s s' \<Longrightarrow> vinv s \<Longrightarrow> vinv s'"
  by (induction rule: vreach.induct) (auto intro: vinv_step)

lemma vstep_current_mono:
  assumes "vstep s s'" "vinv s" "\<not> vs_wrapped s'"
  shows "vs_current s \<le> vs_current s' \<and> \<not> vs_wrapped s"
  using assms
proof (induction rule: vstep.induct)
  case (vs_generate s t)
  then have "vs_current s < vs_current s + 1" by (simp add: less_increment)
  then show ?case using vs_generate by simp
next
  case (vs_exchange s t v c)
  then show ?case by (auto simp: vinv_def)
qed simp_all

lemma vreach_current_mono:
  "vreach s s' \<Longrightarrow> vinv s \<Longrightarrow> \<not> vs_wrapped s' \<Longrightarrow> vs_current s \<le> vs_current s' \<and> \<not> vs_wrapped s"
proof (induction rule: vreach.induct)
  case (vreach_step s s' s'')
  then show ?case
    using vstep_current_mono [OF vreach_step(2)] vinv_reach [OF vreach_step(1)] by (meson order_trans)
qed simp

text \<open>When a call of \<open>UpdateMaxVersion(v)\<close> leaves, the counter is at least \<open>v\<close>, and stays so.\<close>

lemma vstep_return:
  assumes "vstep s s'" "vinv s" "vs_thread s t = TLoop v \<or> (\<exists>c. vs_thread s t = TExchange v c)"
    "vs_thread s' t = TIdle"
  shows "v \<le> vs_current s'"
  using assms by (induction rule: vstep.induct) (auto split: if_splits)

text \<open>A version at least as great as the counter is handed out again, although another node has used it.\<close>

lemma received_version_is_generated_again:
  "vng_current (UpdateMaxVersion n v g) = max (vng_current g) v \<and>
   (fst (Generate (UpdateMaxVersion n v g)) = v \<longleftrightarrow> vng_current g \<le> v)"
  by (auto simp: UpdateMaxVersion_max max_def)

end
