(* ===== verification/Recovery.thy ===== *)
theory Recovery
  imports Collection Compaction Swappable Wal Versioning
begin

text \<open>
  Start-up after a crash (\<open>wal_reader.hpp\<close>, \<open>wal_reader.cpp\<close>): the logs in the data directory are
  read, replayed into fresh maps and either turned into a table or kept as the memory storage.
  \<open>Apply\<close> is a client of the \<open>KwStorage\<close> interface.
\<close>

section \<open>Replaying operations\<close>

text \<open>\<open>value()\<close> of an insert without a value would throw.\<close>

definition apply_operation ::
  "(KwPair \<Rightarrow> 's \<Rightarrow> 's exec) \<Rightarrow> (string \<Rightarrow> u64 \<Rightarrow> 's \<Rightarrow> 's exec) \<Rightarrow> Operation \<Rightarrow> 's \<Rightarrow> 's exec" where
  "apply_operation ins rem operation storage = (case op_type operation of
       kInsert \<Rightarrow> (case op_value operation of
          None \<Rightarrow> Throw
        | Some v \<Rightarrow> ins \<lparr>kw_key = op_key operation, kw_value = v, kw_version = op_version operation\<rparr> storage)
     | kRemove \<Rightarrow> rem (op_key operation) (op_version operation) storage)"

fun Apply ::
  "(KwPair \<Rightarrow> 's \<Rightarrow> 's exec) \<Rightarrow> (string \<Rightarrow> u64 \<Rightarrow> 's \<Rightarrow> 's exec) \<Rightarrow> Operation list \<Rightarrow> 's \<Rightarrow> 's exec" where
  "Apply ins rem [] storage = Ret storage"
| "Apply ins rem (operation # operations) storage =
     exec_bind (apply_operation ins rem operation storage) (Apply ins rem operations)"

definition GetMaxVersion :: "Operation list \<Rightarrow> u64 exec" where
  "GetMaxVersion operations = (case operations of
       [] \<Rightarrow> Undef
     | operation # rest \<Rightarrow> Ret (foldl max (op_version operation) (map op_version rest)))"

section \<open>Finding the logs\<close>

definition SearchWALFiles :: "fs \<Rightarrow> path list res \<times> fs" where
  "SearchWALFiles fs =
     (let dir = GetDataDir fs in
      (if faulty fs \<noteq> None \<or> dir \<notin> set (fs_dirs fs)
       then Inl (MakeError kUnknown (''failed to search for .wal files: '' @ fs_what fs))
       else Inr (filter (\<lambda>p. extension p = ''.wal'')
              (fs_order fs (filter (\<lambda>p. parent_path p = dir) (map fst (fs_dir fs))))),
       tick fs))"

section \<open>Building the storages\<close>

record init_state =
  in_coll :: PersistentStorageCollection
  in_mem :: SwappableMemoryStorage
  in_wal :: "SwappableWalWriterImpl option"
  in_max :: u64
  in_fs :: fs

record storages =
  so_coll :: PersistentStorageCollection
  so_mem :: SwappableMemoryStorage
  so_wal :: SwappableWalWriterImpl
  so_gen :: VersionNumberGenerator

definition Apply_MapStorage :: "Operation list \<Rightarrow> MapStorage \<Rightarrow> MapStorage exec" where
  "Apply_MapStorage = Apply (\<lambda>p s. Ret (MapStorage_Insert p s)) (\<lambda>k v s. Ret (MapStorage_Remove k v s))"

text \<open>A log with more keys than the threshold becomes a table, and its file is deleted.\<close>

definition init_persist ::
  "codecs \<Rightarrow> path \<Rightarrow> MapStorage \<Rightarrow> init_state \<Rightarrow> unit res exec \<times> init_state" where
  "init_persist cs file storage st =
     (case NewPersistentStorage cs (ToEntries (MapStorage_GetUnderlying storage)) (in_fs st) of
        (Inl e, fs1) \<Rightarrow>
          (Ret (Inl (WrapError e kUnknown ''failed to initialize persistent storage'')), st\<lparr>in_fs := fs1\<rparr>)
      | (Inr table, fs1) \<Rightarrow>
          (case Collection_Add cs table (in_coll st) fs1 of
             (Inl e, c1, fs2) \<Rightarrow>
               (Ret (Inl (WrapError e kUnknown ''failed to initialize persistent collection'')),
                st\<lparr>in_coll := c1, in_fs := fs2\<rparr>)
           | (Inr _, c1, fs2) \<Rightarrow>
               (let (r, fs3) = fs_remove file fs2 in
                (exec_bind r (\<lambda>_. Ret (Inr ())), st\<lparr>in_coll := c1, in_fs := fs3\<rparr>))))"

text \<open>Any other log is what the memory storage holds, and the log that is continued; the moved-from temporary owns nothing when it is
  destroyed (\<open>Swappable_moved_from\<close>).\<close>

definition init_load ::
  "path \<Rightarrow> nat \<Rightarrow> MapStorage \<Rightarrow> init_state \<Rightarrow> unit res exec \<times> init_state" where
  "init_load file position storage st =
     (let st1 = st\<lparr>in_mem := fst (Swappable_move_assign (in_mem st) (new_Swappable_from storage))\<rparr> in
      case LoadSwappableWalWriter file position (in_fs st1) of
        (Inl e, fs1) \<Rightarrow> (Ret (Inl (WrapError e kUnknown ''failed to load WAL'')), st1\<lparr>in_fs := fs1\<rparr>)
      | (Inr w, fs1) \<Rightarrow> (Ret (Inr ()), st1\<lparr>in_wal := Some w, in_fs := fs1\<rparr>))"

definition init_file :: "codecs \<Rightarrow> nat \<Rightarrow> path \<Rightarrow> init_state \<Rightarrow> unit res exec \<times> init_state" where
  "init_file cs threshold file st =
     (let (r, fs1) = ReadWAL cs file (in_fs st) in
      st_bind (r, st\<lparr>in_fs := fs1\<rparr>) (\<lambda>err st1. case err of
        Inl e \<Rightarrow> (Ret (Inl e), st1)
      | Inr (operations, position) \<Rightarrow>
          st_bind (Apply_MapStorage operations new_MapStorage, st1) (\<lambda>storage st2.
          st_bind (GetMaxVersion operations, st2) (\<lambda>version st3.
            let st4 = st3\<lparr>in_max := max (in_max st3) version\<rparr> in
            if MapStorage_Size storage > threshold then init_persist cs file storage st4
            else init_load file position storage st4))))"

fun init_files :: "codecs \<Rightarrow> nat \<Rightarrow> path list \<Rightarrow> init_state \<Rightarrow> unit res exec \<times> init_state" where
  "init_files cs threshold [] st = (Ret (Inr ()), st)"
| "init_files cs threshold (file # files) st =
     st_bind (init_file cs threshold file st) (\<lambda>err st1. case err of
       Inl e \<Rightarrow> (Ret (Inl e), st1)
     | Inr _ \<Rightarrow> init_files cs threshold files st1)"

definition kDefaultThreshold :: nat where
  "kDefaultThreshold = 5000"

definition InitializeStorages :: "codecs \<Rightarrow> nat \<Rightarrow> fs \<Rightarrow> storages res exec \<times> fs" where
  "InitializeStorages cs threshold fs =
     (let (c, fs1) = new_PersistentStorageCollection cs fs in
      case SearchWALFiles fs1 of
        (Inl e, fs2) \<Rightarrow> (Ret (Inl e), fs2)
      | (Inr files, fs2) \<Rightarrow>
          (let (r, st) = st_bind
             (init_files cs threshold files
                \<lparr>in_coll = c, in_mem = new_Swappable, in_wal = None, in_max = 0, in_fs = fs2\<rparr>)
             (\<lambda>err st. case err of
                Inl e \<Rightarrow> (Ret (Inl e), st)
              | Inr _ \<Rightarrow>
                  (case in_wal st of
                     Some w \<Rightarrow> (Ret (Inr w), st)
                   | None \<Rightarrow>
                       (case NewSwappableWalWriter (in_fs st) of
                          (Inl e, fs3) \<Rightarrow>
                            (Ret (Inl (WrapError e kUnknown ''failed to create WAL'')), st\<lparr>in_fs := fs3\<rparr>)
                        | (Inr w, fs3) \<Rightarrow> (Ret (Inr w), st\<lparr>in_fs := fs3\<rparr>))))
           in (exec_bind r (\<lambda>wal_writer. Ret (case wal_writer of
                 Inl e \<Rightarrow> Inl e
               | Inr w \<Rightarrow> Inr \<lparr>so_coll = in_coll st, so_mem = in_mem st, so_wal = w,
                   so_gen = new_VersionNumberGenerator (in_max st + 1)\<rparr>)), in_fs st)))"

section \<open>Replay as a function on maps\<close>

definition op_effect :: "Operation \<Rightarrow> Value" where
  "op_effect op = \<lparr>val_value = (case op_type op of kInsert \<Rightarrow> op_value op | kRemove \<Rightarrow> None),
     val_version = op_version op\<rparr>"

fun replay :: "Operation list \<Rightarrow> (string \<Rightarrow> Value option) \<Rightarrow> string \<Rightarrow> Value option" where
  "replay [] m = m"
| "replay (op # ops) m = replay ops (m(op_key op \<mapsto> op_effect op))"

definition op_wf :: "Operation \<Rightarrow> bool" where
  "op_wf op \<longleftrightarrow> (op_type op = kInsert \<longrightarrow> op_value op \<noteq> None)"

lemma replay_append: "replay (a @ b) m = replay b (replay a m)"
  by (induction a arbitrary: m) auto

lemma op_wf_operations_of: "op \<in> set (operations_of e) \<Longrightarrow> op_wf op"
  by (auto simp: operations_of_def op_wf_def split: WEntry.splits)

lemma op_simps [simp]:
  "op_key (insert_op p) = kw_key p" "op_key (remove_op k v) = k"
  "op_effect (insert_op p) = \<lparr>val_value = Some (kw_value p), val_version = kw_version p\<rparr>"
  "op_effect (remove_op k v) = \<lparr>val_value = None, val_version = v\<rparr>"
  "op_wf (insert_op p)" "op_wf (remove_op k v)"
  by (simp_all add: insert_op_def remove_op_def op_effect_def op_wf_def)

context kw_storage
begin

text \<open>Applying well-formed operations to any \<open>KwStorage\<close> replays them on its view.\<close>

lemma apply_operation_law:
  assumes "inv s" "op_wf op"
  shows "\<exists>s1. apply_operation insert remove op s = Ret s1 \<and> inv s1 \<and>
    view s1 = (view s)(op_key op \<mapsto> op_effect op)"
proof (cases "op_type op")
  case kInsert
  then obtain v where "op_value op = Some v" using assms(2) by (auto simp: op_wf_def)
  then show ?thesis
    using insert_law [OF assms(1), of "\<lparr>kw_key = op_key op, kw_value = v, kw_version = op_version op\<rparr>"]
      kInsert by (simp add: apply_operation_def op_effect_def)
next
  case kRemove
  then show ?thesis using remove_law [OF assms(1), of "op_key op" "op_version op"]
    by (simp add: apply_operation_def op_effect_def)
qed

lemma Apply_replay:
  "inv s \<Longrightarrow> \<forall>op \<in> set ops. op_wf op \<Longrightarrow>
   \<exists>s'. Apply insert remove ops s = Ret s' \<and> inv s' \<and> view s' = replay ops (view s)"
proof (induction ops arbitrary: s)
  case (Cons op ops)
  from apply_operation_law [OF Cons.prems(1), of op] Cons.prems(2) obtain s1 where
    s1: "apply_operation insert remove op s = Ret s1" "inv s1"
      "view s1 = (view s)(op_key op \<mapsto> op_effect op)" by auto
  from Cons.IH [OF s1(2)] Cons.prems(2) obtain s' where
    "Apply insert remove ops s1 = Ret s'" "inv s'" "view s' = replay ops (view s1)" by auto
  then show ?case using s1(1,3) by simp
qed simp

end

text \<open>While a collection runs, operations only reach the recent half.\<close>

context collectable_storage
begin

lemma apply_operation_collecting:
  assumes "inv s" "\<not> idle s" "op_wf op"
  shows "\<exists>s1. apply_operation insert remove op s = Ret s1 \<and> inv s1 \<and> \<not> idle s1 \<and> base s1 = base s \<and>
    recent s1 = (recent s)(op_key op \<mapsto> op_effect op)"
proof -
  from apply_operation_law [OF assms(1,3)] obtain s1 where
    s1: "apply_operation insert remove op s = Ret s1" "inv s1" by blast
  from s1(1) show ?thesis
    using insert_mode [OF assms(1), of _ s1] remove_mode [OF assms(1), of _ _ s1] s1(2) assms(2)
    by (auto simp: apply_operation_def op_effect_def
        split: OperationType.splits option.splits)
qed

lemma Apply_collecting:
  "inv s \<Longrightarrow> \<not> idle s \<Longrightarrow> \<forall>op \<in> set ops. op_wf op \<Longrightarrow>
   \<exists>s'. Apply insert remove ops s = Ret s' \<and> inv s' \<and> \<not> idle s' \<and> base s' = base s \<and>
     recent s' = replay ops (recent s)"
proof (induction ops arbitrary: s)
  case (Cons op ops)
  from apply_operation_collecting [OF Cons.prems(1,2), of op] Cons.prems(3) obtain s1 where
    s1: "apply_operation insert remove op s = Ret s1" "inv s1" "\<not> idle s1" "base s1 = base s"
      "recent s1 = (recent s)(op_key op \<mapsto> op_effect op)" by auto
  from Cons.IH [OF s1(2,3)] Cons.prems(3) obtain s' where "Apply insert remove ops s1 = Ret s'" "inv s'"
    "\<not> idle s'" "base s' = base s1" "recent s' = replay ops (recent s1)" by auto
  then show ?case using s1(1,4,5) by simp
qed simp

lemma collect_apply_remove:
  assumes "inv s" "idle s" "\<forall>op \<in> set ops. op_wf op"
  shows "\<exists>es s1 s2 s3. collect s = Ret (es, s1) \<and> Apply insert remove ops s1 = Ret s2 \<and>
    remove_collected s2 = Ret s3 \<and> entries_view es = view s \<and> distinct (map se_key es) \<and>
    view s2 = view s ++ replay ops Map.empty \<and> view s3 = replay ops Map.empty \<and> inv s3 \<and> idle s3"
proof -
  from collect_idle [OF assms(1,2)] obtain es s1 where c: "collect s = Ret (es, s1)" "inv s1" "\<not> idle s1"
    "entries_view es = view s" "distinct (map se_key es)" "base s1 = view s" "recent s1 = Map.empty" by blast
  from Apply_collecting [OF c(2,3) assms(3)] c obtain s2 where a: "Apply insert remove ops s1 = Ret s2"
    "inv s2" "\<not> idle s2" "base s2 = view s" "recent s2 = replay ops Map.empty" by auto
  from remove_collected_law [OF a(2,3)] obtain s3 where "remove_collected s2 = Ret s3" "inv s3" "idle s3"
    "view s3 = recent s2" by blast
  then show ?thesis using c a view_split [OF a(2)] by auto
qed

end

text \<open>The map that a list of operations leaves in a fresh \<open>MapStorage\<close>.\<close>

definition replayed :: "Operation list \<Rightarrow> MapStorage" where
  "replayed ops = (case Apply_MapStorage ops new_MapStorage of Ret s \<Rightarrow> s | _ \<Rightarrow> new_MapStorage)"

lemma Apply_MapStorage_replayed:
  assumes "\<forall>op \<in> set ops. op_wf op"
  shows "Apply_MapStorage ops new_MapStorage = Ret (replayed ops)" "ms_inv (replayed ops)"
    "ms_view (replayed ops) = replay ops Map.empty"
  using ms.Apply_replay [OF ms_inv_new assms] by (auto simp: replayed_def Apply_MapStorage_def)

section \<open>The logs on disk\<close>

text \<open>
  \<open>is_log\<close>: a linked file of the data directory with the log extension that holds entries and
  then, possibly, what an interrupted write left.
\<close>

definition is_log :: "codecs \<Rightarrow> fs \<Rightarrow> path \<Rightarrow> bool" where
  "is_log cs fs p \<longleftrightarrow> extension p = ''.wal'' \<and> parent_path p = GetDataDir fs \<and>
     (\<exists>es tail. read_file fs p = Some (ser_all (c_wal cs) es @ tail) \<and>
       (d_parse (c_wal cs) tail = Eof \<or> d_parse (c_wal cs) tail = Bad))"

lemma ReadWAL_is_log:
  assumes "codecs_ok cs" "fs_ok fs" "is_log cs fs p"
  obtains es tail where "read_file fs p = Some (ser_all (c_wal cs) es @ tail)"
    "ReadWAL cs p fs = (Ret (Inr (wal_ops cs fs p, length (ser_all (c_wal cs) es))), tick fs)"
    "wal_ops cs fs p = concat (map operations_of es)" "\<forall>op \<in> set (wal_ops cs fs p). op_wf op"
proof -
  from assms(3) obtain es tail where l: "read_file fs p = Some (ser_all (c_wal cs) es @ tail)"
    "d_parse (c_wal cs) tail = Eof \<or> d_parse (c_wal cs) tail = Bad" by (auto simp: is_log_def)
  note r = ReadWAL_entries [OF assms(1,2) l]
  then have o: "wal_ops cs fs p = concat (map operations_of es)" by (simp add: wal_ops_def)
  show ?thesis
    by (rule that [OF l(1)]) (use r o op_wf_operations_of in auto)
qed

lemma is_log_agree:
  assumes "agree_on S fs fs'" "p \<in> S" "fs_ok fs" "fs_ok fs'" "codecs_ok cs" "is_log cs fs p"
  shows "is_log cs fs' p" "wal_ops cs fs' p = wal_ops cs fs p"
proof -
  have r: "read_file fs' p = read_file fs p" by (rule agree_on_read [OF assms(1,2)])
  show "is_log cs fs' p"
    using assms(6) unfolding is_log_def r same_env_dir [OF agree_on_env [OF assms(1)]] .
  from assms(6) obtain es tail where l: "read_file fs p = Some (ser_all (c_wal cs) es @ tail)"
    "d_parse (c_wal cs) tail = Eof \<or> d_parse (c_wal cs) tail = Bad" by (auto simp: is_log_def)
  show "wal_ops cs fs' p = wal_ops cs fs p"
    using ReadWAL_entries [OF assms(5,3) l] ReadWAL_entries [OF assms(5,4) l(1) [folded r] l(2)]
    by (simp add: wal_ops_def)
qed

lemma wal_not_table: "fs_ok fs \<Longrightarrow> extension p = ''.wal'' \<Longrightarrow> p \<notin> table_files fs"
  by (auto simp: table_files_def is_table_def fs_ok_def replace_extension_format extension_format)

lemma wal_not_meta: "fs_ok fs \<Longrightarrow> extension p = ''.wal'' \<Longrightarrow> p \<noteq> meta_path fs"
  by (auto simp: meta_path_eq extension_def filename_def stem_of_def)

definition wal_files :: "fs \<Rightarrow> path list" where
  "wal_files fs = filter (\<lambda>p. extension p = ''.wal'')
     (fs_order fs (filter (\<lambda>p. parent_path p = GetDataDir fs) (map fst (fs_dir fs))))"

definition order_ok :: "fs \<Rightarrow> bool" where
  "order_ok fs \<longleftrightarrow> (\<forall>xs. mset (fs_order fs xs) = mset xs)"

lemma SearchWALFiles_ok: "fs_ok fs \<Longrightarrow> SearchWALFiles fs = (Inr (wal_files fs), tick fs)"
  by (simp add: SearchWALFiles_def wal_files_def GetDataDir_def fs_ok_def datadir_ok_def Let_def
      faulty_def no_faults_def)

lemma wal_files_clock [simp]: "wal_files (fs\<lparr>fs_clock := n\<rparr>) = wal_files fs"
  by (simp add: wal_files_def GetDataDir_def)

text \<open>The search finds every log of the directory, once.\<close>

lemma wal_files_set:
  assumes "fs_ok fs" "order_ok fs"
  shows "set (wal_files fs) = {p. extension p = ''.wal'' \<and> parent_path p = GetDataDir fs \<and>
      p \<in> dom (map_of (fs_dir fs))}" "distinct (wal_files fs)"
proof -
  let ?xs = "filter (\<lambda>p. parent_path p = GetDataDir fs) (map fst (fs_dir fs))"
  have m: "mset (fs_order fs ?xs) = mset ?xs" using assms(2) by (simp only: order_ok_def)
  show "set (wal_files fs) = {p. extension p = ''.wal'' \<and> parent_path p = GetDataDir fs \<and>
      p \<in> dom (map_of (fs_dir fs))}"
    using mset_eq_setD [OF m] by (auto simp: wal_files_def dom_map_of_conv_image_fst)
  have "distinct ?xs" using assms(1) by (simp add: fs_ok_def dir_ok_def)
  then show "distinct (wal_files fs)"
    using mset_eq_imp_distinct_iff [OF m] by (simp add: wal_files_def)
qed

section \<open>One log\<close>

definition kept_logs :: "fs \<Rightarrow> path \<Rightarrow> path set" where
  "kept_logs fs file = {q \<in> dom (map_of (fs_dir fs)). extension q = ''.wal'' \<and> q \<noteq> file}"

lemma wal_other:
  assumes "fs_ok fs" "extension p = ''.wal''"
  shows "p \<in> other_files fs"
proof -
  have "uuids_ok fs" using assms(1) by (simp add: fs_ok_def)
  then have "p \<notin> table_names fs" using assms(2) by (auto simp: table_names_def extension_format)
  then show ?thesis
    using assms(2) meta_path_eq [OF assms(1)]
    by (auto simp: other_files_def extension_def filename_def stem_of_def)
qed

text \<open>Removing a log leaves the tables as they are.\<close>

lemma remove_log_frame:
  assumes "fs_ok fs" "fs_remove q fs = (r, fs')" "extension q = ''.wal''" "coll_inv cs fs ps"
  shows "coll_inv cs fs' ps" "tables_view cs fs' ps = tables_view cs fs ps"
    "st \<in> set ps \<Longrightarrow> ps_entries cs fs' st = ps_entries cs fs st"
proof -
  have "insert (meta_path fs) (table_files fs) \<subseteq> - {q}" "table_files fs \<subseteq> - {q}"
    using wal_not_table [OF assms(1,3)] wal_not_meta [OF assms(1,3)] by auto
  note ag = agree_on_mono [OF agree_on_remove [OF assms(1,2)] this(1)]
    agree_on_mono [OF agree_on_remove [OF assms(1,2)] this(2)]
  show "coll_inv cs fs' ps" by (rule coll_inv_agree [OF assms(4) ag(1)])
  show "tables_view cs fs' ps = tables_view cs fs ps" by (rule tables_view_agree [OF assms(4) ag(2)])
  show "st \<in> set ps \<Longrightarrow> ps_entries cs fs' st = ps_entries cs fs st"
    by (rule entries_frame [OF assms(4) ag(2)])
qed

lemma init_persist_spec:
  assumes cs: "codecs_ok cs" and ok: "fs_ok (in_fs st)"
    and inv: "coll_inv cs (in_fs st) (collection (in_coll st))" and s: "ms_inv s"
    and bound: "length (table_bytes cs (sort (ToEntries (ms_map s)))) < 2 ^ 64"
    and wal: "extension file = ''.wal''"
  shows "\<exists>c fs'. init_persist cs file s st = (Ret (Inr ()), st\<lparr>in_coll := c, in_fs := fs'\<rparr>) \<and>
    fs_ok fs' \<and> same_env (in_fs st) fs' \<and> coll_inv cs fs' (collection c) \<and>
    tables_view cs fs' (collection c) =
      tables_view cs (in_fs st) (collection (in_coll st)) ++ ms_view s \<and>
    agree_on (other_files (in_fs st) - {file}) (in_fs st) fs' \<and> map_of (fs_dir fs') file = None \<and>
    (tables_full (in_coll st) \<and> ms_map s \<noteq> [] \<longrightarrow> tables_full c)"
proof -
  let ?fs = "in_fs st" and ?c = "in_coll st" and ?K = "other_files (in_fs st) - {file}"
  have "distinct (map se_key (ToEntries (ms_map s)))" using s by (simp add: keys_ToEntries ms_inv_def)
  from persist_table [OF cs ok inv this bound] obtain t fs1 fs2 where
    n: "NewPersistentStorage cs (ToEntries (ms_map s)) ?fs = (Inr t, fs1)"
    "Collection_Add cs t ?c fs1 = (Inr (), ?c\<lparr>collection := collection ?c @ [t]\<rparr>, fs2)"
    "persisted cs ?fs (collection ?c) (ToEntries (ms_map s)) t fs2" by blast
  note p = n(3) [unfolded persisted_def]
  obtain r fs3 where rm: "fs_remove file fs2 = (r, fs3)" by (metis surj_pair)
  have ok2: "fs_ok fs2" using p by simp
  note rmo = fs_remove_ok [OF ok2 rm]
  have ag3: "agree_on (- {file}) fs2 fs3" by (rule agree_on_remove [OF ok2 rm])
  have c2: "coll_inv cs fs2 (collection ?c @ [t])" using p by simp
  note fr = remove_log_frame [OF ok2 rm wal c2]
  have "?K \<subseteq> other_files ?fs" "?K \<subseteq> - {file}" by auto
  then have ag: "agree_on ?K ?fs fs3" using p agree_on_mono [OF ag3] by (meson agree_on_mono agree_on_trans)
  have "ms_map s \<noteq> [] \<longrightarrow> ps_index t \<noteq> []" using p by (auto simp: ToEntries_map)
  then have full: "tables_full ?c \<and> ms_map s \<noteq> [] \<longrightarrow> tables_full (?c\<lparr>collection := collection ?c @ [t]\<rparr>)"
    by (simp add: tables_full_def)
  have "init_persist cs file s st =
      (Ret (Inr ()), st\<lparr>in_coll := ?c\<lparr>collection := collection ?c @ [t]\<rparr>, in_fs := fs3\<rparr>)"
    using n(1,2) rm rmo(1) by (simp add: init_persist_def MapStorage_GetUnderlying_def)
  moreover have "entries_view (ToEntries (ms_map s)) = ms_view s"
    by (simp add: entries_view_ToEntries ms_view_def)
  moreover have "map_of (fs_dir fs3) file = None" using rmo(4) by simp
  ultimately show ?thesis
    using rmo(2) fr(1,2) p ag agree_on_env [OF ag] full
    by (intro exI [of _ "?c\<lparr>collection := collection ?c @ [t]\<rparr>"] exI [of _ fs3]) simp
qed

lemma init_load_spec:
  assumes "fs_ok (in_fs st)" "read_file (in_fs st) file = Some (ser_all (c_wal cs) es @ tail)"
    "parent_path file = GetDataDir (in_fs st)"
  shows "\<exists>w. init_load file (length (ser_all (c_wal cs) es)) s st =
      (Ret (Inr ()), st\<lparr>in_mem := new_Swappable_from s, in_wal := Some w, in_fs := tick (in_fs st)\<rparr>) \<and>
    wal_state cs (tick (in_fs st)) (sww_writer w) es tail \<and> Wal_GetPath w = file"
proof -
  have "parent_path file \<in> set (fs_dirs (in_fs st))"
    using assms(1,3) by (simp add: fs_ok_def datadir_ok_def GetDataDir_def)
  from LoadWALWriter_state [OF assms(1,2) this] show ?thesis
    by (auto simp: init_load_def LoadSwappableWalWriter_def Wal_GetPath_def WALWriterImpl_GetPath_def)
qed

lemma max_version_nonempty:
  "ops \<noteq> [] \<Longrightarrow> GetMaxVersion ops = Ret (Max (op_version ` set ops))"
proof (cases ops)
  case (Cons op rest)
  have "foldl max x xs = Max (insert x (set xs))" for x :: u64 and xs
  proof (induction xs arbitrary: x)
    case (Cons a xs)
    then show ?case by (cases "xs = []") (auto simp: max.commute max.left_commute)
  qed simp
  then show ?thesis using Cons by (simp add: GetMaxVersion_def)
qed simp

lemma init_file_read:
  assumes "codecs_ok cs" "fs_ok (in_fs st)" "is_log cs (in_fs st) file"
    "wal_ops cs (in_fs st) file \<noteq> []"
  shows "\<exists>es tail. read_file (in_fs st) file = Some (ser_all (c_wal cs) es @ tail) \<and>
    wal_ops cs (in_fs st) file = concat (map operations_of es) \<and>
    init_file cs threshold file st =
    (let s = replayed (wal_ops cs (in_fs st) file);
         st1 = st\<lparr>in_fs := tick (in_fs st),
           in_max := max (in_max st) (Max (op_version ` set (wal_ops cs (in_fs st) file)))\<rparr> in
     if MapStorage_Size s > threshold then init_persist cs file s st1
     else init_load file (length (ser_all (c_wal cs) es)) s st1)"
proof -
  obtain es tail where "read_file (in_fs st) file = Some (ser_all (c_wal cs) es @ tail)"
    "ReadWAL cs file (in_fs st) =
      (Ret (Inr (wal_ops cs (in_fs st) file, length (ser_all (c_wal cs) es))), tick (in_fs st))"
    "wal_ops cs (in_fs st) file = concat (map operations_of es)"
    "\<forall>op \<in> set (wal_ops cs (in_fs st) file). op_wf op"
    by (rule ReadWAL_is_log [OF assms(1-3)]) blast
  then show ?thesis
    using Apply_MapStorage_replayed(1) max_version_nonempty [OF assms(4)]
    by (auto simp: init_file_def Let_def)
qed

lemma init_file_empty:
  assumes "codecs_ok cs" "fs_ok (in_fs st)" "is_log cs (in_fs st) file"
    "wal_ops cs (in_fs st) file = []"
  shows "init_file cs threshold file st = (Undef, st\<lparr>in_fs := tick (in_fs st)\<rparr>)"
proof -
  obtain es tail where "ReadWAL cs file (in_fs st) =
      (Ret (Inr (wal_ops cs (in_fs st) file, length (ser_all (c_wal cs) es))), tick (in_fs st))"
    by (rule ReadWAL_is_log [OF assms(1-3)]) blast
  then show ?thesis
    using assms(4) by (simp add: init_file_def Apply_MapStorage_def GetMaxVersion_def)
qed

section \<open>All logs\<close>

text \<open>
  What start-up makes of the logs, as functions of their operations: the big logs pile up as
  tables in the order in which they are found, and each small log takes the place of whatever
  was in memory before.
\<close>

definition is_big :: "nat \<Rightarrow> Operation list \<Rightarrow> bool" where
  "is_big threshold ops \<longleftrightarrow> MapStorage_Size (replayed ops) > threshold"

fun rec_tables ::
  "nat \<Rightarrow> Operation list list \<Rightarrow> (string \<Rightarrow> Value option) \<Rightarrow> string \<Rightarrow> Value option" where
  "rec_tables n [] tv = tv"
| "rec_tables n (ops # logs) tv =
     rec_tables n logs (if is_big n ops then tv ++ replay ops Map.empty else tv)"

fun rec_mem :: "nat \<Rightarrow> Operation list list \<Rightarrow> SwappableMemoryStorage \<Rightarrow> SwappableMemoryStorage" where
  "rec_mem n [] m = m"
| "rec_mem n (ops # logs) m =
     rec_mem n logs (if is_big n ops then m else new_Swappable_from (replayed ops))"

fun rec_wal :: "nat \<Rightarrow> (path \<times> Operation list) list \<Rightarrow> path option \<Rightarrow> path option" where
  "rec_wal n [] p = p"
| "rec_wal n ((file, ops) # logs) p = rec_wal n logs (if is_big n ops then p else Some file)"

fun rec_max :: "Operation list list \<Rightarrow> u64 \<Rightarrow> u64" where
  "rec_max [] v = v"
| "rec_max (ops # logs) v = rec_max logs (max v (Max (op_version ` set ops)))"

text \<open>The log adopted so far: its writer stands behind the last entry it has of the file.\<close>

definition wal_at ::
  "codecs \<Rightarrow> fs \<Rightarrow> fs \<Rightarrow> SwappableWalWriterImpl option \<Rightarrow> path option \<Rightarrow> bool" where
  "wal_at cs fs0 fs w p \<longleftrightarrow> (case p of
       None \<Rightarrow> w = None
     | Some file \<Rightarrow> (\<exists>wr es tail. w = Some wr \<and> wal_state cs fs (sww_writer wr) es tail \<and>
         concat (map operations_of es) = wal_ops cs fs0 file \<and> Wal_GetPath wr = file))"

lemma wal_at_agree:
  "wal_at cs fs0 fs w p \<Longrightarrow> agree_on S fs fs' \<Longrightarrow> (\<forall>file. p = Some file \<longrightarrow> file \<in> S) \<Longrightarrow> wal_at cs fs0 fs' w p"
  using wal_state_agree [of cs fs _ _ _ S fs']
  by (auto simp: wal_at_def Wal_GetPath_def WALWriterImpl_GetPath_def split: option.splits) blast

text \<open>What holds between two logs; \<open>tv\<close> and \<open>p\<close> are the tables and the log adopted so far, \<open>fs0\<close> the
  directory that the search found.\<close>

definition init_inv ::
  "codecs \<Rightarrow> fs \<Rightarrow> path list \<Rightarrow> (string \<Rightarrow> Value option) \<Rightarrow> path option \<Rightarrow> init_state \<Rightarrow> bool" where
  "init_inv cs fs0 files tv p st \<longleftrightarrow> codecs_ok cs \<and> fs_ok (in_fs st) \<and> same_env fs0 (in_fs st) \<and>
     coll_inv cs (in_fs st) (collection (in_coll st)) \<and>
     tables_view cs (in_fs st) (collection (in_coll st)) = tv \<and>
     wal_at cs fs0 (in_fs st) (in_wal st) p \<and> (\<forall>f. p = Some f \<longrightarrow> extension f = ''.wal'' \<and> f \<notin> set files) \<and>
     distinct files \<and>
     (\<forall>f \<in> set files. is_log cs (in_fs st) f \<and> wal_ops cs (in_fs st) f = wal_ops cs fs0 f)"

text \<open>A log fits when the table made of its operations does not outgrow a file offset. Start-up also
  needs an operation in it: the greatest version is taken of its first one.\<close>

definition log_fits :: "codecs \<Rightarrow> Operation list \<Rightarrow> bool" where
  "log_fits cs ops \<longleftrightarrow> length (table_bytes cs (sort (ToEntries (ms_map (replayed ops))))) < 2 ^ 64"

definition log_ok :: "codecs \<Rightarrow> Operation list \<Rightarrow> bool" where
  "log_ok cs ops \<longleftrightarrow> ops \<noteq> [] \<and> log_fits cs ops"

lemma is_log_dom: "is_log cs fs f \<Longrightarrow> f \<in> dom (map_of (fs_dir fs))"
  by (auto simp: is_log_def read_file_def)

lemma wal_at_dom: "wal_at cs fs0 fs w (Some f) \<Longrightarrow> f \<in> dom (map_of (fs_dir fs))"
  by (auto simp: wal_at_def wal_state_def Wal_GetPath_def WALWriterImpl_GetPath_def)

lemma init_inv_keep:
  assumes i: "init_inv cs fs0 (f # files) tv p st" and ag: "agree_on (kept_logs (in_fs st) f) (in_fs st) fs'"
    and ok: "fs_ok fs'"
  shows "\<forall>g \<in> set files. is_log cs fs' g \<and> wal_ops cs fs' g = wal_ops cs fs0 g"
    "wal_at cs fs0 fs' (in_wal st) p"
proof -
  note d = i [unfolded init_inv_def]
  have g: "g \<in> kept_logs (in_fs st) f" if "g \<in> set files" for g
  proof -
    have "is_log cs (in_fs st) g" "g \<noteq> f" using d that by auto
    then show ?thesis using is_log_dom [of cs "in_fs st" g] by (simp add: kept_logs_def is_log_def)
  qed
  show "\<forall>g \<in> set files. is_log cs fs' g \<and> wal_ops cs fs' g = wal_ops cs fs0 g"
    using is_log_agree [OF ag g _ ok] d by auto
  show "wal_at cs fs0 fs' (in_wal st) p"
  proof (rule wal_at_agree [OF _ ag])
    show w: "wal_at cs fs0 (in_fs st) (in_wal st) p" using d by simp
    show "\<forall>file. p = Some file \<longrightarrow> file \<in> kept_logs (in_fs st) f"
    proof (intro allI impI)
      fix g assume "p = Some g"
      then show "g \<in> kept_logs (in_fs st) f"
        using d wal_at_dom [of cs fs0 "in_fs st" "in_wal st" g] w by (auto simp: kept_logs_def)
    qed
  qed
qed

lemma init_file_step:
  assumes i: "init_inv cs fs0 (f # files) tv p st" and log: "log_ok cs (wal_ops cs fs0 f)"
  defines "ops \<equiv> wal_ops cs fs0 f"
  shows "\<exists>st'. init_file cs n f st = (Ret (Inr ()), st') \<and>
    init_inv cs fs0 files (if is_big n ops then tv ++ replay ops Map.empty else tv)
      (if is_big n ops then p else Some f) st' \<and>
    in_mem st' = (if is_big n ops then in_mem st else new_Swappable_from (replayed ops)) \<and>
    in_max st' = max (in_max st) (Max (op_version ` set ops))"
proof -
  note d = i [unfolded init_inv_def]
  have cs: "codecs_ok cs" and ok: "fs_ok (in_fs st)" and lf: "is_log cs (in_fs st) f"
    and coll: "coll_inv cs (in_fs st) (collection (in_coll st))"
    and tv: "tables_view cs (in_fs st) (collection (in_coll st)) = tv"
    and lo: "wal_ops cs (in_fs st) f = ops" using d by (simp_all add: ops_def)
  have ne: "wal_ops cs (in_fs st) f \<noteq> []" using log lo by (simp add: log_ok_def ops_def)
  let ?st = "st\<lparr>in_fs := tick (in_fs st), in_max := max (in_max st) (Max (op_version ` set ops))\<rparr>"
  from init_file_read [OF cs ok lf ne, of n] obtain es tail where
    rd: "read_file (in_fs st) f = Some (ser_all (c_wal cs) es @ tail)"
    and es: "concat (map operations_of es) = ops"
    and run: "init_file cs n f st = (if is_big n ops then init_persist cs f (replayed ops) ?st
      else init_load f (length (ser_all (c_wal cs) es)) (replayed ops) ?st)"
    unfolding lo by (auto simp: Let_def is_big_def)
  have ok': "fs_ok (in_fs ?st)" using ok by simp
  have wf: "\<forall>op \<in> set ops. op_wf op"
    by (rule ReadWAL_is_log [OF cs ok lf]) (simp add: lo)
  note rp = Apply_MapStorage_replayed [OF wf]
  have ext: "extension f = ''.wal''" "parent_path f = GetDataDir (in_fs ?st)"
    using lf by (simp_all add: is_log_def)
  show ?thesis
  proof (cases "is_big n ops")
    case True
    have c': "coll_inv cs (in_fs ?st) (collection (in_coll ?st))" using coll by (simp add: tick_clock)
    have tt: "tables_view cs (tick (in_fs st)) (collection (in_coll st)) = tv"
      using tables_view_agree [OF coll agree_on_tick] tv by simp
    from init_persist_spec [OF cs ok' c' rp(2) _ ext(1)] log obtain c fs' where pr:
      "init_persist cs f (replayed ops) ?st = (Ret (Inr ()), ?st\<lparr>in_coll := c, in_fs := fs'\<rparr>)"
      "fs_ok fs'" "same_env (in_fs ?st) fs'" "coll_inv cs fs' (collection c)"
      "tables_view cs fs' (collection c) = tv ++ ms_view (replayed ops)"
      "agree_on (other_files (in_fs ?st) - {f}) (in_fs ?st) fs'"
      by (auto simp: log_ok_def log_fits_def ops_def tt)
    have "kept_logs (in_fs st) f \<subseteq> other_files (in_fs ?st) - {f}"
      using wal_other [OF ok'] by (auto simp: kept_logs_def)
    then have "agree_on (kept_logs (in_fs st) f) (in_fs ?st) fs'" using agree_on_mono [OF pr(6)] by blast
    then have ag: "agree_on (kept_logs (in_fs st) f) (in_fs st) fs'"
      using agree_on_trans [OF agree_on_tick] by simp
    note k = init_inv_keep [OF i ag pr(2)] and e = agree_on_env [OF ag]
    show ?thesis
      using run True pr rp(3) k d same_env_trans [OF _ e]
      by (intro exI [of _ "?st\<lparr>in_coll := c, in_fs := fs'\<rparr>"]) (simp add: init_inv_def)
  next
    case False
    have rd': "read_file (in_fs ?st) f = Some (ser_all (c_wal cs) es @ tail)" using rd by simp
    from init_load_spec [OF ok' rd' ext(2), of "replayed ops"] obtain w where ld:
      "init_load f (length (ser_all (c_wal cs) es)) (replayed ops) ?st = (Ret (Inr ()),
        ?st\<lparr>in_mem := new_Swappable_from (replayed ops), in_wal := Some w, in_fs := tick (tick (in_fs st))\<rparr>)"
      "wal_state cs (tick (tick (in_fs st))) (sww_writer w) es tail" "Wal_GetPath w = f" by auto
    have ag: "agree_on S (in_fs st) (tick (tick (in_fs st)))" for S
      by (rule agree_on_trans [OF agree_on_tick agree_on_tick])
    have ok2: "fs_ok (tick (tick (in_fs st)))" using ok by simp
    note k = init_inv_keep [OF i ag ok2] and e = agree_on_env [OF ag]
    have "init_inv cs fs0 files tv (Some f) (?st\<lparr>in_mem := new_Swappable_from (replayed ops),
        in_wal := Some w, in_fs := tick (tick (in_fs st))\<rparr>)"
      using d k(1) ok2 es ld(2,3) same_env_trans [OF _ e] coll_inv_agree [OF coll ag] tables_view_agree [OF coll ag] ext(1)
      by (auto simp: init_inv_def wal_at_def ops_def)
    then show ?thesis using run False ld(1) by auto
  qed
qed

lemma init_files_spec:
  assumes "init_inv cs fs0 files tv p st" "\<forall>f \<in> set files. log_ok cs (wal_ops cs fs0 f)"
  defines "logs \<equiv> map (wal_ops cs fs0) files"
  shows "\<exists>st'. init_files cs n files st = (Ret (Inr ()), st') \<and>
    init_inv cs fs0 [] (rec_tables n logs tv) (rec_wal n (zip files logs) p) st' \<and>
    in_mem st' = rec_mem n logs (in_mem st) \<and> in_max st' = rec_max logs (in_max st)"
  using assms(1,2) unfolding logs_def
proof (induction files arbitrary: st tv p)
  case (Cons f files)
  from init_file_step [OF Cons.prems(1), of n] Cons.prems(2) obtain st' where s:
    "init_file cs n f st = (Ret (Inr ()), st')"
    "init_inv cs fs0 files (if is_big n (wal_ops cs fs0 f)
        then tv ++ replay (wal_ops cs fs0 f) Map.empty else tv)
      (if is_big n (wal_ops cs fs0 f) then p else Some f) st'"
    "in_mem st' = (if is_big n (wal_ops cs fs0 f) then in_mem st
      else new_Swappable_from (replayed (wal_ops cs fs0 f)))"
    "in_max st' = max (in_max st) (Max (op_version ` set (wal_ops cs fs0 f)))" by auto
  show ?case using Cons.IH [OF s(2)] Cons.prems(2) s(1,3,4) by simp
qed simp

section \<open>Start-up\<close>

lemma wal_fresh_frame:
  assumes "fs_ok fs" "agree_on (- {format_path fs (fs_uuid fs n) ''wal''}) fs fs'" "coll_inv cs fs ps"
  shows "coll_inv cs fs' ps" "tables_view cs fs' ps = tables_view cs fs ps"
proof -
  let ?p = "format_path fs (fs_uuid fs n) ''wal''"
  have "extension ?p = ''.wal''" using assms(1) by (simp add: fs_ok_def extension_format)
  then have n: "?p \<notin> table_files fs" "?p \<noteq> meta_path fs"
    using wal_not_table [OF assms(1)] wal_not_meta [OF assms(1)] by blast+
  then have "insert (meta_path fs) (table_files fs) \<subseteq> - {?p}" "table_files fs \<subseteq> - {?p}" by auto
  then show "coll_inv cs fs' ps" "tables_view cs fs' ps = tables_view cs fs ps"
    using coll_inv_agree [OF assms(3)] tables_view_agree [OF assms(3)] agree_on_mono [OF assms(2)] by blast+
qed

lemma NewSwappableWalWriter_state:
  assumes "fs_ok fs" "coll_inv cs fs ps"
  shows "\<exists>w fs'. NewSwappableWalWriter fs = (Inr w, fs') \<and> fs_ok fs' \<and>
    wal_state cs fs' (sww_writer w) [] [] \<and> coll_inv cs fs' ps \<and>
    tables_view cs fs' ps = tables_view cs fs ps \<and>
    Wal_GetPath w = format_path fs (fs_uuid fs (fs_uuid_pos fs)) ''wal''"
proof -
  from NewWALWriter_state [OF assms(1), of cs] obtain w fs' where n: "NewWALWriter fs = (Inr w, fs')"
    "wal_state cs fs' w [] []" "fs_ok fs'"
    "wal_path w = format_path fs (fs_uuid fs (fs_uuid_pos fs)) ''wal''"
    "agree_on (- {wal_path w}) fs fs'" by blast
  then show ?thesis
    using wal_fresh_frame [OF assms(1) n(5) [unfolded n(4)] assms(2)]
    by (auto simp: NewSwappableWalWriter_def Wal_GetPath_def WALWriterImpl_GetPath_def)
qed

text \<open>A log named by a later UUID is not in the directory of before.\<close>

lemma later_log_new:
  assumes "fs_ok fs" "same_env fs fs'"
  shows "map_of (fs_dir fs) (format_path fs' (fs_uuid fs' (fs_uuid_pos fs')) ''wal'') = None"
proof -
  have "fresh_ok fs" "fs_uuid_pos fs \<le> fs_uuid_pos fs'" using assms by (simp_all add: fs_ok_def same_env_def)
  moreover have "''wal'' \<in> set file_extensions" by (simp add: file_extensions_def)
  ultimately have "map_of (fs_dir fs) (format_path fs (fs_uuid fs (fs_uuid_pos fs')) ''wal'') = None"
    by (simp add: fresh_ok_def)
  then show ?thesis using assms(2) by (simp add: format_path_def same_env_def GetDataDir_def)
qed

lemma wal_ops_clock [simp]: "codecs_ok cs \<Longrightarrow> fs_ok fs \<Longrightarrow> is_log cs fs f \<Longrightarrow>
  wal_ops cs (fs\<lparr>fs_clock := k\<rparr>) f = wal_ops cs fs f"
  using is_log_agree(2) [OF agree_on_clock [of UNIV fs k], of f cs] by simp

lemma init_inv_start:
  assumes "codecs_ok cs" "fs_ok fs" "order_ok fs" "coll_inv cs fs ps"
    "\<forall>f \<in> set (wal_files fs). is_log cs fs f"
  shows "init_inv cs fs (wal_files fs) (tables_view cs fs ps) None
    \<lparr>in_coll = \<lparr>collection = ps\<rparr>, in_mem = m, in_wal = None, in_max = v, in_fs = fs\<lparr>fs_clock := k\<rparr>\<rparr>"
proof -
  have ag: "agree_on S fs (fs\<lparr>fs_clock := k\<rparr>)" for S by simp
  have "is_log cs (fs\<lparr>fs_clock := k\<rparr>) f \<and> wal_ops cs (fs\<lparr>fs_clock := k\<rparr>) f = wal_ops cs fs f"
    if "f \<in> set (wal_files fs)" for f
    using is_log_agree [OF ag [of UNIV], of f cs] assms(1,2,5) that by simp
  then show ?thesis
    using assms tables_view_agree [OF assms(4) ag] wal_files_set(2) [OF assms(2,3)] agree_on_env [OF ag]
    by (auto simp: init_inv_def wal_at_def)
qed

text \<open>What a restart recovers, for any set of logs. The writer is the one of the last small log, behind
  its operations, or that of a new log, which was not in the directory.\<close>

definition current_log :: "codecs \<Rightarrow> nat \<Rightarrow> fs \<Rightarrow> SwappableWalWriterImpl \<Rightarrow> fs \<Rightarrow> bool" where
  "current_log cs n fs w fs' \<longleftrightarrow> (\<exists>es tail. wal_state cs fs' (sww_writer w) es tail \<and>
     (case rec_wal n (zip (wal_files fs) (map (wal_ops cs fs) (wal_files fs))) None of
        Some f \<Rightarrow> Wal_GetPath w = f \<and> concat (map operations_of es) = wal_ops cs fs f
      | None \<Rightarrow> map_of (fs_dir fs) (Wal_GetPath w) = None \<and> es = [] \<and> tail = []))"

definition recovered ::
  "codecs \<Rightarrow> nat \<Rightarrow> fs \<Rightarrow> PersistentStorage list \<Rightarrow> storages \<Rightarrow> fs \<Rightarrow> bool" where
  "recovered cs n fs ps so fs' \<longleftrightarrow>
     (let logs = map (wal_ops cs fs) (wal_files fs) in
      fs_ok fs' \<and> coll_inv cs fs' (collection (so_coll so)) \<and>
      tables_view cs fs' (collection (so_coll so)) = rec_tables n logs (tables_view cs fs ps) \<and>
      so_mem so = rec_mem n logs new_Swappable \<and>
      vng_current (so_gen so) = rec_max logs 0 + 1 \<and> current_log cs n fs (so_wal so) fs')"

lemma InitializeStorages_recovered:
  assumes "codecs_ok cs" "fs_ok fs" "order_ok fs" "coll_inv cs fs ps"
    and logs: "\<forall>f \<in> set (wal_files fs). is_log cs fs f \<and> log_ok cs (wal_ops cs fs f)"
  shows "\<exists>so fs'. InitializeStorages cs n fs = (Ret (Inr so), fs') \<and> recovered cs n fs ps so fs'"
proof -
  let ?files = "wal_files fs" and ?logs = "map (wal_ops cs fs) (wal_files fs)"
  let ?p = "rec_wal n (zip ?files ?logs) None"
  from new_PersistentStorageCollection_restart [OF assms(2,4)] obtain k where
    c: "new_PersistentStorageCollection cs fs = (\<lparr>collection = ps\<rparr>, fs\<lparr>fs_clock := k\<rparr>)" by blast
  let ?fs2 = "fs\<lparr>fs_clock := Suc k\<rparr>"
  let ?st = "\<lparr>in_coll = \<lparr>collection = ps\<rparr>, in_mem = new_Swappable, in_wal = None, in_max = 0, in_fs = ?fs2\<rparr>"
  have s: "SearchWALFiles (fs\<lparr>fs_clock := k\<rparr>) = (Inr ?files, ?fs2)"
    using SearchWALFiles_ok [of "fs\<lparr>fs_clock := k\<rparr>"] assms(2) by (simp add: tick_clock)
  have lg: "\<forall>f \<in> set ?files. is_log cs fs f" "\<forall>f \<in> set ?files. log_ok cs (wal_ops cs fs f)" using logs by auto
  from init_files_spec [OF init_inv_start [OF assms(1-4) lg(1), of new_Swappable 0 "Suc k"] lg(2), of n] obtain st where
    f: "init_files cs n ?files ?st = (Ret (Inr ()), st)"
    "init_inv cs fs [] (rec_tables n ?logs (tables_view cs fs ps)) ?p st"
    "in_mem st = rec_mem n ?logs new_Swappable" "in_max st = rec_max ?logs 0" by auto
  note i = f(2) [unfolded init_inv_def]
  show ?thesis
  proof (cases ?p)
    case (Some p)
    with i obtain w es tail where "in_wal st = Some w" "wal_state cs (in_fs st) (sww_writer w) es tail"
      "concat (map operations_of es) = wal_ops cs fs p" "Wal_GetPath w = p" by (auto simp: wal_at_def)
    moreover from this Some have "current_log cs n fs w (in_fs st)" by (auto simp: current_log_def)
    ultimately show ?thesis
      using c s f i Some
      by (auto simp: InitializeStorages_def recovered_def Let_def new_VersionNumberGenerator_def)
  next
    case None
    with i have w: "in_wal st = None" by (simp add: wal_at_def)
    from i have "fs_ok (in_fs st)" "coll_inv cs (in_fs st) (collection (in_coll st))" by simp_all
    from NewSwappableWalWriter_state [OF this] obtain w fs3 where
      n: "NewSwappableWalWriter (in_fs st) = (Inr w, fs3)" "fs_ok fs3"
      "wal_state cs fs3 (sww_writer w) [] []" "coll_inv cs fs3 (collection (in_coll st))"
      "tables_view cs fs3 (collection (in_coll st)) = tables_view cs (in_fs st) (collection (in_coll st))"
      "Wal_GetPath w = format_path (in_fs st) (fs_uuid (in_fs st) (fs_uuid_pos (in_fs st))) ''wal''"
      by blast
    have "map_of (fs_dir fs) (Wal_GetPath w) = None" using later_log_new [OF assms(2)] i n(6) by simp
    then have "current_log cs n fs w fs3" using n(3) None by (auto simp: current_log_def)
    then show ?thesis
      using c s f i None w n
      by (auto simp: InitializeStorages_def recovered_def Let_def new_VersionNumberGenerator_def)
  qed
qed

text \<open>A log without operations is enough to make start-up read past the end of an empty vector.\<close>

lemma InitializeStorages_empty_log:
  assumes "codecs_ok cs" "fs_ok fs" "coll_inv cs fs ps" "wal_files fs = f # files" "is_log cs fs f"
    "wal_ops cs fs f = []"
  shows "fst (InitializeStorages cs n fs) = Undef"
proof -
  from new_PersistentStorageCollection_restart [OF assms(2,3)] obtain k where
    c: "new_PersistentStorageCollection cs fs = (\<lparr>collection = ps\<rparr>, fs\<lparr>fs_clock := k\<rparr>)" by blast
  let ?fs2 = "fs\<lparr>fs_clock := Suc k\<rparr>"
  have s: "SearchWALFiles (fs\<lparr>fs_clock := k\<rparr>) = (Inr (f # files), ?fs2)"
    using SearchWALFiles_ok [of "fs\<lparr>fs_clock := k\<rparr>"] assms(2,4) by (simp add: tick_clock)
  have "is_log cs ?fs2 f" using assms(5) by (simp add: is_log_def read_file_def GetDataDir_def)
  then have "init_file cs n f st = (Undef, st\<lparr>in_fs := tick (in_fs st)\<rparr>)" if "in_fs st = ?fs2" for st
    using init_file_empty [OF assms(1), of st f n] that assms(1,2,5,6) by simp
  then show ?thesis using c s by (simp add: InitializeStorages_def Let_def)
qed

lemma small_logs:
  assumes "\<forall>ops \<in> set logs. \<not> is_big n ops"
  shows "rec_tables n logs tv = tv" "logs \<noteq> [] \<Longrightarrow> rec_mem n logs m = new_Swappable_from (replayed (last logs))"
  using assms by (induction logs arbitrary: tv m) auto

end
