(* ===== verification/Storage_System.thy ===== *)
theory Storage_System
  imports Recovery
begin

text \<open>
  \<open>StorageSystem\<close> (\<open>storage_system.hpp\<close>, \<open>storage_system.cpp\<close>): a write goes to the log and then
  to the memory storage, a read looks in memory and then in the tables. The second half relates
  the system to one abstract map and to what a restart would recover.
\<close>

section \<open>Operations\<close>

record system =
  ss_wal :: SwappableWalWriterImpl
  ss_mem :: SwappableMemoryStorage
  ss_tables :: PersistentStorageCollection
  ss_fs :: fs

definition key_not_found :: "string \<Rightarrow> Error" where
  "key_not_found key = MakeError kNotFound (''key '' @ key @ '' not found'')"

text \<open>A value found in memory is returned without its version, which \<open>ValueDTO\<close> then leaves at 0.\<close>

definition StorageSystem_Get :: "codecs \<Rightarrow> string \<Rightarrow> system \<Rightarrow> (ValueDTO res \<times> system) exec" where
  "StorageSystem_Get cs key s =
     exec_bind (Swappable_Get key (ss_mem s)) (\<lambda>(mem_opt, mem).
       let s1 = s\<lparr>ss_mem := mem\<rparr> in
       case mem_opt of
         Inr res \<Rightarrow> Ret (case val_value res of
             Some v \<Rightarrow> Inr \<lparr>vd_value = v, vd_version = 0\<rparr>
           | None \<Rightarrow> Inl (key_not_found key), s1)
       | Inl _ \<Rightarrow>
           exec_bind (Collection_Get cs (ss_fs s1) (ss_tables s1) key) (\<lambda>persistent_opt.
             Ret (case persistent_opt of
                 Inr res \<Rightarrow> (case se_value res of
                     Some v \<Rightarrow> Inr \<lparr>vd_value = v, vd_version = se_version res\<rparr>
                   | None \<Rightarrow> Inl (key_not_found key))
               | Inl _ \<Rightarrow> Inl (key_not_found key), s1)))"

definition older_than :: "u64 \<Rightarrow> ValueDTO res \<Rightarrow> bool" where
  "older_than version old_opt = (case old_opt of Inl _ \<Rightarrow> False | Inr old \<Rightarrow> version < vd_version old)"

definition StorageSystem_Insert :: "codecs \<Rightarrow> KwPair \<Rightarrow> system \<Rightarrow> (unit res \<times> system) exec" where
  "StorageSystem_Insert cs kw_pair s =
     exec_bind (StorageSystem_Get cs (kw_key kw_pair) s) (\<lambda>(old_opt, s1).
       if older_than (kw_version kw_pair) old_opt then Ret (Inr (), s1)
       else (case Wal_Insert cs kw_pair (ss_wal s1, ss_fs s1) of
           (Inl e, w, fs1) \<Rightarrow> Ret (Inl e, s1\<lparr>ss_wal := w, ss_fs := fs1\<rparr>)
         | (Inr _, w, fs1) \<Rightarrow>
             exec_bind (Swappable_Insert kw_pair (ss_mem s1)) (\<lambda>mem.
               Ret (Inr (), s1\<lparr>ss_wal := w, ss_fs := fs1, ss_mem := mem\<rparr>))))"

definition StorageSystem_Remove :: "codecs \<Rightarrow> string \<Rightarrow> u64 \<Rightarrow> system \<Rightarrow> (unit res \<times> system) exec" where
  "StorageSystem_Remove cs key version s =
     exec_bind (StorageSystem_Get cs key s) (\<lambda>(old_opt, s1).
       if older_than version old_opt then Ret (Inr (), s1)
       else (case Wal_Remove cs key version (ss_wal s1, ss_fs s1) of
           (Inl e, w, fs1) \<Rightarrow> Ret (Inl e, s1\<lparr>ss_wal := w, ss_fs := fs1\<rparr>)
         | (Inr _, w, fs1) \<Rightarrow>
             exec_bind (Swappable_Remove key version (ss_mem s1)) (\<lambda>mem.
               Ret (Inr (), s1\<lparr>ss_wal := w, ss_fs := fs1, ss_mem := mem\<rparr>))))"

section \<open>The abstract map\<close>

text \<open>
  \<open>sys_view\<close>: memory over tables. \<open>sys_inv\<close>: the components' invariants, and a log file under a
  name that no table has. \<open>durable\<close>: replaying the log gives the memory storage, or, while a
  collection runs, what was written since it started.
\<close>

definition sys_view :: "codecs \<Rightarrow> system \<Rightarrow> string \<Rightarrow> Value option" where
  "sys_view cs s = tables_view cs (ss_fs s) (collection (ss_tables s)) ++ sw_view (ss_mem s)"

definition sys_inv :: "codecs \<Rightarrow> system \<Rightarrow> bool" where
  "sys_inv cs s \<longleftrightarrow> wal_inv cs (ss_wal s, ss_fs s) \<and> sw_inv (ss_mem s) \<and>
     coll_inv cs (ss_fs s) (collection (ss_tables s)) \<and>
     extension (Wal_GetPath (ss_wal s)) = ''.wal'' \<and>
     parent_path (Wal_GetPath (ss_wal s)) = GetDataDir (ss_fs s)"

definition sys_log :: "codecs \<Rightarrow> system \<Rightarrow> Operation list" where
  "sys_log cs s = wal_logged cs (ss_wal s, ss_fs s)"

definition durable :: "codecs \<Rightarrow> system \<Rightarrow> bool" where
  "durable cs s \<longleftrightarrow> replay (sys_log cs s) Map.empty =
     (if sw_idle (ss_mem s) then sw_view (ss_mem s) else sw_recent (ss_mem s))"

lemma sys_invD:
  assumes "sys_inv cs s"
  shows "codecs_ok cs" "fs_ok (ss_fs s)" "sw_inv (ss_mem s)"
    "coll_inv cs (ss_fs s) (collection (ss_tables s))" "wal_inv cs (ss_wal s, ss_fs s)"
    "Wal_GetPath (ss_wal s) \<notin> table_files (ss_fs s)"
    "Wal_GetPath (ss_wal s) \<noteq> meta_path (ss_fs s)"
  using assms wal_not_table wal_not_meta by (auto simp: sys_inv_def wal_inv_def)

text \<open>What a lookup returns, from the view of the memory storage and of the tables.\<close>

definition lookup_result :: "string \<Rightarrow> Value option \<Rightarrow> Value option \<Rightarrow> ValueDTO res" where
  "lookup_result key mem tab = (case mem of
       Some v \<Rightarrow> (case val_value v of
           Some x \<Rightarrow> Inr \<lparr>vd_value = x, vd_version = 0\<rparr> | None \<Rightarrow> Inl (key_not_found key))
     | None \<Rightarrow> (case tab of
           Some v \<Rightarrow> (case val_value v of
               Some x \<Rightarrow> Inr \<lparr>vd_value = x, vd_version = val_version v\<rparr>
             | None \<Rightarrow> Inl (key_not_found key))
         | None \<Rightarrow> Inl (key_not_found key)))"

lemma tables_find:
  "tables_view cs fs ps k = map_option entry_value
     (List.find (\<lambda>e. se_key e = k) (concat (map (ps_entries cs fs) (rev ps))))"
  by (simp add: tables_view_def entries_view_def)

lemma StorageSystem_Get_view:
  assumes "sys_inv cs s"
  shows "StorageSystem_Get cs k s = Ret (lookup_result k (sw_view (ss_mem s) k)
    (tables_view cs (ss_fs s) (collection (ss_tables s)) k), s)"
proof -
  have "\<forall>st \<in> set (collection (ss_tables s)). ps_ok cs (ss_fs s) st"
    using sys_invD(4) [OF assms] by (simp add: coll_inv_def)
  note tab = Collection_Get_find [OF this, of k]
  show ?thesis
    unfolding StorageSystem_Get_def Swappable_Get_view [OF sys_invD(3) [OF assms]]
    by (auto simp: lookup_result_def tab tables_find entry_value_def split: option.splits)
qed

text \<open>A write to the log changes nothing but the log.\<close>

lemma sys_log_frame:
  assumes "sys_inv cs s" "agree_on (- {Wal_GetPath (ss_wal s)}) (ss_fs s) fs'"
  shows "coll_inv cs fs' (collection (ss_tables s))"
    "tables_view cs fs' (collection (ss_tables s)) = tables_view cs (ss_fs s) (collection (ss_tables s))"
proof -
  note i = sys_invD [OF assms(1)]
  have "insert (meta_path (ss_fs s)) (table_files (ss_fs s)) \<subseteq> - {Wal_GetPath (ss_wal s)}"
    "table_files (ss_fs s) \<subseteq> - {Wal_GetPath (ss_wal s)}" using i(6,7) by auto
  then show "coll_inv cs fs' (collection (ss_tables s))"
    "tables_view cs fs' (collection (ss_tables s)) = tables_view cs (ss_fs s) (collection (ss_tables s))"
    using coll_inv_agree [OF i(4)] tables_view_agree [OF i(4)] agree_on_mono [OF assms(2)] by blast+
qed

text \<open>What a write leaves as it is for the next start: the set of log files and the current one.\<close>

definition same_logs :: "system \<Rightarrow> system \<Rightarrow> bool" where
  "same_logs s s' \<longleftrightarrow> wal_files (ss_fs s') = wal_files (ss_fs s) \<and>
     order_ok (ss_fs s') = order_ok (ss_fs s) \<and> Wal_GetPath (ss_wal s') = Wal_GetPath (ss_wal s) \<and>
     sw_idle (ss_mem s') = sw_idle (ss_mem s)"

lemma same_logs_refl [simp]: "same_logs s s"
  by (simp add: same_logs_def)

lemma same_logs_trans: "same_logs a b \<Longrightarrow> same_logs b c \<Longrightarrow> same_logs a c"
  by (simp add: same_logs_def)

lemma sys_write:
  assumes "sys_inv cs s" "operations_of e = [op]"
  shows "\<exists>w fs'. Wal_WriteEntry cs e (ss_wal s, ss_fs s) = (Inr (), w, fs') \<and>
    (\<forall>mem. sw_inv mem \<longrightarrow> sys_inv cs (s\<lparr>ss_wal := w, ss_fs := fs', ss_mem := mem\<rparr>) \<and>
      sys_log cs (s\<lparr>ss_wal := w, ss_fs := fs', ss_mem := mem\<rparr>) = sys_log cs s @ [op] \<and>
      tables_view cs fs' (collection (ss_tables s)) = tables_view cs (ss_fs s) (collection (ss_tables s)) \<and>
      (sw_idle mem = sw_idle (ss_mem s) \<longrightarrow> same_logs s (s\<lparr>ss_wal := w, ss_fs := fs', ss_mem := mem\<rparr>)))"
proof -
  from Wal_WriteEntry_logged [OF sys_invD(5) [OF assms(1)], of e] assms(2) obtain w fs' where w:
    "Wal_WriteEntry cs e (ss_wal s, ss_fs s) = (Inr (), w, fs')" "wal_inv cs (w, fs')"
    "wal_logged cs (w, fs') = wal_logged cs (ss_wal s, ss_fs s) @ [op]"
    "agree_on (- {Wal_GetPath (ss_wal s)}) (ss_fs s) fs'" "Wal_GetPath w = Wal_GetPath (ss_wal s)"
    "fs_dir fs' = fs_dir (ss_fs s)" by auto
  note f = sys_log_frame [OF assms(1) w(4)]
  have "fs_order fs' = fs_order (ss_fs s)" using agree_on_env [OF w(4)] by (simp add: same_env_def)
  then show ?thesis
    using w f assms(1) same_env_dir [OF agree_on_env [OF w(4)]]
    by (auto simp: sys_inv_def sys_log_def same_logs_def wal_files_def order_ok_def)
qed

section \<open>Writes refine updates of the map\<close>

text \<open>
  A write whose version is not below the one that a lookup reports takes effect: the abstract map
  changes at the key, the log ends with the operation, and it stays durable.
\<close>

lemma StorageSystem_Insert_effect:
  assumes inv: "sys_inv cs s"
    and new: "\<not> older_than (kw_version p) (lookup_result (kw_key p) (sw_view (ss_mem s) (kw_key p))
      (tables_view cs (ss_fs s) (collection (ss_tables s)) (kw_key p)))"
  shows "\<exists>s'. StorageSystem_Insert cs p s = Ret (Inr (), s') \<and> sys_inv cs s' \<and>
    sys_view cs s' = (sys_view cs s)(kw_key p \<mapsto> \<lparr>val_value = Some (kw_value p), val_version = kw_version p\<rparr>) \<and>
    sys_log cs s' = sys_log cs s @ [insert_op p] \<and> (durable cs s \<longrightarrow> durable cs s') \<and>
    sw_view (ss_mem s') = (sw_view (ss_mem s))(kw_key p \<mapsto> \<lparr>val_value = Some (kw_value p), val_version = kw_version p\<rparr>) \<and>
    tables_view cs (ss_fs s') (collection (ss_tables s')) =
      tables_view cs (ss_fs s) (collection (ss_tables s)) \<and> same_logs s s'"
proof -
  let ?e = "WInsertOp \<lparr>wi_key = Some (kw_key p), wi_value = Some (kw_value p), wi_version = Some (kw_version p)\<rparr>"
  have "operations_of ?e = [insert_op p]" by (simp add: operations_of_def insert_op_def)
  from sys_write [OF inv this] obtain w fs' where w:
    "Wal_Insert cs p (ss_wal s, ss_fs s) = (Inr (), w, fs')"
    "\<And>mem. sw_inv mem \<Longrightarrow> sys_inv cs (s\<lparr>ss_wal := w, ss_fs := fs', ss_mem := mem\<rparr>) \<and>
      sys_log cs (s\<lparr>ss_wal := w, ss_fs := fs', ss_mem := mem\<rparr>) = sys_log cs s @ [insert_op p] \<and>
      tables_view cs fs' (collection (ss_tables s)) = tables_view cs (ss_fs s) (collection (ss_tables s)) \<and>
      (sw_idle mem = sw_idle (ss_mem s) \<longrightarrow> same_logs s (s\<lparr>ss_wal := w, ss_fs := fs', ss_mem := mem\<rparr>))"
    by (auto simp: Wal_Insert_def)
  from sw.insert_law [OF sys_invD(3) [OF inv], of p] obtain mem where m:
    "Swappable_Insert p (ss_mem s) = Ret mem" "sw_inv mem" "sw_view mem = (sw_view (ss_mem s))
      (kw_key p \<mapsto> \<lparr>val_value = Some (kw_value p), val_version = kw_version p\<rparr>)" by blast
  note mode = sw.insert_mode [OF sys_invD(3) [OF inv] m(1)]
  let ?s = "s\<lparr>ss_wal := w, ss_fs := fs', ss_mem := mem\<rparr>"
  have "StorageSystem_Insert cs p s = Ret (Inr (), ?s)"
    using w(1) m(1) new by (simp add: StorageSystem_Insert_def StorageSystem_Get_view [OF inv])
  moreover have "durable cs s \<longrightarrow> durable cs ?s"
    using w(2) [OF m(2)] m(3) mode by (simp add: durable_def replay_append)
  ultimately show ?thesis
    using w(2) [OF m(2)] m(3) mode by (auto simp: sys_view_def)
qed

lemma StorageSystem_Remove_effect:
  assumes inv: "sys_inv cs s"
    and new: "\<not> older_than ver (lookup_result k (sw_view (ss_mem s) k)
      (tables_view cs (ss_fs s) (collection (ss_tables s)) k))"
  shows "\<exists>s'. StorageSystem_Remove cs k ver s = Ret (Inr (), s') \<and> sys_inv cs s' \<and>
    sys_view cs s' = (sys_view cs s)(k \<mapsto> \<lparr>val_value = None, val_version = ver\<rparr>) \<and>
    sys_log cs s' = sys_log cs s @ [remove_op k ver] \<and> (durable cs s \<longrightarrow> durable cs s') \<and>
    sw_view (ss_mem s') = (sw_view (ss_mem s))(k \<mapsto> \<lparr>val_value = None, val_version = ver\<rparr>) \<and>
    tables_view cs (ss_fs s') (collection (ss_tables s')) =
      tables_view cs (ss_fs s) (collection (ss_tables s)) \<and> same_logs s s'"
proof -
  let ?e = "WRemoveOp \<lparr>wr_key = Some k, wr_version = Some ver\<rparr>"
  have "operations_of ?e = [remove_op k ver]" by (simp add: operations_of_def remove_op_def)
  from sys_write [OF inv this] obtain w fs' where w:
    "Wal_Remove cs k ver (ss_wal s, ss_fs s) = (Inr (), w, fs')"
    "\<And>mem. sw_inv mem \<Longrightarrow> sys_inv cs (s\<lparr>ss_wal := w, ss_fs := fs', ss_mem := mem\<rparr>) \<and>
      sys_log cs (s\<lparr>ss_wal := w, ss_fs := fs', ss_mem := mem\<rparr>) = sys_log cs s @ [remove_op k ver] \<and>
      tables_view cs fs' (collection (ss_tables s)) = tables_view cs (ss_fs s) (collection (ss_tables s)) \<and>
      (sw_idle mem = sw_idle (ss_mem s) \<longrightarrow> same_logs s (s\<lparr>ss_wal := w, ss_fs := fs', ss_mem := mem\<rparr>))"
    by (auto simp: Wal_Remove_def)
  from sw.remove_law [OF sys_invD(3) [OF inv], of k ver] obtain mem where m:
    "Swappable_Remove k ver (ss_mem s) = Ret mem" "sw_inv mem"
    "sw_view mem = (sw_view (ss_mem s))(k \<mapsto> \<lparr>val_value = None, val_version = ver\<rparr>)" by blast
  note mode = sw.remove_mode [OF sys_invD(3) [OF inv] m(1)]
  let ?s = "s\<lparr>ss_wal := w, ss_fs := fs', ss_mem := mem\<rparr>"
  have "StorageSystem_Remove cs k ver s = Ret (Inr (), ?s)"
    using w(1) m(1) new by (simp add: StorageSystem_Remove_def StorageSystem_Get_view [OF inv])
  moreover have "durable cs s \<longrightarrow> durable cs ?s"
    using w(2) [OF m(2)] m(3) mode by (simp add: durable_def replay_append)
  ultimately show ?thesis
    using w(2) [OF m(2)] m(3) mode by (auto simp: sys_view_def)
qed

lemma StorageSystem_omits:
  assumes "sys_inv cs s"
    "older_than ver (lookup_result k (sw_view (ss_mem s) k)
      (tables_view cs (ss_fs s) (collection (ss_tables s)) k))"
  shows "StorageSystem_Remove cs k ver s = Ret (Inr (), s)"
    "kw_key p = k \<Longrightarrow> kw_version p = ver \<Longrightarrow> StorageSystem_Insert cs p s = Ret (Inr (), s)"
  using assms by (simp_all add: StorageSystem_Remove_def StorageSystem_Insert_def
      StorageSystem_Get_view [OF assms(1)])

text \<open>The version check only ever stops a write of a key that is not in memory.\<close>

lemma older_than_memory: "mem \<noteq> None \<Longrightarrow> \<not> older_than ver (lookup_result k mem tab)"
  by (auto simp: older_than_def lookup_result_def split: option.splits)

lemma older_than_tables:
  "older_than ver (lookup_result k None tab) \<longleftrightarrow>
     (\<exists>v. tab = Some v \<and> val_value v \<noteq> None \<and> ver < val_version v)"
  by (auto simp: older_than_def lookup_result_def split: option.splits)

section \<open>Sequences of requests\<close>

datatype request = RInsert KwPair | RRemove string u64

definition request_key :: "request \<Rightarrow> string" where
  "request_key r = (case r of RInsert p \<Rightarrow> kw_key p | RRemove k _ \<Rightarrow> k)"

definition request_version :: "request \<Rightarrow> u64" where
  "request_version r = (case r of RInsert p \<Rightarrow> kw_version p | RRemove _ v \<Rightarrow> v)"

definition request_op :: "request \<Rightarrow> Operation" where
  "request_op r = (case r of RInsert p \<Rightarrow> insert_op p | RRemove k v \<Rightarrow> remove_op k v)"

definition serve :: "codecs \<Rightarrow> request \<Rightarrow> system \<Rightarrow> (unit res \<times> system) exec" where
  "serve cs r s = (case r of RInsert p \<Rightarrow> StorageSystem_Insert cs p s
     | RRemove k v \<Rightarrow> StorageSystem_Remove cs k v s)"

fun serve_all :: "codecs \<Rightarrow> request list \<Rightarrow> system \<Rightarrow> (unit res \<times> system) exec" where
  "serve_all cs [] s = Ret (Inr (), s)"
| "serve_all cs (r # rs) s = exec_bind (serve cs r s) (\<lambda>(res, s1). case res of
     Inl e \<Rightarrow> Ret (Inl e, s1) | Inr _ \<Rightarrow> serve_all cs rs s1)"

text \<open>
  The abstract store: a memory map over a map of tables, and the version guard as the code applies
  it. \<open>accepted\<close> gives the operations of a sequence of requests that take effect.
\<close>

definition omits :: "request \<Rightarrow> (string \<Rightarrow> Value option) \<Rightarrow> (string \<Rightarrow> Value option) \<Rightarrow> bool" where
  "omits r mem tab \<longleftrightarrow> older_than (request_version r)
     (lookup_result (request_key r) (mem (request_key r)) (tab (request_key r)))"

fun accepted ::
  "request list \<Rightarrow> (string \<Rightarrow> Value option) \<Rightarrow> (string \<Rightarrow> Value option) \<Rightarrow> Operation list" where
  "accepted [] mem tab = []"
| "accepted (r # rs) mem tab = (if omits r mem tab then accepted rs mem tab
     else request_op r # accepted rs (mem(request_key r \<mapsto> op_effect (request_op r))) tab)"

definition sys_tables :: "codecs \<Rightarrow> system \<Rightarrow> string \<Rightarrow> Value option" where
  "sys_tables cs s = tables_view cs (ss_fs s) (collection (ss_tables s))"

lemma sys_view_split: "sys_view cs s = sys_tables cs s ++ sw_view (ss_mem s)"
  by (simp add: sys_view_def sys_tables_def)

lemma op_key_request_op [simp]: "op_key (request_op r) = request_key r"
  by (cases r) (simp_all add: request_op_def request_key_def)

lemma replay_map_add: "replay ops (tab ++ mem) = tab ++ replay ops mem"
  by (induction ops arbitrary: mem) (simp_all flip: map_add_upd)

lemma serve_effect:
  assumes "sys_inv cs s"
  shows "\<exists>s'. serve cs r s = Ret (Inr (), s') \<and> sys_inv cs s' \<and>
    sw_view (ss_mem s') = replay (accepted [r] (sw_view (ss_mem s)) (sys_tables cs s)) (sw_view (ss_mem s)) \<and>
    sys_tables cs s' = sys_tables cs s \<and> same_logs s s' \<and>
    sys_log cs s' = sys_log cs s @ accepted [r] (sw_view (ss_mem s)) (sys_tables cs s) \<and>
    (durable cs s \<longrightarrow> durable cs s')"
proof (cases "omits r (sw_view (ss_mem s)) (sys_tables cs s)")
  case True
  then have "serve cs r s = Ret (Inr (), s)"
    by (cases r) (auto simp: serve_def omits_def sys_tables_def request_key_def request_version_def
        intro: StorageSystem_omits [OF assms])
  then show ?thesis using True assms by simp
next
  case False
  show ?thesis
  proof (cases r)
    case (RInsert p)
    then show ?thesis using False StorageSystem_Insert_effect [OF assms, of p]
      by (auto simp: serve_def omits_def sys_tables_def request_key_def request_version_def
          request_op_def op_effect_def insert_op_def)
  next
    case (RRemove k v)
    then show ?thesis using False StorageSystem_Remove_effect [OF assms, of v k]
      by (auto simp: serve_def omits_def sys_tables_def request_key_def request_version_def
          request_op_def op_effect_def remove_op_def)
  qed
qed

lemma serve_all_effect:
  "sys_inv cs s \<Longrightarrow> \<exists>s'. serve_all cs rs s = Ret (Inr (), s') \<and> sys_inv cs s' \<and>
     sw_view (ss_mem s') = replay (accepted rs (sw_view (ss_mem s)) (sys_tables cs s)) (sw_view (ss_mem s)) \<and>
     sys_tables cs s' = sys_tables cs s \<and> same_logs s s' \<and>
     sys_log cs s' = sys_log cs s @ accepted rs (sw_view (ss_mem s)) (sys_tables cs s) \<and>
     (durable cs s \<longrightarrow> durable cs s')"
proof (induction rs arbitrary: s)
  case (Cons r rs)
  from serve_effect [OF Cons.prems, of r] obtain s1 where s1: "serve cs r s = Ret (Inr (), s1)"
    "sys_inv cs s1" "sw_view (ss_mem s1) =
      replay (accepted [r] (sw_view (ss_mem s)) (sys_tables cs s)) (sw_view (ss_mem s))"
    "sys_tables cs s1 = sys_tables cs s" "same_logs s s1"
    "sys_log cs s1 = sys_log cs s @ accepted [r] (sw_view (ss_mem s)) (sys_tables cs s)"
    "durable cs s \<longrightarrow> durable cs s1" by blast
  from Cons.IH [OF s1(2)] obtain s' where s': "serve_all cs rs s1 = Ret (Inr (), s')" "sys_inv cs s'"
    "sw_view (ss_mem s') = replay (accepted rs (sw_view (ss_mem s1)) (sys_tables cs s1)) (sw_view (ss_mem s1))"
    "sys_tables cs s' = sys_tables cs s1" "same_logs s1 s'"
    "sys_log cs s' = sys_log cs s1 @ accepted rs (sw_view (ss_mem s1)) (sys_tables cs s1)"
    "durable cs s1 \<longrightarrow> durable cs s'" by blast
  show ?case
    using s1 s' same_logs_trans [OF s1(5) s'(5)] by (intro exI [of _ s']) auto
qed simp

section \<open>Restart\<close>

text \<open>
  A crash at any point between two requests, with no collection under way: the file system is all
  that is left, and start-up rebuilds the same map from it.
\<close>

lemma sw_view_new_from: "ms_inv m \<Longrightarrow> sw_view (new_Swappable_from m) = ms_view m"
  using sw_view_rep [OF rep_new_from] by simp

lemma sw_view_new [simp]: "sw_view new_Swappable = Map.empty"
  using sw_view_rep [OF rep_new] by simp

lemma sys_log_is_log:
  assumes "sys_inv cs s"
  shows "is_log cs (ss_fs s) (Wal_GetPath (ss_wal s))"
    "wal_ops cs (ss_fs s) (Wal_GetPath (ss_wal s)) = sys_log cs s"
    "\<forall>op \<in> set (sys_log cs s). op_wf op"
proof -
  note i = sys_invD [OF assms]
  from i(5) obtain es where w: "wal_state cs (ss_fs s) (sww_writer (ss_wal s)) es []"
    by (auto simp: wal_inv_def)
  then have "read_file (ss_fs s) (Wal_GetPath (ss_wal s)) = Some (ser_all (c_wal cs) es @ [])"
    using wal_state_read by (simp add: Wal_GetPath_def WALWriterImpl_GetPath_def)
  moreover have "d_parse (c_wal cs) [] = Eof" using delimited_parse_Nil [OF codecs_okD(1) [OF i(1)]] .
  ultimately show l: "is_log cs (ss_fs s) (Wal_GetPath (ss_wal s))"
    using assms unfolding is_log_def sys_inv_def by blast
  show o: "wal_ops cs (ss_fs s) (Wal_GetPath (ss_wal s)) = sys_log cs s"
    by (simp add: sys_log_def wal_logged_def)
  show "\<forall>op \<in> set (sys_log cs s). op_wf op"
    by (rule ReadWAL_is_log [OF i(1,2) l]) (simp add: o)
qed

lemma restart_view:
  assumes "sys_inv cs s" "durable cs s" "sw_idle (ss_mem s)" "order_ok (ss_fs s)"
    "wal_files (ss_fs s) = [Wal_GetPath (ss_wal s)]" "log_ok cs (sys_log cs s)"
  shows "\<exists>so fs'. InitializeStorages cs n (ss_fs s) = (Ret (Inr so), fs') \<and> fs_ok fs' \<and>
    coll_inv cs fs' (collection (so_coll so)) \<and>
    tables_view cs fs' (collection (so_coll so)) ++ sw_view (so_mem so) = sys_view cs s \<and>
    vng_current (so_gen so) = Max (op_version ` set (sys_log cs s)) + 1"
proof -
  note i = sys_invD [OF assms(1)] and l = sys_log_is_log [OF assms(1)]
  have "\<forall>f \<in> set (wal_files (ss_fs s)). is_log cs (ss_fs s) f \<and> log_ok cs (wal_ops cs (ss_fs s) f)"
    using l(1,2) assms(5,6) by simp
  from InitializeStorages_recovered [OF i(1,2) assms(4) i(4) this, of n] obtain so fs' where
    r: "InitializeStorages cs n (ss_fs s) = (Ret (Inr so), fs')"
      "recovered cs n (ss_fs s) (collection (ss_tables s)) so fs'" by blast
  note rp = Apply_MapStorage_replayed [OF l(3)]
  have v: "replay (sys_log cs s) Map.empty = sw_view (ss_mem s)" using assms(2,3) by (simp add: durable_def)
  have "tables_view cs fs' (collection (so_coll so)) ++ sw_view (so_mem so) = sys_view cs s"
    using r(2) assms(5) l(2) v rp(3) sw_view_new_from [OF rp(2)]
    by (auto simp: recovered_def sys_view_def Let_def)
  then show ?thesis
    using r assms(5) l(2) by (auto simp: recovered_def Let_def)
qed

lemma served_restart:
  assumes "sys_inv cs s" "durable cs s" "sw_idle (ss_mem s)" "order_ok (ss_fs s)"
    "wal_files (ss_fs s) = [Wal_GetPath (ss_wal s)]"
    "log_ok cs (sys_log cs s @ accepted rs (sw_view (ss_mem s)) (sys_tables cs s))"
  shows "\<exists>s' so fs'. serve_all cs rs s = Ret (Inr (), s') \<and>
    InitializeStorages cs n (ss_fs s') = (Ret (Inr so), fs') \<and>
    tables_view cs fs' (collection (so_coll so)) ++ sw_view (so_mem so) =
      replay (accepted rs (sw_view (ss_mem s)) (sys_tables cs s)) (sys_view cs s) \<and>
    vng_current (so_gen so) = Max (op_version ` set
      (sys_log cs s @ accepted rs (sw_view (ss_mem s)) (sys_tables cs s))) + 1"
proof -
  from serve_all_effect [OF assms(1), of rs] obtain s' where s': "serve_all cs rs s = Ret (Inr (), s')"
    "sys_inv cs s'" "sw_view (ss_mem s') =
      replay (accepted rs (sw_view (ss_mem s)) (sys_tables cs s)) (sw_view (ss_mem s))"
    "sys_tables cs s' = sys_tables cs s" "same_logs s s'"
    "sys_log cs s' = sys_log cs s @ accepted rs (sw_view (ss_mem s)) (sys_tables cs s)"
    "durable cs s \<longrightarrow> durable cs s'" by blast
  have "durable cs s'" "sw_idle (ss_mem s')" "order_ok (ss_fs s')" "log_ok cs (sys_log cs s')"
    "wal_files (ss_fs s') = [Wal_GetPath (ss_wal s')]"
    using assms s' by (simp_all add: same_logs_def)
  from restart_view [OF s'(2) this(1,2,3,5,4), of n] obtain so fs' where
    "InitializeStorages cs n (ss_fs s') = (Ret (Inr so), fs')"
    "tables_view cs fs' (collection (so_coll so)) ++ sw_view (so_mem so) = sys_view cs s'"
    "vng_current (so_gen so) = Max (op_version ` set (sys_log cs s')) + 1" by blast
  then show ?thesis
    using s'(1,3,4,6) by (auto simp: sys_view_split replay_map_add)
qed

text \<open>When the version guard stops an insert: only for a key that is in no memory storage and whose
  newest table entry is a value with a greater version. A key in memory is overwritten whatever the
  versions, because its value is returned without its version, and so is a removed key.\<close>

lemma version_guard_scope:
  assumes "sys_inv cs s"
  shows "StorageSystem_Insert cs p s = Ret (Inr (), s) \<longleftrightarrow>
    sw_view (ss_mem s) (kw_key p) = None \<and>
    (\<exists>v. sys_tables cs s (kw_key p) = Some v \<and> val_value v \<noteq> None \<and> kw_version p < val_version v)"
    (is "?omit \<longleftrightarrow> ?stale")
proof
  assume ?stale
  then show ?omit
    by (intro StorageSystem_omits(2) [OF assms]) (auto simp: sys_tables_def older_than_tables)
next
  assume omit: ?omit
  show ?stale
  proof (rule ccontr)
    assume "\<not> ?stale"
    then have "\<not> older_than (kw_version p) (lookup_result (kw_key p) (sw_view (ss_mem s) (kw_key p))
        (tables_view cs (ss_fs s) (collection (ss_tables s)) (kw_key p)))"
      using older_than_memory older_than_tables
      by (cases "sw_view (ss_mem s) (kw_key p)") (auto simp: sys_tables_def)
    from StorageSystem_Insert_effect [OF assms this] omit show False by auto
  qed
qed

end
