(* ===== verification/Swap_Job.thy ===== *)
theory Swap_Job
  imports Storage_System Compaction
begin

text \<open>
  \<open>Controller::SwapToPersistentStorage\<close> (\<open>controller.cpp\<close>): the log is swapped, the memory storage is
  collected into a new table, the table is added to the collection, the collected half and the old
  log are dropped, and the collection is compacted.
\<close>

section \<open>The job\<close>

definition SwapToPersistentStorage :: "codecs \<Rightarrow> system \<Rightarrow> unit exec \<times> system" where
  "SwapToPersistentStorage cs s =
     (case Wal_Swap (ss_wal s, ss_fs s) of
        (Inl _, w, fs1) \<Rightarrow> (Ret (), s\<lparr>ss_wal := w, ss_fs := fs1\<rparr>)
      | (Inr path, w, fs1) \<Rightarrow>
          let s1 = s\<lparr>ss_wal := w, ss_fs := fs1\<rparr> in
          st_bind (SwappableCollect (ss_mem s1), s1) (\<lambda>(data, mem) s1.
            let s2 = s1\<lparr>ss_mem := mem\<rparr> in
            case NewPersistentStorage cs data (ss_fs s2) of
              (Inl _, fs2) \<Rightarrow> (Ret (), s2\<lparr>ss_fs := fs2\<rparr>)
            | (Inr table, fs2) \<Rightarrow>
                (case Collection_Add_yield cs table (ss_tables s2) fs2 of
                   (Inl _, tables, fs3) \<Rightarrow> (Ret (), s2\<lparr>ss_tables := tables, ss_fs := fs3\<rparr>)
                 | (Inr _, tables, fs3) \<Rightarrow>
                     st_bind (RemoveCollected (ss_mem s2), s2\<lparr>ss_tables := tables, ss_fs := fs3\<rparr>) (\<lambda>mem s3.
                       let (r, tables1, fs5) = RunCompaction cs (ss_tables s3) (RemoveWalCallback path (ss_fs s3)) in
                       (r, s3\<lparr>ss_mem := mem, ss_tables := tables1, ss_fs := fs5\<rparr>)))))"

section \<open>Frames\<close>

lemma wal_inv_agree:
  assumes "wal_inv cs (w, fs)" "agree_on S fs fs'" "Wal_GetPath w \<in> S" "fs_ok fs'"
  shows "wal_inv cs (w, fs')" "wal_logged cs (w, fs') = wal_logged cs (w, fs)"
proof -
  from assms(1) obtain es where es: "codecs_ok cs" "fs_ok fs" "wal_state cs fs (sww_writer w) es []"
    by (auto simp: wal_inv_def)
  have "wal_path (sww_writer w) \<in> S" using assms(3) by (simp add: Wal_GetPath_def WALWriterImpl_GetPath_def)
  from wal_state_agree [OF es(3) assms(2) this] have s: "wal_state cs fs' (sww_writer w) es []" .
  with es assms(4) show "wal_inv cs (w, fs')" by (auto simp: wal_inv_def)
  show "wal_logged cs (w, fs') = wal_logged cs (w, fs)"
    using wal_state_ops [OF es(1,2,3)] wal_state_ops [OF es(1) assms(4) s]
    by (simp add: wal_logged_def Wal_GetPath_def WALWriterImpl_GetPath_def)
qed

lemma sys_inv_agree:
  assumes "sys_inv cs s" "agree_on S (ss_fs s) fs'" "Wal_GetPath (ss_wal s) \<in> S" "fs_ok fs'"
    "coll_inv cs fs' (collection ts)" "sw_inv mem"
  shows "sys_inv cs (s\<lparr>ss_fs := fs', ss_tables := ts, ss_mem := mem\<rparr>)"
    "sys_log cs (s\<lparr>ss_fs := fs', ss_tables := ts, ss_mem := mem\<rparr>) = sys_log cs s"
  using assms wal_inv_agree [OF sys_invD(5) [OF assms(1)] assms(2,3,4)] same_env_dir [OF agree_on_env [OF assms(2)]]
  by (auto simp: sys_inv_def sys_log_def)

lemma wal_path_in_dom:
  assumes "sys_inv cs s"
  shows "Wal_GetPath (ss_wal s) \<in> dom (map_of (fs_dir (ss_fs s)))"
  using is_log_dom [OF sys_log_is_log(1) [OF assms]] .

lemma RemoveWalCallback_remove:
  assumes "fs_ok fs"
  obtains r where "fs_remove p fs = (r, RemoveWalCallback p fs)"
  using fs_remove_ec_eq [OF assms] by (metis RemoveWalCallback_def surjective_pairing)

text \<open>
  A state of the running job: the tables changed, the log did not, and no file of the log or of
  anything else outside the tables.
\<close>

lemma sys_inv_tables:
  assumes "sys_inv cs s" "agree_on (other_files (ss_fs s)) (ss_fs s) fs'" "fs_ok fs'"
    "coll_inv cs fs' (collection ts)" "sw_inv mem"
  shows "sys_inv cs (s\<lparr>ss_fs := fs', ss_tables := ts, ss_mem := mem\<rparr>)"
    "sys_log cs (s\<lparr>ss_fs := fs', ss_tables := ts, ss_mem := mem\<rparr>) = sys_log cs s"
proof -
  have "Wal_GetPath (ss_wal s) \<in> other_files (ss_fs s)"
    using wal_other [OF sys_invD(2) [OF assms(1)]] assms(1) by (simp add: sys_inv_def)
  from sys_inv_agree [OF assms(1,2) this assms(3-5)]
  show "sys_inv cs (s\<lparr>ss_fs := fs', ss_tables := ts, ss_mem := mem\<rparr>)"
    "sys_log cs (s\<lparr>ss_fs := fs', ss_tables := ts, ss_mem := mem\<rparr>) = sys_log cs s" .
qed

lemma Wal_Swap_sys:
  assumes "sys_inv cs s"
  shows "\<exists>w fs'. Wal_Swap (ss_wal s, ss_fs s) = (Inr (Wal_GetPath (ss_wal s)), w, fs') \<and>
    sys_inv cs (s\<lparr>ss_wal := w, ss_fs := fs'\<rparr>) \<and> sys_log cs (s\<lparr>ss_wal := w, ss_fs := fs'\<rparr>) = [] \<and>
    sys_tables cs (s\<lparr>ss_wal := w, ss_fs := fs'\<rparr>) = sys_tables cs s \<and>
    (\<forall>st \<in> set (collection (ss_tables s)). ps_entries cs fs' st = ps_entries cs (ss_fs s) st) \<and>
    Wal_GetPath w \<noteq> Wal_GetPath (ss_wal s) \<and> Wal_GetPath (ss_wal s) \<in> dom (map_of (fs_dir fs')) \<and>
    agree_on (- {Wal_GetPath w}) (ss_fs s) fs'"
proof -
  note i = sys_invD [OF assms]
  from Wal_Swap_logged [OF i(5)] obtain w fs' where w:
    "Wal_Swap (ss_wal s, ss_fs s) = (Inr (Wal_GetPath (ss_wal s)), w, fs')" "wal_inv cs (w, fs')"
    "wal_logged cs (w, fs') = []"
    "Wal_GetPath w = format_path (ss_fs s) (fs_uuid (ss_fs s) (fs_uuid_pos (ss_fs s))) ''wal''"
    "map_of (fs_dir (ss_fs s)) (Wal_GetPath w) = None" "agree_on (- {Wal_GetPath w}) (ss_fs s) fs'" by auto
  note fr = wal_fresh_frame [OF i(2) w(6) [unfolded w(4)] i(4)]
  have x: "extension (Wal_GetPath w) = ''.wal''" using i(2) w(4) by (simp add: fs_ok_def extension_format)
  have "parent_path (Wal_GetPath w) = GetDataDir fs'"
    using i(2) w(4) same_env_dir [OF agree_on_env [OF w(6)]]
    by (simp add: fs_ok_def parent_format) (simp add: GetDataDir_def)
  moreover have d: "Wal_GetPath w \<noteq> Wal_GetPath (ss_wal s)"
    using w(5) wal_path_in_dom [OF assms] by auto
  moreover have "table_files (ss_fs s) \<subseteq> - {Wal_GetPath w}" using wal_not_table [OF i(2) x] by blast
  then have "agree_on (table_files (ss_fs s)) (ss_fs s) fs'" using agree_on_mono [OF w(6)] by blast
  then have "\<forall>st \<in> set (collection (ss_tables s)). ps_entries cs fs' st = ps_entries cs (ss_fs s) st"
    using entries_frame [OF i(4)] by blast
  moreover have "map_of (fs_dir fs') (Wal_GetPath (ss_wal s)) = map_of (fs_dir (ss_fs s)) (Wal_GetPath (ss_wal s))"
    by (rule agree_on_dir [OF w(6)]) (use d in simp)
  ultimately show ?thesis
    using w(1,2,3,6) x fr i(3) wal_path_in_dom [OF assms]
    by (auto simp: sys_inv_def sys_log_def sys_tables_def)
qed

section \<open>The job keeps the map and empties the log\<close>

text \<open>What a table of the collected entries on top of the tables would hold after a compaction.\<close>

definition compacted :: "codecs \<Rightarrow> system \<Rightarrow> StorageEntry list \<Rightarrow> StorageEntry list" where
  "compacted cs s data = sort (first_of_key (sort data @
     concat (map (ps_entries cs (ss_fs s)) (rev (collection (ss_tables s))))))"

definition job_fits :: "codecs \<Rightarrow> system \<Rightarrow> StorageEntry list \<Rightarrow> bool" where
  "job_fits cs s data \<longleftrightarrow> data \<noteq> [] \<and> length (table_bytes cs (sort data)) < 2 ^ 64 \<and>
     length (table_bytes cs (compacted cs s data)) < 2 ^ 64"

lemma SwapToPersistentStorage_ok:
  assumes inv: "sys_inv cs s" and full: "tables_full (ss_tables s)"
    and col: "SwappableCollect (ss_mem s) = Ret (data, mem1)" and fits: "job_fits cs s data"
  shows "\<exists>s'. SwapToPersistentStorage cs s = (Ret (), s') \<and> sys_inv cs s' \<and>
    sys_tables cs s' = sys_tables cs s ++ sw_base (ss_mem s) \<and> sw_view (ss_mem s') = sw_recent (ss_mem s) \<and>
    sw_idle (ss_mem s') \<and>
    sys_log cs s' = [] \<and> tables_full (ss_tables s') \<and> Collection_Size (ss_tables s') \<le> kThreshold \<and>
    map_of (fs_dir (ss_fs s')) (Wal_GetPath (ss_wal s)) = None \<and>
    agree_on (other_files (ss_fs s) - {Wal_GetPath (ss_wal s), Wal_GetPath (ss_wal s')}) (ss_fs s) (ss_fs s')"
proof -
  from Wal_Swap_sys [OF inv] obtain w fs1 where w:
    "Wal_Swap (ss_wal s, ss_fs s) = (Inr (Wal_GetPath (ss_wal s)), w, fs1)"
    "sys_inv cs (s\<lparr>ss_wal := w, ss_fs := fs1\<rparr>)" "sys_log cs (s\<lparr>ss_wal := w, ss_fs := fs1\<rparr>) = []"
    "sys_tables cs (s\<lparr>ss_wal := w, ss_fs := fs1\<rparr>) = sys_tables cs s"
    "\<forall>st \<in> set (collection (ss_tables s)). ps_entries cs fs1 st = ps_entries cs (ss_fs s) st"
    "Wal_GetPath w \<noteq> Wal_GetPath (ss_wal s)" "Wal_GetPath (ss_wal s) \<in> dom (map_of (fs_dir fs1))"
    "agree_on (- {Wal_GetPath w}) (ss_fs s) fs1" by blast
  let ?s1 = "s\<lparr>ss_wal := w, ss_fs := fs1\<rparr>" and ?old = "Wal_GetPath (ss_wal s)"
  note i1 = sys_invD [OF w(2)]
  from sw.collect_law [OF sys_invD(3) [OF inv]] col have c: "sw_inv mem1" "\<not> sw_idle mem1"
    "entries_view data = sw_base (ss_mem s)" "distinct (map se_key data)"
    "sw_recent mem1 = sw_recent (ss_mem s)" by auto
  have i1': "codecs_ok cs" "fs_ok fs1" "coll_inv cs fs1 (collection (ss_tables s))" using i1 by simp_all
  have b: "length (table_bytes cs (sort data)) < 2 ^ 64" using fits unfolding job_fits_def by blast
  from persist_table [OF i1' c(4) b] obtain st fs2 fs3 where p:
    "NewPersistentStorage cs data fs1 = (Inr st, fs2)"
    "Collection_Add cs st (ss_tables s) fs2 =
      (Inr (), (ss_tables s)\<lparr>collection := collection (ss_tables s) @ [st]\<rparr>, fs3)"
    "persisted cs fs1 (collection (ss_tables s)) data st fs3" by blast
  let ?t = "(ss_tables s)\<lparr>collection := collection (ss_tables s) @ [st]\<rparr>"
  note p3 = p(3) [unfolded persisted_def]
  from sw.remove_collected_law [OF c(1,2)] obtain mem2 where m: "RemoveCollected mem1 = Ret mem2"
    "sw_inv mem2" "sw_idle mem2" "sw_view mem2 = sw_recent (ss_mem s)" using c(5) by auto
  let ?fs4 = "RemoveWalCallback ?old fs3"
  have ok3: "fs_ok fs3" and co3: "coll_inv cs fs3 (collection ?t)" using p3 by simp_all
  obtain r where rm: "fs_remove ?old fs3 = (r, ?fs4)" using RemoveWalCallback_remove [OF ok3] by blast
  have x: "extension ?old = ''.wal''" using inv by (simp add: sys_inv_def)
  note ok4 = fs_remove_ok(2) [OF ok3 rm]
  note f4 = remove_log_frame [OF ok3 rm x co3]
  have full4: "tables_full ?t"
    using full p3 fits by (auto simp: tables_full_def job_fits_def)
  have "ps_entries cs ?fs4 u = ps_entries cs (ss_fs s) u" if "u \<in> set (collection (ss_tables s))" for u
    using f4(3) [of u] that p3 w(5) by simp
  then have "concat (map (ps_entries cs ?fs4) (rev (collection (ss_tables s)))) =
      concat (map (ps_entries cs (ss_fs s)) (rev (collection (ss_tables s))))"
    by (intro arg_cong [where f = concat] map_cong) simp_all
  moreover have "ps_entries cs ?fs4 st = sort data" using f4(3) [of st] p3 by simp
  ultimately have "merged cs ?fs4 (collection ?t) = compacted cs s data"
    by (simp add: merged_def compacted_def)
  then have "length (table_bytes cs (merged cs ?fs4 (collection ?t))) < 2 ^ 64"
    using fits unfolding job_fits_def by simp
  from RunCompaction_ok [OF i1'(1) ok4 f4(1) full4 this] obtain t' fs5 where rc:
    "RunCompaction cs ?t ?fs4 = (Ret (), t', fs5)" "fs_ok fs5" "coll_inv cs fs5 (collection t')"
    "tables_view cs fs5 (collection t') = tables_view cs ?fs4 (collection ?t)"
    "agree_on (other_files ?fs4) ?fs4 fs5" "tables_full t'" "Collection_Size t' \<le> kThreshold" by blast
  let ?s5 = "?s1\<lparr>ss_fs := fs5, ss_tables := t', ss_mem := mem2\<rparr>"
  have run: "SwapToPersistentStorage cs s = (Ret (), ?s5)"
    using w(1) col p(1,2) m(1) rc(1)
    by (simp add: SwapToPersistentStorage_def Collection_Add_yield_eq)
  have e13: "same_env fs1 fs3" using p3 by simp
  have e34: "same_env fs3 ?fs4" using agree_on_env [OF agree_on_remove [OF ok3 rm]] .
  have o: "other_files fs3 = other_files fs1" "other_files ?fs4 = other_files fs1"
    using other_files_env [OF e13] other_files_env [OF e34] by simp_all
  have new: "Wal_GetPath w \<in> other_files fs1 - {?old}"
    using wal_other [OF i1'(2)] w(2,6) by (simp add: sys_inv_def)
  have "agree_on {Wal_GetPath w} fs1 fs3" by (rule agree_on_mono) (use p3 new in auto)
  moreover have "agree_on {Wal_GetPath w} fs3 ?fs4"
    by (rule agree_on_mono [OF agree_on_remove [OF ok3 rm]]) (use new in auto)
  moreover have "agree_on {Wal_GetPath w} ?fs4 fs5"
    by (rule agree_on_mono [OF rc(5)]) (use new o in auto)
  ultimately have ag: "agree_on {Wal_GetPath w} fs1 fs5" by (blast intro: agree_on_trans)
  have s5: "sys_inv cs ?s5" "sys_log cs ?s5 = []"
    using sys_inv_agree [OF w(2), of "{Wal_GetPath w}" fs5 t' mem2] ag rc(2,3) m(2) w(3) by simp_all
  have "map_of (fs_dir ?fs4) ?old = None" using fs_remove_ok(4) [OF ok3 rm] by simp
  moreover have "?old \<in> other_files ?fs4" using wal_other [OF ok4 x] .
  ultimately have gone: "map_of (fs_dir fs5) ?old = None" using agree_on_dir [OF rc(5)] by simp
  have "sys_tables cs ?s5 = sys_tables cs s ++ sw_base (ss_mem s)"
    using rc(4) f4(2) p3 w(4) c(3) by (simp add: sys_tables_def)
  moreover have "agree_on (other_files (ss_fs s) - {?old, Wal_GetPath w}) (ss_fs s) fs5"
  proof -
    let ?K = "other_files fs1 - {?old, Wal_GetPath w}"
    have o1: "other_files (ss_fs s) = other_files fs1" using other_files_env [OF agree_on_env [OF w(8)]] by simp
    have "agree_on ?K (ss_fs s) fs1" by (rule agree_on_mono [OF w(8)]) auto
    moreover have "agree_on ?K fs1 fs3" by (rule agree_on_mono) (use p3 in auto)
    moreover have "agree_on ?K fs3 ?fs4" by (rule agree_on_mono [OF agree_on_remove [OF ok3 rm]]) auto
    moreover have "agree_on ?K ?fs4 fs5" by (rule agree_on_mono [OF rc(5)]) (use o in auto)
    ultimately show ?thesis unfolding o1 by (blast intro: agree_on_trans)
  qed
  ultimately show ?thesis using run s5 m(3,4) rc(6,7) gone by auto
qed

text \<open>
  The map is kept in any case. The log is empty afterwards, so the state is durable exactly if
  nothing was written to the memory storage since an earlier collection that was not completed.
\<close>

lemma SwapToPersistentStorage_view:
  assumes "sys_inv cs s" "sys_tables cs s' = sys_tables cs s ++ sw_base (ss_mem s)"
    "sw_view (ss_mem s') = sw_recent (ss_mem s)"
  shows "sys_view cs s' = sys_view cs s"
  using sw.view_split [OF sys_invD(3) [OF assms(1)]] assms(2,3) by (simp add: sys_view_split)

lemma SwapToPersistentStorage_durable:
  assumes "sys_log cs s' = []" "sw_view (ss_mem s') = sw_recent (ss_mem s)" "sw_idle (ss_mem s')"
  shows "durable cs s' \<longleftrightarrow> sw_recent (ss_mem s) = Map.empty"
  using assms by (auto simp: durable_def)

section \<open>Failures\<close>

text \<open>
  A failure to swap the log changes nothing that a reader sees; one to write the table leaves the
  memory storage in the middle of a collection. A file that cannot be removed while the collection
  is compacted ends the job by an exception.
\<close>

lemma SwapToPersistentStorage_no_log:
  assumes "Wal_Swap (ss_wal s, ss_fs s) = (Inl e, w, fs1)"
  shows "SwapToPersistentStorage cs s = (Ret (), s\<lparr>ss_wal := w, ss_fs := fs1\<rparr>)"
  using assms by (simp add: SwapToPersistentStorage_def)

lemma SwapToPersistentStorage_no_table:
  assumes "Wal_Swap (ss_wal s, ss_fs s) = (Inr path, w, fs1)" "sw_inv (ss_mem s)"
    "\<And>data. fst (NewPersistentStorage cs data fs1) = Inl e"
  shows "\<exists>mem fs2. SwapToPersistentStorage cs s = (Ret (), s\<lparr>ss_wal := w, ss_mem := mem, ss_fs := fs2\<rparr>) \<and>
    \<not> sw_idle mem \<and> sw_view mem = sw_view (ss_mem s)"
proof -
  from sw.collect_law [OF assms(2)] obtain es mem where c: "SwappableCollect (ss_mem s) = Ret (es, mem)"
    "sw_inv mem" "\<not> sw_idle mem" "sw_base mem = sw_base (ss_mem s)" "sw_recent mem = sw_recent (ss_mem s)" by blast
  obtain fs2 where "NewPersistentStorage cs es fs1 = (Inl e, fs2)" using assms(3) [of es] by (metis prod.collapse)
  then have "SwapToPersistentStorage cs s = (Ret (), s\<lparr>ss_wal := w, ss_mem := mem, ss_fs := fs2\<rparr>)"
    using assms(1) c(1) by (simp add: SwapToPersistentStorage_def)
  then show ?thesis
    using c sw.view_split [OF assms(2)] sw.view_split [OF c(2)] by auto
qed

lemma StorageSystem_Insert_tables:
  assumes "sys_inv cs s" "StorageSystem_Insert cs p s = Ret (r, s')"
  shows "ss_tables s' = ss_tables s"
  using assms(2) unfolding StorageSystem_Insert_def StorageSystem_Get_view [OF assms(1)]
  by (cases "Wal_Insert cs p (ss_wal s, ss_fs s)"; cases "fst (Wal_Insert cs p (ss_wal s, ss_fs s))")
    (auto simp: exec_bind_Ret_iff split: if_splits)

lemma StorageSystem_Remove_tables:
  assumes "sys_inv cs s" "StorageSystem_Remove cs k v s = Ret (r, s')"
  shows "ss_tables s' = ss_tables s"
  using assms(2) unfolding StorageSystem_Remove_def StorageSystem_Get_view [OF assms(1)]
  by (cases "Wal_Remove cs k v (ss_wal s, ss_fs s)"; cases "fst (Wal_Remove cs k v (ss_wal s, ss_fs s))")
    (auto simp: exec_bind_Ret_iff split: if_splits)

lemma serve_tables:
  assumes "sys_inv cs s" "serve cs r s = Ret (res, s')"
  shows "ss_tables s' = ss_tables s"
  using assms(2) StorageSystem_Insert_tables [OF assms(1)] StorageSystem_Remove_tables [OF assms(1)]
  by (cases r) (auto simp: serve_def)

end
