(* ===== verification/Zookeeper.thy ===== *)
theory Zookeeper
  imports Errors
begin

text \<open>
  \<open>coordination/zookeeper\<close>: master election and service discovery by callbacks. The ZooKeeper
  client library is not part of the repository: what its functions return is data of the model
  (\<open>z_accept\<close>, \<open>z_init\<close>), and a request that it accepts becomes an element of \<open>z_pending\<close>, to be
  answered by a call of the completion function at a later time.
\<close>

section \<open>State\<close>

datatype zrc = ZOK | ZCONNECTIONLOSS | ZOPERATIONTIMEOUT | ZNONODE | ZNODEEXISTS | ZERROR int

datatype zevent = ZOO_CREATED_EVENT | ZOO_DELETED_EVENT | ZOO_CHANGED_EVENT | ZOO_CHILD_EVENT
  | ZOO_SESSION_EVENT | ZOO_NOTWATCHING_EVENT | ZOO_UNKNOWN_EVENT int

datatype zstate = ZOO_CONNECTED_STATE | ZOO_NOTCONNECTED_STATE | ZOO_CONNECTING_STATE
  | ZOO_ASSOCIATING_STATE | ZOO_EXPIRED_SESSION_STATE | ZOO_UNKNOWN_STATE int

datatype zrequest =
    AGetMaster
  | ACreateMaster string
  | ACreateNodes
  | ACreateNode path
  | AGetChildren

text \<open>
  The file-level variables. \<open>z_kZh\<close> is the handle, the \<open>z_accept n\<close> the return code of the \<open>n\<close>-th
  asynchronous request and \<open>z_init n\<close> the handle, if any, that the \<open>n\<close>-th \<open>zookeeper_init2\<close> returns.
\<close>

record zk =
  z_kDbHost :: string
  z_kHost :: string
  z_kZh :: "nat option"
  z_kConnected :: bool
  z_kExpired :: bool
  z_kIsMaster :: bool
  z_kMasterNode :: "string option"
  z_kNodes :: "string list option"
  z_pending :: "zrequest list"
  z_accept :: "nat \<Rightarrow> zrc"
  z_calls :: nat
  z_init :: "nat \<Rightarrow> nat option"
  z_inits :: nat

definition kMasterPath :: path where
  "kMasterPath = ''/master''"

fun EventTypeToString :: "zevent \<Rightarrow> string" where
  "EventTypeToString ZOO_CREATED_EVENT = ''ZOO_CREATED_EVENT''"
| "EventTypeToString ZOO_DELETED_EVENT = ''ZOO_DELETED_EVENT''"
| "EventTypeToString ZOO_CHANGED_EVENT = ''ZOO_CHANGED_EVENT''"
| "EventTypeToString ZOO_CHILD_EVENT = ''ZOO_CHILD_EVENT''"
| "EventTypeToString ZOO_SESSION_EVENT = ''ZOO_SESSION_EVENT''"
| "EventTypeToString ZOO_NOTWATCHING_EVENT = ''ZOO_NOTWATCHING_EVENT''"
| "EventTypeToString (ZOO_UNKNOWN_EVENT n) = ''unknown event type''"

section \<open>Requests\<close>

text \<open>A request that is refused at once is logged and forgotten.\<close>

definition issue :: "zrequest \<Rightarrow> zk \<Rightarrow> zk" where
  "issue r z = z\<lparr>z_calls := Suc (z_calls z),
     z_pending := (if z_accept z (z_calls z) = ZOK then z_pending z @ [r] else z_pending z)\<rparr>"

definition CheckMaster :: "zk \<Rightarrow> zk" where
  "CheckMaster z = issue AGetMaster z"

definition TryBecomeMaster :: "zk \<Rightarrow> zk" where
  "TryBecomeMaster z = issue (ACreateMaster (z_kDbHost z)) z"

definition RegisterNode :: "zk \<Rightarrow> zk" where
  "RegisterNode z = issue (ACreateNode (''/nodes/'' @ z_kDbHost z)) z"

definition DiscoverNodes :: "zk \<Rightarrow> zk" where
  "DiscoverNodes z = issue AGetChildren z"

definition BootstrapServiceDiscovery :: "zk \<Rightarrow> zk" where
  "BootstrapServiceDiscovery z = issue ACreateNodes z"

definition SetMasterNode :: "string \<Rightarrow> zk \<Rightarrow> zk" where
  "SetMasterNode v z = z\<lparr>z_kMasterNode := Some v\<rparr>"

definition SetNodes :: "string list \<Rightarrow> zk \<Rightarrow> zk" where
  "SetNodes nodes z = z\<lparr>z_kNodes := Some nodes\<rparr>"

section \<open>Callbacks\<close>

text \<open>
  \<open>zookeeper_close\<close> drops the outstanding requests (their completions run with a code that is
  only logged); then \<open>zookeeper_init2\<close> is retried until it returns a handle.
\<close>

partial_function (option) reinit :: "(nat \<Rightarrow> nat option) \<Rightarrow> nat \<Rightarrow> (nat \<times> nat) option" where
  "reinit init n = (case init n of Some h \<Rightarrow> Some (h, Suc n) | None \<Rightarrow> reinit init (Suc n))"

definition SessionWatcher :: "zevent \<Rightarrow> zstate \<Rightarrow> zk \<Rightarrow> zk exec" where
  "SessionWatcher type state z =
     (if type = ZOO_SESSION_EVENT then
        (if state = ZOO_CONNECTED_STATE then
           let is_expired = z_kExpired z;
               z1 = z\<lparr>z_kConnected := True, z_kExpired := False\<rparr> in
           Ret (if is_expired then RegisterNode (TryBecomeMaster z1) else z1)
         else if state = ZOO_NOTCONNECTED_STATE \<or> state = ZOO_CONNECTING_STATE \<or>
                 state = ZOO_ASSOCIATING_STATE then
           Ret (z\<lparr>z_kConnected := False\<rparr>)
         else if state = ZOO_EXPIRED_SESSION_STATE then
           let z1 = z\<lparr>z_kConnected := False, z_kIsMaster := False, z_kExpired := True,
                      z_pending := [], z_kZh := None\<rparr> in
           (case reinit (z_init z1) (z_inits z1) of
              None \<Rightarrow> Hang
            | Some (h, n) \<Rightarrow> Ret (z1\<lparr>z_kZh := Some h, z_inits := n\<rparr>))
         else Ret z)
      else Ret z)"

text \<open>\<open>stat\<close> may be null; \<open>value\<close> is asserted not to be, and a failed assertion ends the program.\<close>

definition CheckMasterCompletion :: "zrc \<Rightarrow> string option \<Rightarrow> bool \<Rightarrow> zk \<Rightarrow> zk exec" where
  "CheckMasterCompletion rc value has_stat z =
     (case rc of
        ZCONNECTIONLOSS \<Rightarrow> Ret (CheckMaster z)
      | ZOPERATIONTIMEOUT \<Rightarrow> Ret (CheckMaster z)
      | ZOK \<Rightarrow> (if \<not> has_stat then Ret (TryBecomeMaster z)
               else case value of None \<Rightarrow> Undef | Some v \<Rightarrow> Ret (SetMasterNode v z))
      | ZNONODE \<Rightarrow> Ret (TryBecomeMaster z)
      | _ \<Rightarrow> Ret z)"

definition CheckMasterWatch :: "zevent \<Rightarrow> path \<Rightarrow> zk \<Rightarrow> zk exec" where
  "CheckMasterWatch type path z =
     (if type = ZOO_DELETED_EVENT
      then (if path = ''/master'' then Ret (TryBecomeMaster z) else Undef)
      else Ret z)"

definition TryBecomeMasterCompletion :: "zrc \<Rightarrow> zk \<Rightarrow> zk" where
  "TryBecomeMasterCompletion rc z =
     (case rc of
        ZCONNECTIONLOSS \<Rightarrow> CheckMaster z
      | ZOPERATIONTIMEOUT \<Rightarrow> CheckMaster z
      | ZOK \<Rightarrow> SetMasterNode (z_kDbHost z) (z\<lparr>z_kIsMaster := True\<rparr>)
      | ZNODEEXISTS \<Rightarrow> CheckMaster z
      | _ \<Rightarrow> z)"

definition RegisterNodeCompletion :: "zrc \<Rightarrow> zk \<Rightarrow> zk" where
  "RegisterNodeCompletion rc z =
     (case rc of
        ZCONNECTIONLOSS \<Rightarrow> RegisterNode z
      | ZOPERATIONTIMEOUT \<Rightarrow> RegisterNode z
      | ZOK \<Rightarrow> DiscoverNodes z
      | ZNODEEXISTS \<Rightarrow> DiscoverNodes z
      | _ \<Rightarrow> z)"

definition DiscoverNodesWatch :: "zevent \<Rightarrow> path \<Rightarrow> zk \<Rightarrow> zk exec" where
  "DiscoverNodesWatch type path z =
     (if type = ZOO_CHILD_EVENT
      then (if path = ''/nodes'' then Ret (DiscoverNodes z) else Undef)
      else Ret z)"

text \<open>\<open>strings\<close> and each of its elements are asserted not to be null.\<close>

fun checked_strings :: "string option list \<Rightarrow> string list exec" where
  "checked_strings [] = Ret []"
| "checked_strings (None # ss) = Undef"
| "checked_strings (Some s # ss) = exec_bind (checked_strings ss) (\<lambda>r. Ret (s # r))"

definition DiscoverNodesCompletion :: "zrc \<Rightarrow> string option list option \<Rightarrow> zk \<Rightarrow> zk exec" where
  "DiscoverNodesCompletion rc strings z =
     (case rc of
        ZCONNECTIONLOSS \<Rightarrow> Ret (DiscoverNodes z)
      | ZOPERATIONTIMEOUT \<Rightarrow> Ret (DiscoverNodes z)
      | ZOK \<Rightarrow> (case strings of
            None \<Rightarrow> Undef
          | Some ss \<Rightarrow> exec_bind (checked_strings ss) (\<lambda>nodes. Ret (SetNodes nodes z)))
      | _ \<Rightarrow> Ret z)"

definition BootstrapServiceDiscoveryCompletion :: "zrc \<Rightarrow> zk \<Rightarrow> zk" where
  "BootstrapServiceDiscoveryCompletion rc z =
     (case rc of
        ZCONNECTIONLOSS \<Rightarrow> BootstrapServiceDiscovery z
      | ZOPERATIONTIMEOUT \<Rightarrow> BootstrapServiceDiscovery z
      | ZOK \<Rightarrow> RegisterNode z
      | ZNODEEXISTS \<Rightarrow> RegisterNode z
      | _ \<Rightarrow> z)"

section \<open>The interface\<close>

fun join_hosts :: "string list \<Rightarrow> string" where
  "join_hosts [] = []"
| "join_hosts [h] = h"
| "join_hosts (h # hs) = h @ '','' @ join_hosts hs"

definition InitZookeeper :: "string \<Rightarrow> string list \<Rightarrow> zk \<Rightarrow> unit res \<times> zk" where
  "InitZookeeper db_host zookeeper_hosts z =
     (let z1 = z\<lparr>z_kDbHost := db_host, z_kHost := join_hosts zookeeper_hosts,
               z_kZh := z_init z (z_inits z), z_inits := Suc (z_inits z)\<rparr> in
      case z_kZh z1 of
        None \<Rightarrow> (Inl (MakeError kUnknown ''failed to connect to zookeeper: failed to init handler''), z1)
      | Some _ \<Rightarrow> (Inr (), TryBecomeMaster (BootstrapServiceDiscovery z1)))"

definition GetMaster :: "zk \<Rightarrow> string res" where
  "GetMaster z = (case z_kMasterNode z of
       None \<Rightarrow> Inl (MakeError kUnknown ''master not set'') | Some m \<Rightarrow> Inr m)"

definition IsMaster :: "zk \<Rightarrow> bool" where
  "IsMaster z = z_kIsMaster z"

definition IsConnectionExpired :: "zk \<Rightarrow> bool" where
  "IsConnectionExpired z = z_kExpired z"

definition GetNodes :: "zk \<Rightarrow> string list res" where
  "GetNodes z = (case z_kNodes z of
       None \<Rightarrow> Inl (MakeError kUnknown ''nodes not set'') | Some ns \<Rightarrow> Inr ns)"

definition zk_start :: "(nat \<Rightarrow> zrc) \<Rightarrow> (nat \<Rightarrow> nat option) \<Rightarrow> zk" where
  "zk_start accept init = \<lparr>z_kDbHost = [], z_kHost = [], z_kZh = None, z_kConnected = False,
     z_kExpired = False, z_kIsMaster = False, z_kMasterNode = None, z_kNodes = None,
     z_pending = [], z_accept = accept, z_calls = 0, z_init = init, z_inits = 0\<rparr>"

section \<open>Lemmas\<close>

lemma issue_simps [simp]:
  "z_kIsMaster (issue r z) = z_kIsMaster z" "z_kExpired (issue r z) = z_kExpired z"
  "z_kConnected (issue r z) = z_kConnected z" "z_kZh (issue r z) = z_kZh z"
  "z_kMasterNode (issue r z) = z_kMasterNode z" "z_kNodes (issue r z) = z_kNodes z"
  "z_kDbHost (issue r z) = z_kDbHost z" "z_init (issue r z) = z_init z"
  "z_inits (issue r z) = z_inits z" "set (z_pending (issue r z)) \<subseteq> insert r (set (z_pending z))"
  by (auto simp: issue_def)

lemmas request_defs = CheckMaster_def TryBecomeMaster_def RegisterNode_def DiscoverNodes_def
  BootstrapServiceDiscovery_def

lemma reinit_found:
  assumes "init n = Some h" "\<forall>i. m \<le> i \<and> i < n \<longrightarrow> init i = None" "m \<le> n"
  shows "reinit init m = Some (h, Suc n)"
  using assms
proof (induction "n - m" arbitrary: m)
  case 0
  then show ?case by (subst reinit.simps) simp
next
  case (Suc k)
  then have "init m = None" "k = n - Suc m" "Suc m \<le> n" by auto
  with Suc(1) [of "Suc m"] Suc(3,4) show ?case by (subst reinit.simps) simp
qed

lemma reinit_result:
  assumes "reinit init m = Some (h, n)"
  shows "\<exists>k \<ge> m. n = Suc k \<and> init k = Some h"
proof -
  have "\<exists>k \<ge> m. snd (h, n) = Suc k \<and> init k = Some (fst (h, n))"
  proof (rule reinit.raw_induct
      [where P = "\<lambda>init m r. \<exists>k \<ge> m. snd r = Suc k \<and> init k = Some (fst r)"])
    fix rec and init :: "nat \<Rightarrow> nat option" and m r
    assume ih: "\<And>i m' r'. rec i m' = Some r' \<Longrightarrow> \<exists>k \<ge> m'. snd r' = Suc k \<and> i k = Some (fst r')"
      and eq: "(case init m of None \<Rightarrow> rec init (Suc m) | Some h \<Rightarrow> Some (h, Suc m)) = Some r"
    show "\<exists>k \<ge> m. snd r = Suc k \<and> init k = Some (fst r)"
    proof (cases "init m")
      case None
      then show ?thesis using ih [of init "Suc m" r] eq by (auto intro: Suc_leD)
    qed (use eq in auto)
  qed (rule assms)
  then show ?thesis by simp
qed

lemma reinit_terminates: "(\<exists>r. reinit init m = Some r) \<longleftrightarrow> (\<exists>n \<ge> m. init n \<noteq> None)"
proof
  assume "\<exists>n \<ge> m. init n \<noteq> None"
  then have ex: "\<exists>n. m \<le> n \<and> init n \<noteq> None" by blast
  let ?n = "LEAST n. m \<le> n \<and> init n \<noteq> None"
  from LeastI_ex [OF ex] obtain h where n: "m \<le> ?n" "init ?n = Some h" by auto
  moreover have "\<forall>i. m \<le> i \<and> i < ?n \<longrightarrow> init i = None" using not_less_Least by blast
  ultimately show "\<exists>r. reinit init m = Some r" using reinit_found by blast
next
  assume "\<exists>r. reinit init m = Some r"
  then show "\<exists>n \<ge> m. init n \<noteq> None" using reinit_result by (metis option.distinct(1) surj_pair)
qed

lemma reinit_least:
  assumes "reinit init m = Some r"
  shows "\<exists>n h. m \<le> n \<and> init n = Some h \<and> (\<forall>i. m \<le> i \<and> i < n \<longrightarrow> init i = None) \<and> r = (h, Suc n)"
proof -
  have ex: "\<exists>n. m \<le> n \<and> init n \<noteq> None" using assms reinit_terminates [of init m] by blast
  let ?n = "LEAST n. m \<le> n \<and> init n \<noteq> None"
  from LeastI_ex [OF ex] obtain h where n: "m \<le> ?n" "init ?n = Some h" by auto
  moreover have l: "\<forall>i. m \<le> i \<and> i < ?n \<longrightarrow> init i = None" using not_less_Least by blast
  moreover have "r = (h, Suc ?n)" using reinit_found [OF n(2) l n(1)] assms by simp
  ultimately show ?thesis by blast
qed

section \<open>Sequences of callbacks\<close>

text \<open>Whatever the library calls back, in any order.\<close>

datatype zcallback = OnSession zevent zstate | OnMaster zrc "string option" bool | OnMasterWatch zevent path
  | OnCreateMaster zrc | OnRegister zrc | OnNodesWatch zevent path | OnNodes zrc "string option list option"
  | OnBootstrap zrc

fun callback :: "zcallback \<Rightarrow> zk \<Rightarrow> zk exec" where
  "callback (OnSession type state) z = SessionWatcher type state z"
| "callback (OnMaster rc value has_stat) z = CheckMasterCompletion rc value has_stat z"
| "callback (OnMasterWatch type path) z = CheckMasterWatch type path z"
| "callback (OnCreateMaster rc) z = Ret (TryBecomeMasterCompletion rc z)"
| "callback (OnRegister rc) z = Ret (RegisterNodeCompletion rc z)"
| "callback (OnNodesWatch type path) z = DiscoverNodesWatch type path z"
| "callback (OnNodes rc strings) z = DiscoverNodesCompletion rc strings z"
| "callback (OnBootstrap rc) z = Ret (BootstrapServiceDiscoveryCompletion rc z)"

fun callbacks :: "zcallback list \<Rightarrow> zk \<Rightarrow> zk exec" where
  "callbacks [] z = Ret z"
| "callbacks (cb # cbs) z = exec_bind (callback cb z) (callbacks cbs)"

text \<open>Only the connection of a session clears the flag of the expired one.\<close>

lemma callback_expired:
  assumes "callback cb z = Ret z'" "IsConnectionExpired z" "cb \<noteq> OnSession ZOO_SESSION_EVENT ZOO_CONNECTED_STATE"
  shows "IsConnectionExpired z'"
proof -
  have st: "z_kExpired (SetMasterNode v z) = z_kExpired z" "z_kExpired (SetNodes ns z) = z_kExpired z" for v ns z
    by (simp_all add: SetMasterNode_def SetNodes_def)
  show ?thesis
    using assms unfolding IsConnectionExpired_def
    by (cases cb) (auto simp: SessionWatcher_def CheckMasterCompletion_def CheckMasterWatch_def
        TryBecomeMasterCompletion_def RegisterNodeCompletion_def DiscoverNodesWatch_def DiscoverNodesCompletion_def
        BootstrapServiceDiscoveryCompletion_def request_defs Let_def st exec_bind_Ret_iff
        split: if_splits zrc.splits option.splits)
qed

lemma callbacks_expired:
  "callbacks cbs z = Ret z' \<Longrightarrow> IsConnectionExpired z \<Longrightarrow>
   OnSession ZOO_SESSION_EVENT ZOO_CONNECTED_STATE \<notin> set cbs \<Longrightarrow> IsConnectionExpired z'"
proof (induction cbs arbitrary: z)
  case (Cons cb cbs)
  then obtain z1 where z1: "callback cb z = Ret z1" "callbacks cbs z1 = Ret z'" by (cases "callback cb z") auto
  have "IsConnectionExpired z1" by (rule callback_expired [OF z1(1) Cons.prems(2)]) (use Cons.prems(3) in auto)
  with Cons.IH [OF z1(2)] Cons.prems(3) show ?case by simp
qed simp

lemma session_expired:
  "SessionWatcher ZOO_SESSION_EVENT ZOO_EXPIRED_SESSION_STATE z = (case reinit (z_init z) (z_inits z) of
     None \<Rightarrow> Hang
   | Some (h, n) \<Rightarrow> Ret (z\<lparr>z_kConnected := False, z_kIsMaster := False, z_kExpired := True, z_pending := [],
       z_kZh := Some h, z_inits := n\<rparr>))"
  by (simp add: SessionWatcher_def Let_def split: option.split)

text \<open>A lost answer to the create request: the node reads its own name as the master's and never takes the flag.\<close>

lemma lost_create_leaves_no_master:
  "\<exists>z'. CheckMasterCompletion ZOK (Some (z_kDbHost z)) True (TryBecomeMasterCompletion ZCONNECTIONLOSS z) = Ret z' \<and>
    GetMaster z' = Inr (z_kDbHost z) \<and> IsMaster z' = IsMaster z"
  by (simp add: CheckMasterCompletion_def TryBecomeMasterCompletion_def CheckMaster_def
      SetMasterNode_def GetMaster_def IsMaster_def)

end
