(* ===== verification/Replication.thy ===== *)
theory Replication
  imports Memstorage Codec Zookeeper
begin

text \<open>
  \<open>replication.hpp\<close>, \<open>replication.cpp\<close>: requests to the other nodes, with retries, and the two
  ways they are used: sending a write to every node, and asking every node for the newest value.
  gRPC and the peers are not part of the repository: what the \<open>n\<close>-th request yields is data of
  the model (\<open>rp_outcome\<close>); the requests made and the seconds waited are recorded. No code sets
  or reads the field \<open>md5\<close> of a reply, which is left out.
\<close>

section \<open>Messages and the network\<close>

datatype Source = SOURCE_CLIENT | SOURCE_NODE

record KeyValueRequest =
  kvr_key :: "string option"
  kvr_value :: "string option"
  kvr_version :: "u64 option"
  kvr_source :: "Source option"

record KeyRequest =
  kr_key :: "string option"
  kr_version :: "u64 option"
  kr_source :: "Source option"

record GetRequest =
  gr_key :: "string option"
  gr_source :: "Source option"
  gr_is_master :: "bool option"

record GetReply =
  gp_value :: "string option"
  gp_version :: "u64 option"

datatype RequestType = rGet | rInsert | rRemove

fun RequestType_ToString :: "RequestType \<Rightarrow> string" where
  "RequestType_ToString rGet = ''/iu9db.Db/Get''"
| "RequestType_ToString rInsert = ''/iu9db.Db/Insert''"
| "RequestType_ToString rRemove = ''/iu9db.Db/Remove''"

datatype rpc_request = QGet GetRequest | QInsert KeyValueRequest | QRemove KeyRequest

text \<open>
  A request fails with the message and details of its status, or comes back with bytes that are
  no reply, or with a reply. An \<open>EmptyReply\<close> carries nothing, which is \<open>GetReply\<close> without fields.
\<close>

datatype rpc_outcome = RpcFailed string string | RpcGarbled string string | RpcReply GetReply

record Replication =
  rp_clients :: "string list"
  rp_zk :: zk
  rp_outcome :: "nat \<Rightarrow> string \<Rightarrow> rpc_request \<Rightarrow> rpc_outcome"
  rp_sent :: "(string \<times> string \<times> rpc_request) list"
  rp_waited :: "nat list"

definition new_Replication :: "zk \<Rightarrow> (nat \<Rightarrow> string \<Rightarrow> rpc_request \<Rightarrow> rpc_outcome) \<Rightarrow> Replication" where
  "new_Replication z oc = \<lparr>rp_clients = [], rp_zk = z, rp_outcome = oc, rp_sent = [], rp_waited = []\<rparr>"

section \<open>One request\<close>

definition request_failed :: "string \<Rightarrow> string \<Rightarrow> Error" where
  "request_failed message details =
     MakeError kUnknown (''failed when requesting replica: '' @ message @ '': '' @ details)"

text \<open>The deadline of a request, in seconds: one that is not answered by then fails.\<close>

definition request_deadline :: nat where
  "request_deadline = 5"

definition MakeRequest ::
  "RequestType \<Rightarrow> rpc_request \<Rightarrow> string \<Rightarrow> Replication \<Rightarrow> GetReply res \<times> Replication" where
  "MakeRequest type request host rp =
     ((case rp_outcome rp (length (rp_sent rp)) host request of
         RpcFailed m d \<Rightarrow> Inl (request_failed m d)
       | RpcGarbled m d \<Rightarrow> Inl (request_failed m d)
       | RpcReply response \<Rightarrow> Inr response),
      rp\<lparr>rp_sent := rp_sent rp @ [(host, RequestType_ToString type, request)]\<rparr>)"

text \<open>The \<open>for\<close> loop with \<open>tries\<close> rounds left; \<open>got\<close> is the result of the round before.\<close>

fun backoff_loop :: "nat \<Rightarrow> nat \<Rightarrow> GetReply res \<Rightarrow> RequestType \<Rightarrow> rpc_request \<Rightarrow> string \<Rightarrow>
    Replication \<Rightarrow> GetReply res \<times> Replication" where
  "backoff_loop 0 delay got type request host rp = (got, rp)"
| "backoff_loop (Suc tries) delay got type request host rp =
     (let (got1, rp1) = MakeRequest type request host rp in
      if has_value got1 then (got1, rp1)
      else backoff_loop tries (delay * 2) got1 type request host
             (rp1\<lparr>rp_waited := rp_waited rp1 @ [delay]\<rparr>))"

definition MakeRequestWithBackoff ::
  "RequestType \<Rightarrow> rpc_request \<Rightarrow> string \<Rightarrow> Replication \<Rightarrow> GetReply res \<times> Replication" where
  "MakeRequestWithBackoff type request host rp =
     backoff_loop 5 1 (Inr \<lparr>gp_value = None, gp_version = None\<rparr>) type request host rp"

section \<open>ReplicaClient\<close>

text \<open>\<open>version.value()\<close> of a request without a version throws.\<close>

definition ReplicaClient_Get ::
  "string \<Rightarrow> GetRequestDTO \<Rightarrow> Replication \<Rightarrow> ValueDTO res exec \<times> Replication" where
  "ReplicaClient_Get host data rp =
     (let request = \<lparr>gr_key = Some (grd_key data), gr_source = Some SOURCE_NODE, gr_is_master = None\<rparr>;
          (res, rp1) = MakeRequestWithBackoff rGet (QGet request) host rp in
      (Ret (case res of
         Inl e \<Rightarrow> Inl (WrapError e kUnknown ''get'')
       | Inr reply \<Rightarrow> Inr \<lparr>vd_value = get_string (gp_value reply), vd_version = get_u64 (gp_version reply)\<rparr>),
       rp1))"

definition ReplicaClient_Insert ::
  "string \<Rightarrow> KwDTO \<Rightarrow> Replication \<Rightarrow> unit res exec \<times> Replication" where
  "ReplicaClient_Insert host data rp =
     (case kwd_version data of
        None \<Rightarrow> (Throw, rp)
      | Some version \<Rightarrow>
          let request = \<lparr>kvr_key = Some (kwd_key data), kvr_value = Some (kwd_value data),
                kvr_version = Some version, kvr_source = Some SOURCE_NODE\<rparr>;
              (res, rp1) = MakeRequestWithBackoff rInsert (QInsert request) host rp in
          (Ret (case res of Inl e \<Rightarrow> Inl (WrapError e kUnknown ''insert'') | Inr _ \<Rightarrow> Inr ()), rp1))"

definition ReplicaClient_Remove ::
  "string \<Rightarrow> KeyDTO \<Rightarrow> Replication \<Rightarrow> unit res exec \<times> Replication" where
  "ReplicaClient_Remove host data rp =
     (case kd_version data of
        None \<Rightarrow> (Throw, rp)
      | Some version \<Rightarrow>
          let request = \<lparr>kr_key = Some (kd_key data), kr_version = Some version,
                kr_source = Some SOURCE_NODE\<rparr>;
              (res, rp1) = MakeRequestWithBackoff rRemove (QRemove request) host rp in
          (Ret (case res of Inl e \<Rightarrow> Inl (WrapError e kUnknown ''remove'') | Inr _ \<Rightarrow> Inr ()), rp1))"

section \<open>All nodes\<close>

text \<open>
  \<open>emplace_or_visit\<close> creates a client for a host that has none and visits an existing one; it
  says whether it created. In the first case the caller visits afterwards.
\<close>

definition emplace_or_visit ::
  "string \<Rightarrow> (string \<Rightarrow> Replication \<Rightarrow> 'r exec \<times> Replication) \<Rightarrow> 'r \<Rightarrow> Replication \<Rightarrow>
   (bool \<times> 'r) exec \<times> Replication" where
  "emplace_or_visit node f err rp =
     (if node \<in> set (rp_clients rp) then st_bind (f node rp) (\<lambda>r rp1. (Ret (False, r), rp1))
      else (Ret (True, err), rp\<lparr>rp_clients := rp_clients rp @ [node]\<rparr>))"

definition visit ::
  "string \<Rightarrow> (string \<Rightarrow> Replication \<Rightarrow> 'r exec \<times> Replication) \<Rightarrow> 'r \<Rightarrow> Replication \<Rightarrow> 'r exec \<times> Replication" where
  "visit node f err rp = (if node \<in> set (rp_clients rp) then f node rp else (Ret err, rp))"

definition do_request ::
  "string \<Rightarrow> (string \<Rightarrow> Replication \<Rightarrow> 'r exec \<times> Replication) \<Rightarrow> 'r \<Rightarrow> Replication \<Rightarrow> 'r exec \<times> Replication" where
  "do_request node f ok rp =
     st_bind (emplace_or_visit node f ok rp) (\<lambda>(emplaced, err) rp1.
       if emplaced then visit node f err rp1 else (Ret err, rp1))"

text \<open>A node that cannot be reached is logged and skipped.\<close>

fun send_to_nodes ::
  "(string \<Rightarrow> Replication \<Rightarrow> unit res exec \<times> Replication) \<Rightarrow> string list \<Rightarrow> Replication \<Rightarrow>
   unit res exec \<times> Replication" where
  "send_to_nodes f [] rp = (Ret (Inr ()), rp)"
| "send_to_nodes f (node # nodes) rp =
     st_bind (do_request node f (Inr ()) rp) (\<lambda>err rp1. send_to_nodes f nodes rp1)"

definition SendInsertToReplicas :: "KwDTO \<Rightarrow> Replication \<Rightarrow> unit res exec \<times> Replication" where
  "SendInsertToReplicas data rp =
     (case GetNodes (rp_zk rp) of
        Inl e \<Rightarrow> (Ret (Inl (WrapError e kUnknown ''failed to get nodes list'')), rp)
      | Inr nodes \<Rightarrow> send_to_nodes (\<lambda>host. ReplicaClient_Insert host data) nodes rp)"

definition SendRemoveToReplicas :: "KeyDTO \<Rightarrow> Replication \<Rightarrow> unit res exec \<times> Replication" where
  "SendRemoveToReplicas data rp =
     (case GetNodes (rp_zk rp) of
        Inl e \<Rightarrow> (Ret (Inl (WrapError e kUnknown ''failed to get nodes list'')), rp)
      | Inr nodes \<Rightarrow> send_to_nodes (\<lambda>host. ReplicaClient_Remove host data) nodes rp)"

fun newest_of_nodes ::
  "GetRequestDTO \<Rightarrow> string list \<Rightarrow> ValueDTO res \<Rightarrow> Replication \<Rightarrow> ValueDTO res exec \<times> Replication" where
  "newest_of_nodes key [] result rp = (Ret result, rp)"
| "newest_of_nodes key (node # nodes) result rp =
     st_bind (do_request node (\<lambda>host. ReplicaClient_Get host key) (Inr \<lparr>vd_value = [], vd_version = 0\<rparr>) rp)
       (\<lambda>err rp1. newest_of_nodes key nodes
          (case err of
             Inl _ \<Rightarrow> result
           | Inr v \<Rightarrow> (case result of
                 Inl _ \<Rightarrow> Inr v
               | Inr best \<Rightarrow> if vd_version best < vd_version v then Inr v else result)) rp1)"

definition GetNewestFromReplicas ::
  "GetRequestDTO \<Rightarrow> Replication \<Rightarrow> ValueDTO res exec \<times> Replication" where
  "GetNewestFromReplicas key rp =
     (case GetNodes (rp_zk rp) of
        Inl e \<Rightarrow> (Ret (Inl (WrapError e kUnknown ''failed to get nodes list'')), rp)
      | Inr nodes \<Rightarrow>
          newest_of_nodes key nodes (Inl (MakeError kUnknown ''failed to retrieve value from replicas'')) rp)"

section \<open>Retries\<close>

text \<open>
  \<open>fails_at\<close>: whether the \<open>i\<close>-th of the requests made from now on fails. The loop stops at the
  first reply; a failure, the last one included, is followed by a wait twice as long as the one
  before.
\<close>

definition outcome_result :: "rpc_outcome \<Rightarrow> GetReply res" where
  "outcome_result oc = (case oc of RpcFailed m d \<Rightarrow> Inl (request_failed m d)
     | RpcGarbled m d \<Rightarrow> Inl (request_failed m d) | RpcReply response \<Rightarrow> Inr response)"

definition attempt :: "Replication \<Rightarrow> string \<Rightarrow> rpc_request \<Rightarrow> nat \<Rightarrow> GetReply res" where
  "attempt rp host request i = outcome_result (rp_outcome rp (length (rp_sent rp) + i) host request)"

lemma MakeRequest_attempt:
  "MakeRequest type request host rp = (attempt rp host request 0,
     rp\<lparr>rp_sent := rp_sent rp @ [(host, RequestType_ToString type, request)]\<rparr>)"
  by (simp add: MakeRequest_def attempt_def outcome_result_def)

lemma attempt_next:
  "attempt (rp\<lparr>rp_sent := rp_sent rp @ [x], rp_waited := w\<rparr>) host request i = attempt rp host request (Suc i)"
  by (simp add: attempt_def)

lemma backoff_loop_reply:
  "k < tries \<Longrightarrow> \<forall>i < k. \<not> has_value (attempt rp host request i) \<Longrightarrow>
   attempt rp host request k = Inr reply \<Longrightarrow>
   backoff_loop tries delay got type request host rp = (Inr reply,
     rp\<lparr>rp_sent := rp_sent rp @ replicate (Suc k) (host, RequestType_ToString type, request),
        rp_waited := rp_waited rp @ map (\<lambda>i. delay * 2 ^ i) [0..<k]\<rparr>)"
proof (induction tries arbitrary: k delay got rp)
  case (Suc tries)
  show ?case
  proof (cases k)
    case 0
    then show ?thesis using Suc.prems by (simp add: MakeRequest_attempt)
  next
    case (Suc j)
    let ?rp = "rp\<lparr>rp_sent := rp_sent rp @ [(host, RequestType_ToString type, request)],
      rp_waited := rp_waited rp @ [delay]\<rparr>"
    have "backoff_loop tries (delay * 2) (attempt rp host request 0) type request host ?rp = (Inr reply,
      ?rp\<lparr>rp_sent := rp_sent ?rp @ replicate (Suc j) (host, RequestType_ToString type, request),
        rp_waited := rp_waited ?rp @ map (\<lambda>i. delay * 2 * 2 ^ i) [0..<j]\<rparr>)"
      using Suc.prems Suc by (intro Suc.IH) (auto simp: attempt_next)
    moreover have "\<not> has_value (attempt rp host request 0)" using Suc.prems(2) Suc by blast
    moreover have "[0..<Suc j] = 0 # map Suc [0..<j]" by (simp add: upt_conv_Cons map_Suc_upt)
    ultimately show ?thesis
      using Suc by (simp add: MakeRequest_attempt comp_def mult.assoc del: upt_Suc)
  qed
qed simp

lemma backoff_loop_failure:
  "\<forall>i < tries. \<not> has_value (attempt rp host request i) \<Longrightarrow>
   backoff_loop tries delay got type request host rp =
     (if tries = 0 then got else attempt rp host request (tries - 1),
      rp\<lparr>rp_sent := rp_sent rp @ replicate tries (host, RequestType_ToString type, request),
         rp_waited := rp_waited rp @ map (\<lambda>i. delay * 2 ^ i) [0..<tries]\<rparr>)"
proof (induction tries arbitrary: delay got rp)
  case (Suc tries)
  let ?rp = "rp\<lparr>rp_sent := rp_sent rp @ [(host, RequestType_ToString type, request)],
    rp_waited := rp_waited rp @ [delay]\<rparr>"
  have "\<forall>i < tries. \<not> has_value (attempt ?rp host request i)"
    using Suc.prems by (simp add: attempt_next)
  note ih = Suc.IH [OF this, of "delay * 2" "attempt rp host request 0"]
  have "\<not> has_value (attempt rp host request 0)" using Suc.prems by blast
  moreover have "[0..<Suc tries] = 0 # map Suc [0..<tries]" by (simp add: upt_conv_Cons map_Suc_upt)
  moreover have "(if tries = 0 then attempt rp host request 0 else attempt ?rp host request (tries - 1)) =
      attempt rp host request tries"
    by (cases tries) (simp_all add: attempt_next)
  ultimately show ?case
    using ih by (simp add: MakeRequest_attempt comp_def mult.assoc del: upt_Suc)
qed simp

text \<open>Every request to a host is made between one and five times, and only to that host.\<close>

lemma backoff_sent:
  "\<exists>n w. n \<le> 5 \<and> 0 < n \<and> snd (MakeRequestWithBackoff type request host rp) =
     rp\<lparr>rp_sent := rp_sent rp @ replicate n (host, RequestType_ToString type, request), rp_waited := w\<rparr>"
proof (cases "\<forall>i < 5. \<not> has_value (attempt rp host request i)")
  case True
  from backoff_loop_failure [OF True] show ?thesis
    unfolding MakeRequestWithBackoff_def by (intro exI [of _ 5]) auto
next
  case False
  then have "\<exists>k. k < 5 \<and> has_value (attempt rp host request k)" by blast
  then obtain k where k: "k < 5" "has_value (attempt rp host request k)"
    "\<forall>i < k. \<not> (i < 5 \<and> has_value (attempt rp host request i))"
    using exists_least_iff [of "\<lambda>k. k < 5 \<and> has_value (attempt rp host request k)"] by auto
  then obtain reply where reply: "attempt rp host request k = Inr reply" by (auto simp: has_value_iff)
  have "\<forall>i < k. \<not> has_value (attempt rp host request i)" using k(1,3) by auto
  from backoff_loop_reply [OF k(1) this reply] show ?thesis
    unfolding MakeRequestWithBackoff_def using k(1) by (intro exI [of _ "Suc k"]) auto
qed

section \<open>Sending to all nodes\<close>

lemma do_request_eq:
  "do_request node f ok rp = f node (rp\<lparr>rp_clients :=
     (if node \<in> set (rp_clients rp) then rp_clients rp else rp_clients rp @ [node])\<rparr>)"
proof (cases "node \<in> set (rp_clients rp)")
  case True
  then show ?thesis
    by (cases "f node rp", rename_tac r rp1, case_tac r)
      (simp_all add: do_request_def emplace_or_visit_def)
qed (simp add: do_request_def emplace_or_visit_def visit_def)

definition insert_request :: "KwDTO \<Rightarrow> rpc_request" where
  "insert_request data = QInsert \<lparr>kvr_key = Some (kwd_key data), kvr_value = Some (kwd_value data),
     kvr_version = kwd_version data, kvr_source = Some SOURCE_NODE\<rparr>"

definition remove_request :: "KeyDTO \<Rightarrow> rpc_request" where
  "remove_request data = QRemove \<lparr>kr_key = Some (kd_key data), kr_version = kd_version data,
     kr_source = Some SOURCE_NODE\<rparr>"

text \<open>
  \<open>delivered hosts item new\<close>: the requests \<open>new\<close> are, node after node, one to five copies of the
  request to that node.
\<close>

fun delivered :: "string list \<Rightarrow> (string \<Rightarrow> string \<times> string \<times> rpc_request) \<Rightarrow>
    (string \<times> string \<times> rpc_request) list \<Rightarrow> bool" where
  "delivered [] item new = (new = [])"
| "delivered (host # hosts) item new = (\<exists>n rest. 0 < n \<and> n \<le> 5 \<and>
     new = replicate n (item host) @ rest \<and> delivered hosts item rest)"

lemma send_to_nodes_delivered:
  assumes "\<And>host rp. \<exists>r n w. f host rp = (Ret r, rp\<lparr>rp_sent := rp_sent rp @ replicate n (item host),
      rp_waited := w\<rparr>) \<and> 0 < n \<and> n \<le> 5"
  shows "\<exists>rp' new. send_to_nodes f nodes rp = (Ret (Inr ()), rp') \<and>
    rp_sent rp' = rp_sent rp @ new \<and> delivered nodes item new \<and> rp_zk rp' = rp_zk rp"
proof (induction nodes arbitrary: rp)
  case (Cons node nodes)
  let ?rp = "rp\<lparr>rp_clients := (if node \<in> set (rp_clients rp) then rp_clients rp else rp_clients rp @ [node])\<rparr>"
  from assms [of node ?rp] obtain r n w where
    f: "f node ?rp = (Ret r, ?rp\<lparr>rp_sent := rp_sent ?rp @ replicate n (item node), rp_waited := w\<rparr>)"
    "0 < n" "n \<le> 5" by blast
  from Cons.IH [of "?rp\<lparr>rp_sent := rp_sent ?rp @ replicate n (item node), rp_waited := w\<rparr>"]
  obtain rp' new where "send_to_nodes f nodes
      (?rp\<lparr>rp_sent := rp_sent ?rp @ replicate n (item node), rp_waited := w\<rparr>) = (Ret (Inr ()), rp')"
    "rp_sent rp' = (rp_sent rp @ replicate n (item node)) @ new" "delivered nodes item new"
    "rp_zk rp' = rp_zk rp" by auto
  then show ?case
    using f by (intro exI [of _ rp'] exI [of _ "replicate n (item node) @ new"]) (auto simp: do_request_eq)
qed simp

lemma ReplicaClient_Insert_sent:
  assumes "kwd_version data = Some v"
  shows "\<exists>r n w. ReplicaClient_Insert host data rp = (Ret r, rp\<lparr>rp_sent := rp_sent rp @
      replicate n (host, ''/iu9db.Db/Insert'', insert_request data), rp_waited := w\<rparr>) \<and> 0 < n \<and> n \<le> 5"
proof -
  obtain res rp1 where m: "MakeRequestWithBackoff rInsert (insert_request data) host rp = (res, rp1)"
    by (metis surj_pair)
  with backoff_sent [of rInsert "insert_request data" host rp] show ?thesis
    using assms by (auto simp: ReplicaClient_Insert_def insert_request_def Let_def)
qed

lemma ReplicaClient_Remove_sent:
  assumes "kd_version data = Some v"
  shows "\<exists>r n w. ReplicaClient_Remove host data rp = (Ret r, rp\<lparr>rp_sent := rp_sent rp @
      replicate n (host, ''/iu9db.Db/Remove'', remove_request data), rp_waited := w\<rparr>) \<and> 0 < n \<and> n \<le> 5"
proof -
  obtain res rp1 where m: "MakeRequestWithBackoff rRemove (remove_request data) host rp = (res, rp1)"
    by (metis surj_pair)
  with backoff_sent [of rRemove "remove_request data" host rp] show ?thesis
    using assms by (auto simp: ReplicaClient_Remove_def remove_request_def Let_def)
qed

lemma SendInsert_delivered:
  assumes "kwd_version data = Some v" "GetNodes (rp_zk rp) = Inr nodes"
  shows "\<exists>rp' new. SendInsertToReplicas data rp = (Ret (Inr ()), rp') \<and> rp_sent rp' = rp_sent rp @ new \<and>
    delivered nodes (\<lambda>host. (host, ''/iu9db.Db/Insert'', insert_request data)) new"
  using send_to_nodes_delivered [of "\<lambda>host. ReplicaClient_Insert host data", OF ReplicaClient_Insert_sent [OF assms(1)]]
    assms(2) by (fastforce simp: SendInsertToReplicas_def)

lemma SendRemove_delivered:
  assumes "kd_version data = Some v" "GetNodes (rp_zk rp) = Inr nodes"
  shows "\<exists>rp' new. SendRemoveToReplicas data rp = (Ret (Inr ()), rp') \<and> rp_sent rp' = rp_sent rp @ new \<and>
    delivered nodes (\<lambda>host. (host, ''/iu9db.Db/Remove'', remove_request data)) new"
  using send_to_nodes_delivered [of "\<lambda>host. ReplicaClient_Remove host data", OF ReplicaClient_Remove_sent [OF assms(1)]]
    assms(2) by (fastforce simp: SendRemoveToReplicas_def)

lemma SendRemove_unversioned:
  assumes "kd_version data = None" "GetNodes (rp_zk rp) = Inr (node # nodes)"
  shows "fst (SendRemoveToReplicas data rp) = Throw" "rp_sent (snd (SendRemoveToReplicas data rp)) = rp_sent rp"
  using assms by (simp_all add: SendRemoveToReplicas_def do_request_eq ReplicaClient_Remove_def)

section \<open>The newest value\<close>

definition better :: "ValueDTO res \<Rightarrow> ValueDTO res \<Rightarrow> ValueDTO res" where
  "better result err = (case err of Inl _ \<Rightarrow> result
     | Inr v \<Rightarrow> (case result of Inl _ \<Rightarrow> Inr v
         | Inr best \<Rightarrow> if vd_version best < vd_version v then Inr v else result))"

lemma foldl_better_Inl: "foldl better (Inl e) rs = Inl e' \<Longrightarrow> \<forall>r \<in> set rs. \<not> has_value r"
proof (induction rs arbitrary: e)
  case (Cons r rs)
  show ?case
  proof (cases r)
    case (Inr v)
    have "has_value (foldl better (Inr w) xs)" for w xs
      by (induction xs arbitrary: w) (auto simp: better_def split: sum.splits)
    from this [of v rs] show ?thesis using Cons.prems Inr by (simp add: better_def [of "Inl e" "Inr v"])
  qed (use Cons in \<open>auto simp: better_def\<close>)
qed simp

lemma foldl_better_Inr:
  "foldl better r rs = Inr v \<Longrightarrow> Inr v \<in> set (r # rs) \<and>
     (\<forall>w. Inr w \<in> set (r # rs) \<longrightarrow> vd_version w \<le> vd_version v)"
proof (induction rs arbitrary: r)
  case (Cons x rs)
  from Cons.IH [of "better r x"] Cons.prems have
    m: "Inr v \<in> set (better r x # rs)" "\<And>w. Inr w \<in> set (better r x # rs) \<Longrightarrow> vd_version w \<le> vd_version v"
    by auto
  have b: "better r x \<in> {r, x}" by (auto simp: better_def split: sum.splits)
  have up: "\<exists>u. better r x = Inr u \<and> vd_version w \<le> vd_version u" if "Inr w \<in> {r, x}" for w
    using that by (auto simp: better_def split: sum.splits)
  show ?case
  proof (intro conjI allI impI)
    show "Inr v \<in> set (r # x # rs)" using m(1) b by auto
    fix w assume w: "Inr w \<in> set (r # x # rs)"
    show "vd_version w \<le> vd_version v"
    proof (cases "Inr w \<in> set rs")
      case False
      then have "Inr w \<in> {r, x}" using w by auto
      then obtain u where "better r x = Inr u" "vd_version w \<le> vd_version u" using up by blast
      with m(2) [of u] show ?thesis by auto
    qed (use m(2) in auto)
  qed
qed simp

text \<open>
  \<open>answers key nodes rs rp rp'\<close>: asked one after the other from the state \<open>rp\<close> on, each in the state that the
  one before has left, the clients of the nodes return the results \<open>rs\<close>, and leave \<open>rp'\<close>. A node that has no
  client yet gets one first. The results are determined by \<open>rp\<close>.
\<close>

definition with_client :: "string \<Rightarrow> Replication \<Rightarrow> Replication" where
  "with_client node rp = rp\<lparr>rp_clients :=
     (if node \<in> set (rp_clients rp) then rp_clients rp else rp_clients rp @ [node])\<rparr>"

inductive answers ::
  "GetRequestDTO \<Rightarrow> string list \<Rightarrow> ValueDTO res list \<Rightarrow> Replication \<Rightarrow> Replication \<Rightarrow> bool" where
  answers_none: "answers key [] [] rp rp"
| answers_node: "ReplicaClient_Get node key (with_client node rp) = (Ret r, rp1) \<Longrightarrow>
    answers key nodes rs rp1 rp' \<Longrightarrow> answers key (node # nodes) (r # rs) rp rp'"

inductive_cases answers_noneE: "answers key [] rs rp rp'"
inductive_cases answers_nodeE: "answers key (node # nodes) rs rp rp'"

lemma answers_determined:
  "answers key nodes rs rp rp1 \<Longrightarrow> answers key nodes rs' rp rp2 \<Longrightarrow> rs' = rs \<and> rp2 = rp1"
proof (induction arbitrary: rs' rp2 rule: answers.induct)
  case (answers_none key rp)
  then show ?case by (auto elim: answers_noneE)
next
  case (answers_node node key rp r rp1 nodes rs rp')
  from answers_node.prems obtain r' rp1' rest where n: "rs' = r' # rest"
    "ReplicaClient_Get node key (with_client node rp) = (Ret r', rp1')" "answers key nodes rest rp1' rp2"
    by (rule answers_nodeE)
  then have "r' = r" "rp1' = rp1" using answers_node.hyps(1) by simp_all
  with n answers_node.IH show ?case by blast
qed

lemma newest_of_nodes_better:
  "\<exists>rs rp'. newest_of_nodes key nodes result rp = (Ret (foldl better result rs), rp') \<and>
     answers key nodes rs rp rp' \<and> rp_zk rp' = rp_zk rp"
proof (induction nodes arbitrary: result rp)
  case (Cons node nodes)
  let ?rp = "with_client node rp"
  obtain r rp1 where g: "ReplicaClient_Get node key ?rp = (Ret r, rp1)" "rp_zk rp1 = rp_zk rp"
    using backoff_sent [of rGet "QGet \<lparr>gr_key = Some (grd_key key), gr_source = Some SOURCE_NODE,
      gr_is_master = None\<rparr>" node ?rp]
    by (cases "MakeRequestWithBackoff rGet (QGet \<lparr>gr_key = Some (grd_key key),
      gr_source = Some SOURCE_NODE, gr_is_master = None\<rparr>) node ?rp")
      (auto simp: ReplicaClient_Get_def Let_def with_client_def)
  from Cons.IH [of "better result r" rp1] obtain rs rp' where
    ih: "newest_of_nodes key nodes (better result r) rp1 = (Ret (foldl better (better result r) rs), rp')"
    "answers key nodes rs rp1 rp'" "rp_zk rp' = rp_zk rp1" by blast
  have "answers key (node # nodes) (r # rs) rp rp'" by (rule answers_node [OF g(1) ih(2)])
  then show ?case
    using g ih(1,3) by (intro exI [of _ "r # rs"] exI [of _ rp'])
      (auto simp: do_request_eq with_client_def better_def [of result r])
next
  case Nil
  show ?case by (intro exI [of _ "[]"] exI [of _ rp]) (simp add: answers_none)
qed

lemma GetNewest_newest:
  assumes "GetNodes (rp_zk rp) = Inr nodes"
  shows "\<exists>rs rp' res. GetNewestFromReplicas key rp = (Ret res, rp') \<and> answers key nodes rs rp rp' \<and>
    rp_zk rp' = rp_zk rp \<and> (case res of
      Inl _ \<Rightarrow> \<forall>r \<in> set rs. \<not> has_value r
    | Inr v \<Rightarrow> Inr v \<in> set rs \<and> (\<forall>w. Inr w \<in> set rs \<longrightarrow> vd_version w \<le> vd_version v))"
proof -
  let ?e = "MakeError kUnknown ''failed to retrieve value from replicas''"
  from newest_of_nodes_better [of key nodes "Inl ?e" rp] obtain rs rp' where
    n: "newest_of_nodes key nodes (Inl ?e) rp = (Ret (foldl better (Inl ?e) rs), rp')"
    "answers key nodes rs rp rp'" "rp_zk rp' = rp_zk rp" by blast
  then show ?thesis
    using assms foldl_better_Inl [of ?e rs] foldl_better_Inr [of "Inl ?e" rs]
    by (intro exI [of _ rs] exI [of _ rp'] exI [of _ "foldl better (Inl ?e) rs"])
      (auto simp: GetNewestFromReplicas_def split: sum.splits)
qed

end
