(* ===== verification/Controllers.thy ===== *)
theory Controllers
  imports Swap_Job Replication
begin

text \<open>
  \<open>Controller\<close> (\<open>controller.hpp\<close>, \<open>controller.cpp\<close>, \<open>insert.cpp\<close>, \<open>remove.cpp\<close>, \<open>get.cpp\<close>): the client
  operations, the coroutines that they spawn, and the job that moves the memory storage to disk.

  A spawned coroutine is a pending job. The executor runs pending jobs at the points where the
  running coroutine gives up control: \<open>ct_ready\<close> says at which of them it does, \<open>ct_env\<close> what
  the callbacks of the Zookeeper client have done to their state since the point before. A job
  that captures a parameter of its creator by reference names the creator's frame; the parameter is
  in \<open>ct_frames\<close> as long as that call has not returned.
\<close>

section \<open>State\<close>

datatype frame = FrameKw KwDTO | FrameKey KeyDTO

datatype job = JobSwap | JobSendInsert nat | JobSendRemove nat

record controller =
  ct_sys :: system
  ct_guard :: JobGuard
  ct_gen :: VersionNumberGenerator
  ct_rep :: Replication
  ct_frames :: "nat \<Rightarrow> frame option"
  ct_next :: nat
  ct_jobs :: "job list"
  ct_aborted :: "job list"
  ct_point :: nat
  ct_ready :: "nat \<Rightarrow> bool"
  ct_env :: "nat \<Rightarrow> zk \<Rightarrow> zk"
  ct_weak :: nat

definition kThreshold_controller :: nat where
  "kThreshold_controller = 5"

definition new_Controller ::
  "system \<Rightarrow> VersionNumberGenerator \<Rightarrow> Replication \<Rightarrow> (nat \<Rightarrow> bool) \<Rightarrow> (nat \<Rightarrow> zk \<Rightarrow> zk) \<Rightarrow> nat \<Rightarrow> controller" where
  "new_Controller s gen rp ready env weak = \<lparr>ct_sys = s, ct_guard = new_JobGuard, ct_gen = gen, ct_rep = rp,
     ct_frames = (\<lambda>_. None), ct_next = 0, ct_jobs = [], ct_aborted = [], ct_point = 0,
     ct_ready = ready, ct_env = env, ct_weak = weak\<rparr>"

section \<open>Jobs\<close>

text \<open>
  The coroutine of a job. The guard is released behind the job only if it returns; a reference to a
  parameter of a call that has returned dangles. The errors of the replication are only logged.
\<close>

fun run_job :: "codecs \<Rightarrow> job \<Rightarrow> controller \<Rightarrow> unit exec \<times> controller" where
  "run_job cs JobSwap c =
     (let (r, s) = SwapToPersistentStorage cs (ct_sys c) in
      st_bind (r, c\<lparr>ct_sys := s\<rparr>) (\<lambda>_ c1. (Ret (), c1\<lparr>ct_guard := Release (ct_guard c1)\<rparr>)))"
| "run_job cs (JobSendInsert a) c =
     (case ct_frames c a of
        Some (FrameKw data) \<Rightarrow>
          (let (r, rp) = SendInsertToReplicas data (ct_rep c) in (exec_bind r (\<lambda>_. Ret ()), c\<lparr>ct_rep := rp\<rparr>))
      | _ \<Rightarrow> (Undef, c))"
| "run_job cs (JobSendRemove a) c =
     (case ct_frames c a of
        Some (FrameKey data) \<Rightarrow>
          (let (r, rp) = SendRemoveToReplicas data (ct_rep c) in (exec_bind r (\<lambda>_. Ret ()), c\<lparr>ct_rep := rp\<rparr>))
      | _ \<Rightarrow> (Undef, c))"

text \<open>
  The coroutines that replicate are spawned with the token \<open>detached\<close>, which drops their exceptions: such a job
  is over then, and the others go on. The swap job is spawned without a token: its exception is thrown again
  where the executor has resumed it, and leaves the loop of the executor. Nothing catches it, so the
  program ends (\<open>Throw\<close>), with the other jobs still pending.
\<close>

definition detached :: "job \<Rightarrow> bool" where
  "detached j \<longleftrightarrow> (case j of JobSwap \<Rightarrow> False | JobSendInsert _ \<Rightarrow> True | JobSendRemove _ \<Rightarrow> True)"

lemma detached_simps [simp]: "\<not> detached JobSwap" "detached (JobSendInsert a)" "detached (JobSendRemove a)"
  by (simp_all add: detached_def)

fun run_jobs :: "codecs \<Rightarrow> job list \<Rightarrow> controller \<Rightarrow> unit exec \<times> controller" where
  "run_jobs cs [] c = (Ret (), c)"
| "run_jobs cs (j # js) c = (case run_job cs j c of
       (Ret _, c1) \<Rightarrow> run_jobs cs js c1
     | (Throw, c1) \<Rightarrow>
         (let c2 = c1\<lparr>ct_aborted := ct_aborted c1 @ [j]\<rparr> in
          if detached j then run_jobs cs js c2 else (Throw, c2\<lparr>ct_jobs := js @ ct_jobs c2\<rparr>))
     | (Undef, c1) \<Rightarrow> (Undef, c1)
     | (Hang, c1) \<Rightarrow> (Hang, c1))"

definition poll :: "codecs \<Rightarrow> controller \<Rightarrow> unit exec \<times> controller" where
  "poll cs c =
     (let k = ct_point c;
          c1 = c\<lparr>ct_point := Suc k, ct_rep := (ct_rep c)\<lparr>rp_zk := ct_env c k (rp_zk (ct_rep c))\<rparr>\<rparr> in
      if ct_ready c k then run_jobs cs (ct_jobs c1) (c1\<lparr>ct_jobs := []\<rparr>) else (Ret (), c1))"

definition spawn :: "codecs \<Rightarrow> job \<Rightarrow> controller \<Rightarrow> unit exec \<times> controller" where
  "spawn cs j c = poll cs (c\<lparr>ct_jobs := ct_jobs c @ [j]\<rparr>)"

section \<open>Operations\<close>

text \<open>An operation of the storage system, run on its part of the state.\<close>

definition on_system :: "(system \<Rightarrow> ('a \<times> system) exec) \<Rightarrow> controller \<Rightarrow> 'a exec \<times> controller" where
  "on_system f c = (case f (ct_sys c) of
       Ret (r, s) \<Rightarrow> (Ret r, c\<lparr>ct_sys := s\<rparr>)
     | Throw \<Rightarrow> (Throw, c) | Undef \<Rightarrow> (Undef, c) | Hang \<Rightarrow> (Hang, c))"

definition storage_size :: "system \<Rightarrow> (nat \<times> system) exec" where
  "storage_size s = exec_bind (Swappable_Size (ss_mem s)) (\<lambda>(n, mem). Ret (n, s\<lparr>ss_mem := mem\<rparr>))"

definition TriggerSwapToPersistentStorage :: "codecs \<Rightarrow> controller \<Rightarrow> unit exec \<times> controller" where
  "TriggerSwapToPersistentStorage cs c =
     st_bind (on_system storage_size c) (\<lambda>size c1.
       if size < kThreshold_controller then (Ret (), c1)
       else let (acquired, guard) = TryAcquire (ct_guard c1); c2 = c1\<lparr>ct_guard := guard\<rparr> in
         if \<not> acquired then (Ret (), c2) else spawn cs JobSwap c2)"

text \<open>A call puts its parameter into a new frame, which goes when the call ends in any way.\<close>

definition set_frame :: "nat \<Rightarrow> frame \<Rightarrow> controller \<Rightarrow> controller" where
  "set_frame a f c = c\<lparr>ct_frames := (ct_frames c)(a \<mapsto> f)\<rparr>"

definition in_frame ::
  "frame \<Rightarrow> (nat \<Rightarrow> controller \<Rightarrow> 'a exec \<times> controller) \<Rightarrow> controller \<Rightarrow> 'a exec \<times> controller" where
  "in_frame f body c =
     (let a = ct_next c; (r, c1) = body a (set_frame a f (c\<lparr>ct_next := Suc a\<rparr>)) in
      (r, c1\<lparr>ct_frames := (ct_frames c1)(a := None)\<rparr>))"

text \<open>
  \<open>Controller::Insert\<close>. The coroutine that replicates the request refers to \<open>data\<close>; the strings of
  \<open>data\<close> are moved away before the storage is called, its version is not.
\<close>

definition Controller_Insert :: "codecs \<Rightarrow> KwDTO \<Rightarrow> controller \<Rightarrow> unit res exec \<times> controller" where
  "Controller_Insert cs data = in_frame (FrameKw data) (\<lambda>a c.
     st_bind
       (case kwd_version data of
          None \<Rightarrow> (let (version, gen) = Generate (ct_gen c); data1 = data\<lparr>kwd_version := Some version\<rparr> in
            st_bind (spawn cs (JobSendInsert a) (set_frame a (FrameKw data1) (c\<lparr>ct_gen := gen\<rparr>)))
              (\<lambda>_ c1. (Ret version, c1)))
        | Some version \<Rightarrow> (Ret version, c\<lparr>ct_gen := UpdateMaxVersion (ct_weak c) version (ct_gen c)\<rparr>))
       (\<lambda>version c1.
     let kw_pair = \<lparr>kw_key = kwd_key data, kw_value = kwd_value data, kw_version = version\<rparr>;
         moved = \<lparr>kwd_key = [], kwd_value = [], kwd_version = Some version\<rparr> in
     st_bind (poll cs (set_frame a (FrameKw moved) c1)) (\<lambda>_ c2.
     st_bind (on_system (StorageSystem_Insert cs kw_pair) c2) (\<lambda>err c3. case err of
       Inl e \<Rightarrow> (Ret (Inl e), c3)
     | Inr _ \<Rightarrow> st_bind (TriggerSwapToPersistentStorage cs c3) (\<lambda>_ c4. (Ret (Inr ()), c4))))))"

text \<open>
  \<open>Controller::Remove\<close>. The parameter is moved from before the coroutine that refers to it is
  spawned: its key is empty then, and its version as the client sent it, absent.
\<close>

definition Controller_Remove :: "codecs \<Rightarrow> KeyDTO \<Rightarrow> controller \<Rightarrow> unit res exec \<times> controller" where
  "Controller_Remove cs data = in_frame (FrameKey (data\<lparr>kd_key := []\<rparr>)) (\<lambda>a c.
     st_bind
       (case kd_version data of
          None \<Rightarrow> (let (version, gen) = Generate (ct_gen c) in
            st_bind (spawn cs (JobSendRemove a) (c\<lparr>ct_gen := gen\<rparr>)) (\<lambda>_ c1. (Ret version, c1)))
        | Some version \<Rightarrow> (Ret version, c\<lparr>ct_gen := UpdateMaxVersion (ct_weak c) version (ct_gen c)\<rparr>))
       (\<lambda>version c1.
     st_bind (poll cs c1) (\<lambda>_ c2.
     st_bind (on_system (StorageSystem_Remove cs (kd_key data) version) c2) (\<lambda>err c3. (Ret err, c3)))))"

text \<open>\<open>Controller::Get\<close>: a newer answer of a replica is returned and stored.\<close>

definition Controller_Get :: "codecs \<Rightarrow> GetRequestDTO \<Rightarrow> controller \<Rightarrow> ValueDTO res exec \<times> controller" where
  "Controller_Get cs data c =
     (let (r, rp) = GetNewestFromReplicas data (ct_rep c) in
      st_bind (r, c\<lparr>ct_rep := rp\<rparr>) (\<lambda>got_replicas c1.
      st_bind (poll cs c1) (\<lambda>_ c2.
      st_bind (on_system (StorageSystem_Get cs (grd_key data)) c2) (\<lambda>got_local c3.
        case got_replicas of
          Inl _ \<Rightarrow> (Ret got_local, c3)
        | Inr value \<Rightarrow>
            if \<not> has_value got_local \<or> (case got_local of Inl _ \<Rightarrow> False | Inr local \<Rightarrow> vd_version local < vd_version value)
            then st_bind (on_system (StorageSystem_Insert cs \<lparr>kw_key = grd_key data,
                     kw_value = vd_value value, kw_version = vd_version value\<rparr>) c3)
                   (\<lambda>_ c4. (Ret (Inr value), c4))
            else (Ret got_local, c3)))))"

section \<open>The guard of the swap job\<close>

text \<open>
  The guard is held exactly while one swap job is pending or has been ended by an exception. The
  invariant is stated for a state in which the jobs \<open>js\<close> have been taken from the queue.
\<close>

definition swap_jobs :: "job list \<Rightarrow> controller \<Rightarrow> nat" where
  "swap_jobs js c = count_list (js @ ct_jobs c @ ct_aborted c) JobSwap"

definition guard_inv :: "job list \<Rightarrow> controller \<Rightarrow> bool" where
  "guard_inv js c \<longleftrightarrow> swap_jobs js c = (if is_job_running (ct_guard c) then 1 else 0)"

text \<open>What the jobs and the guard depend on; the storage and replication parts are left out.\<close>

definition same_jobs :: "controller \<Rightarrow> controller \<Rightarrow> bool" where
  "same_jobs c c' \<longleftrightarrow> ct_jobs c' = ct_jobs c \<and> ct_aborted c' = ct_aborted c \<and> ct_guard c' = ct_guard c"

lemma same_jobs_simps [simp]:
  "same_jobs c c" "same_jobs c (c\<lparr>ct_sys := s\<rparr>)" "same_jobs c (c\<lparr>ct_rep := rp\<rparr>)"
  "same_jobs c (c\<lparr>ct_gen := g\<rparr>)" "same_jobs c (set_frame a f c)"
  "same_jobs c (c\<lparr>ct_frames := fr\<rparr>)" "same_jobs c (c\<lparr>ct_next := n\<rparr>)"
  by (simp_all add: same_jobs_def set_frame_def)

lemma guard_inv_same: "same_jobs c c' \<Longrightarrow> guard_inv js c' = guard_inv js c"
  by (simp add: same_jobs_def guard_inv_def swap_jobs_def)

lemma run_job_effect:
  assumes "run_job cs j c = (r, c1)"
  shows "ct_jobs c1 = ct_jobs c" "ct_aborted c1 = ct_aborted c"
    "j = JobSwap \<and> r = Ret () \<Longrightarrow> \<not> is_job_running (ct_guard c1)"
    "\<not> (j = JobSwap \<and> r = Ret ()) \<Longrightarrow> ct_guard c1 = ct_guard c"
  using assms
  by (cases j; cases "fst (SwapToPersistentStorage cs (ct_sys c))";
      fastforce simp: Let_def Release_def st_bind_def split: option.splits frame.splits prod.splits)+

lemma run_jobs_guard:
  "run_jobs cs js c = (r, c') \<Longrightarrow> r \<noteq> Undef \<Longrightarrow> r \<noteq> Hang \<Longrightarrow> guard_inv js c \<Longrightarrow> guard_inv [] c'"
proof (induction js arbitrary: c)
  case (Cons j js)
  obtain r1 c1 where j: "run_job cs j c = (r1, c1)" by (metis surj_pair)
  note e = run_job_effect [OF j]
  let ?a = "c1\<lparr>ct_aborted := ct_aborted c1 @ [j]\<rparr>"
  from Cons.prems(4) have "count_list js JobSwap + (count_list (ct_jobs c) JobSwap +
      (count_list (ct_aborted c) JobSwap + (if j = JobSwap then 1 else 0))) =
      (if is_job_running (ct_guard c) then 1 else 0)"
    by (simp add: guard_inv_def swap_jobs_def split: if_splits)
  then have g: "r1 = Ret () \<Longrightarrow> guard_inv js c1" "r1 \<noteq> Ret () \<Longrightarrow> guard_inv js ?a"
    using e by (auto simp: guard_inv_def swap_jobs_def split: if_splits)
  then have "r1 \<noteq> Ret () \<Longrightarrow> guard_inv [] (?a\<lparr>ct_jobs := js @ ct_jobs ?a\<rparr>)" by (simp add: guard_inv_def swap_jobs_def)
  with Cons.prems(1-3) Cons.IH [of c1] Cons.IH [of ?a] j g show ?case
    by (cases r1) (auto simp: Let_def split: if_splits)
qed simp

lemma poll_guard:
  assumes "poll cs c = (r, c')" "r \<noteq> Undef" "r \<noteq> Hang" "guard_inv [] c"
  shows "guard_inv [] c'"
proof -
  let ?c = "c\<lparr>ct_point := Suc (ct_point c),
    ct_rep := (ct_rep c)\<lparr>rp_zk := ct_env c (ct_point c) (rp_zk (ct_rep c))\<rparr>\<rparr>"
  have "guard_inv [] ?c" "guard_inv (ct_jobs c) (?c\<lparr>ct_jobs := []\<rparr>)"
    using assms(4) by (simp_all add: guard_inv_def swap_jobs_def)
  then show ?thesis using assms(1-3) run_jobs_guard
    by (auto simp: poll_def Let_def split: if_splits)
qed

text \<open>\<open>guarded\<close>: a computation that ends with the invariant, unless it is undefined or hangs.\<close>

definition guarded :: "'a exec \<times> controller \<Rightarrow> bool" where
  "guarded m \<longleftrightarrow> fst m = Undef \<or> fst m = Hang \<or> guard_inv [] (snd m)"

lemma guarded_return: "guard_inv [] c \<Longrightarrow> guarded (r, c)"
  by (simp add: guarded_def)

lemma guarded_bind:
  "guarded m \<Longrightarrow> (\<And>x c. guard_inv [] c \<Longrightarrow> guarded (f x c)) \<Longrightarrow> guarded (st_bind m f)"
  by (cases m; cases "fst m") (auto simp: guarded_def)

lemma guarded_poll: "guard_inv [] c \<Longrightarrow> guarded (poll cs c)"
  using poll_guard [of cs c] by (cases "poll cs c") (auto simp: guarded_def)

lemma guarded_spawn:
  assumes "guard_inv [j] c"
  shows "guarded (spawn cs j c)"
proof -
  have "guard_inv [] (c\<lparr>ct_jobs := ct_jobs c @ [j]\<rparr>)"
    using assms by (auto simp: guard_inv_def swap_jobs_def split: if_splits)
  then show ?thesis unfolding spawn_def by (rule guarded_poll)
qed

lemma guarded_on_system: "guard_inv [] c \<Longrightarrow> guarded (on_system f c)"
  by (auto simp: on_system_def guarded_def guard_inv_def swap_jobs_def split: exec.split)

lemma guard_inv_other_job: "j \<noteq> JobSwap \<Longrightarrow> guard_inv [j] c = guard_inv [] c"
  by (simp add: guard_inv_def swap_jobs_def)

lemma guarded_Trigger: "guard_inv [] c \<Longrightarrow> guarded (TriggerSwapToPersistentStorage cs c)"
  unfolding TriggerSwapToPersistentStorage_def
proof (rule guarded_bind [OF guarded_on_system])
  fix size c1 assume i: "guard_inv [] c1"
  show "guarded (if size < kThreshold_controller then (Ret (), c1)
    else let (acquired, guard) = TryAcquire (ct_guard c1); c2 = c1\<lparr>ct_guard := guard\<rparr>
      in if \<not> acquired then (Ret (), c2) else spawn cs JobSwap c2)"
    using i by (auto simp: TryAcquire_def Let_def intro!: guarded_return guarded_spawn)
      (auto simp: guard_inv_def swap_jobs_def)
qed

lemma guarded_in_frame:
  assumes "\<And>a c. guard_inv [] c \<Longrightarrow> guarded (body a c)" "guard_inv [] c"
  shows "guarded (in_frame f body c)"
proof -
  obtain r c1 where b: "body (ct_next c) (set_frame (ct_next c) f (c\<lparr>ct_next := Suc (ct_next c)\<rparr>)) = (r, c1)"
    by (metis surj_pair)
  have "guard_inv [] (set_frame (ct_next c) f (c\<lparr>ct_next := Suc (ct_next c)\<rparr>))"
    using assms(2) by (simp add: guard_inv_def swap_jobs_def set_frame_def)
  from assms(1) [OF this, of "ct_next c"] b show ?thesis
    by (auto simp: in_frame_def guarded_def guard_inv_def swap_jobs_def)
qed

lemma guarded_Insert: "guard_inv [] c \<Longrightarrow> guarded (Controller_Insert cs data c)"
  unfolding Controller_Insert_def
  by (rule guarded_in_frame)
    (auto simp: Let_def guard_inv_other_job guard_inv_same [OF same_jobs_simps(4)]
        guard_inv_same [OF same_jobs_simps(5)] split: option.split sum.split prod.split
      intro!: guarded_bind guarded_return guarded_spawn guarded_poll guarded_on_system guarded_Trigger)

lemma guarded_Remove: "guard_inv [] c \<Longrightarrow> guarded (Controller_Remove cs data c)"
  unfolding Controller_Remove_def
  by (rule guarded_in_frame)
    (auto simp: Let_def guard_inv_other_job guard_inv_same [OF same_jobs_simps(4)]
        guard_inv_same [OF same_jobs_simps(5)] split: option.split sum.split prod.split
      intro!: guarded_bind guarded_return guarded_spawn guarded_poll guarded_on_system)

lemma guarded_Get: "guard_inv [] c \<Longrightarrow> guarded (Controller_Get cs data c)"
  unfolding Controller_Get_def
  by (auto simp: Let_def guard_inv_same [OF same_jobs_simps(3)] split: sum.split prod.split
      intro!: guarded_bind guarded_return guarded_poll guarded_on_system)

section \<open>Runs of a controller\<close>

text \<open>
  Client calls and turns of the executor, in any order. A call or a turn that ends by an exception leaves a
  state too, although the program ends there; one that is undefined or hangs has no state after it.
\<close>

inductive ctl_step :: "codecs \<Rightarrow> controller \<Rightarrow> controller \<Rightarrow> bool" for cs :: codecs where
  insert_call: "Controller_Insert cs kw c = (r, c') \<Longrightarrow> r \<noteq> Undef \<Longrightarrow> r \<noteq> Hang \<Longrightarrow> ctl_step cs c c'"
| remove_call: "Controller_Remove cs key c = (r, c') \<Longrightarrow> r \<noteq> Undef \<Longrightarrow> r \<noteq> Hang \<Longrightarrow> ctl_step cs c c'"
| get_call: "Controller_Get cs get c = (q, c') \<Longrightarrow> q \<noteq> Undef \<Longrightarrow> q \<noteq> Hang \<Longrightarrow> ctl_step cs c c'"
| executor_turn: "poll cs c = (u, c') \<Longrightarrow> u \<noteq> Undef \<Longrightarrow> u \<noteq> Hang \<Longrightarrow> ctl_step cs c c'"

inductive ctl_reach :: "codecs \<Rightarrow> controller \<Rightarrow> controller \<Rightarrow> bool" for cs :: codecs and c0 :: controller where
  ctl_refl: "ctl_reach cs c0 c0"
| ctl_more: "ctl_reach cs c0 c \<Longrightarrow> ctl_step cs c c' \<Longrightarrow> ctl_reach cs c0 c'"

lemma guarded_end: "guarded m \<Longrightarrow> m = (r, c') \<Longrightarrow> r \<noteq> Undef \<Longrightarrow> r \<noteq> Hang \<Longrightarrow> guard_inv [] c'"
  by (auto simp: guarded_def)

lemma guard_inv_step: "ctl_step cs c c' \<Longrightarrow> guard_inv [] c \<Longrightarrow> guard_inv [] c'"
  by (induction rule: ctl_step.induct)
    (blast intro: guarded_end guarded_Insert guarded_Remove guarded_Get poll_guard)+

lemma guard_inv_reach: "ctl_reach cs c c' \<Longrightarrow> guard_inv [] c \<Longrightarrow> guard_inv [] c'"
  by (induction rule: ctl_reach.induct) (blast intro: guard_inv_step)+

lemma guard_inv_new: "guard_inv [] (new_Controller s gen rp ready env weak)"
  by (simp add: guard_inv_def swap_jobs_def new_Controller_def new_JobGuard_def)

text \<open>An exception in the swap job ends the program while the guard is held.\<close>

lemma swap_job_exception:
  assumes "ct_ready c (ct_point c)" "ct_jobs c = JobSwap # js" "SwapToPersistentStorage cs (ct_sys c) = (Throw, s)"
  shows "\<exists>c'. poll cs c = (Throw, c') \<and> ct_guard c' = ct_guard c \<and> ct_sys c' = s"
  using assms by (simp add: poll_def Let_def)

section \<open>The requests of a call\<close>

text \<open>What a call leaves of the requests sent: only the jobs that replicate send any.\<close>

abbreviation sent :: "controller \<Rightarrow> (string \<times> string \<times> rpc_request) list" where
  "sent c \<equiv> rp_sent (ct_rep c)"

lemma run_swap_rep: "run_job cs JobSwap c = (r, c') \<Longrightarrow>
    ct_rep c' = ct_rep c \<and> ct_frames c' = ct_frames c \<and> ct_point c' = ct_point c \<and>
    ct_ready c' = ct_ready c \<and> ct_env c' = ct_env c \<and> ct_gen c' = ct_gen c"
  by (cases "fst (SwapToPersistentStorage cs (ct_sys c))")
    (auto simp: Let_def st_bind_def split: prod.splits)

lemma on_system_simps [simp]:
  "ct_rep (snd (on_system f c)) = ct_rep c" "ct_jobs (snd (on_system f c)) = ct_jobs c"
  "ct_frames (snd (on_system f c)) = ct_frames c" "ct_point (snd (on_system f c)) = ct_point c"
  "ct_ready (snd (on_system f c)) = ct_ready c" "ct_env (snd (on_system f c)) = ct_env c"
  "ct_guard (snd (on_system f c)) = ct_guard c" "ct_aborted (snd (on_system f c)) = ct_aborted c"
  by (auto simp: on_system_def split: exec.split)

lemma set_frame_simps [simp]:
  "ct_sys (set_frame a f c) = ct_sys c" "ct_guard (set_frame a f c) = ct_guard c"
  "ct_gen (set_frame a f c) = ct_gen c" "ct_rep (set_frame a f c) = ct_rep c"
  "ct_frames (set_frame a f c) = (ct_frames c)(a \<mapsto> f)" "ct_next (set_frame a f c) = ct_next c"
  "ct_jobs (set_frame a f c) = ct_jobs c" "ct_aborted (set_frame a f c) = ct_aborted c"
  "ct_point (set_frame a f c) = ct_point c" "ct_ready (set_frame a f c) = ct_ready c"
  "ct_env (set_frame a f c) = ct_env c"
  by (simp_all add: set_frame_def)

definition polled :: "controller \<Rightarrow> controller" where
  "polled c = c\<lparr>ct_point := Suc (ct_point c),
     ct_rep := (ct_rep c)\<lparr>rp_zk := ct_env c (ct_point c) (rp_zk (ct_rep c))\<rparr>\<rparr>"

lemma polled_simps [simp]:
  "ct_sys (polled c) = ct_sys c" "ct_guard (polled c) = ct_guard c" "ct_gen (polled c) = ct_gen c"
  "sent (polled c) = sent c" "rp_zk (ct_rep (polled c)) = ct_env c (ct_point c) (rp_zk (ct_rep c))"
  "ct_frames (polled c) = ct_frames c" "ct_next (polled c) = ct_next c" "ct_jobs (polled c) = ct_jobs c"
  "ct_aborted (polled c) = ct_aborted c" "ct_point (polled c) = Suc (ct_point c)"
  "ct_ready (polled c) = ct_ready c" "ct_env (polled c) = ct_env c" "ct_weak (polled c) = ct_weak c"
  by (simp_all add: polled_def)

lemma poll_eq: "poll cs c = (if ct_ready c (ct_point c) then
    run_jobs cs (ct_jobs c) ((polled c)\<lparr>ct_jobs := []\<rparr>) else (Ret (), polled c))"
  by (simp add: poll_def polled_def Let_def)

lemma poll_idle: "\<not> ct_ready c (ct_point c) \<or> ct_jobs c = [] \<Longrightarrow> poll cs c = (Ret (), polled c)"
  by (cases "polled c") (auto simp: poll_eq dest: arg_cong [where f = ct_jobs])

lemma spawn_waits: "\<not> ct_ready c (ct_point c) \<Longrightarrow> spawn cs j c = (Ret (), polled (c\<lparr>ct_jobs := ct_jobs c @ [j]\<rparr>))"
  unfolding spawn_def by (rule poll_idle) simp

lemma spawn_runs: "ct_ready c (ct_point c) \<Longrightarrow> ct_jobs c = [] \<Longrightarrow>
    spawn cs j c = run_jobs cs [j] (polled c)"
proof -
  assume a: "ct_ready c (ct_point c)" "ct_jobs c = []"
  have "(polled (c\<lparr>ct_jobs := [j]\<rparr>))\<lparr>ct_jobs := []\<rparr> = polled c" using a(2) by (cases c) (simp add: polled_def)
  then show ?thesis using a by (simp add: spawn_def poll_eq)
qed

lemma SendRemove_unversioned_silent:
  assumes "kd_version data = None"
  shows "rp_sent (snd (SendRemoveToReplicas data rp)) = rp_sent rp"
proof (cases "GetNodes (rp_zk rp)")
  case (Inr nodes)
  then show ?thesis using SendRemove_unversioned(2) [OF assms]
    by (cases nodes) (auto simp: SendRemoveToReplicas_def)
qed (simp add: SendRemoveToReplicas_def)

lemma st_bind_snd:
  assumes "P (snd m)" "\<And>x. P (snd m) \<Longrightarrow> P (snd (f x (snd m)))"
  shows "P (snd (st_bind m f))"
  using assms by (cases m; cases "fst m") auto


text \<open>Without jobs that replicate, nothing is sent.\<close>

definition quiet :: "(string \<times> string \<times> rpc_request) list \<Rightarrow> controller \<Rightarrow> bool" where
  "quiet S c \<longleftrightarrow> sent c = S \<and> set (ct_jobs c) \<subseteq> {JobSwap}"

lemma quiet_run: "set js \<subseteq> {JobSwap} \<Longrightarrow> quiet S c \<Longrightarrow> quiet S (snd (run_jobs cs js c))"
proof (induction js arbitrary: c)
  case (Cons j js)
  obtain r c1 where j: "run_job cs JobSwap c = (r, c1)" by (metis surj_pair)
  have "quiet S c1" using run_swap_rep [OF j] run_job_effect(1) [OF j] Cons.prems(2) by (simp add: quiet_def)
  moreover from this have "quiet S (c1\<lparr>ct_aborted := x\<rparr>)" "quiet S (c1\<lparr>ct_aborted := x, ct_jobs := js @ ct_jobs c1\<rparr>)" for x
    using Cons.prems(1) by (simp_all add: quiet_def)
  ultimately show ?case using Cons j by (cases r) (auto simp: Let_def simp del: run_job.simps)
qed simp

lemma quiet_poll: "quiet S c \<Longrightarrow> quiet S (snd (poll cs c))"
  using quiet_run [of "ct_jobs c" S "(polled c)\<lparr>ct_jobs := []\<rparr>"] by (auto simp: poll_eq quiet_def)

text \<open>
  \<open>unsent\<close>: nothing but swap jobs and one removal is pending, and nothing has been sent since. The frame of
  the removal is gone, or it holds a request without a version.
\<close>

definition unsent :: "nat \<Rightarrow> (string \<times> string \<times> rpc_request) list \<Rightarrow> controller \<Rightarrow> bool" where
  "unsent a S c \<longleftrightarrow> sent c = S \<and> set (ct_jobs c) \<subseteq> {JobSwap, JobSendRemove a} \<and>
     (\<forall>f. ct_frames c a = Some f \<longrightarrow> (\<exists>data. f = FrameKey data \<and> kd_version data = None))"

lemma unsent_updates [simp]:
  "unsent a S (c\<lparr>ct_sys := s\<rparr>) = unsent a S c" "unsent a S (c\<lparr>ct_guard := g\<rparr>) = unsent a S c"
  "unsent a S (c\<lparr>ct_aborted := js\<rparr>) = unsent a S c" "unsent a S (c\<lparr>ct_ready := rd\<rparr>) = unsent a S c"
  "unsent a S (polled c) = unsent a S c" "unsent a S (snd (on_system f c)) = unsent a S c"
  by (simp_all add: unsent_def)

lemma unsent_run_job:
  assumes "j \<in> {JobSwap, JobSendRemove a}" "unsent a S c"
  shows "unsent a S (snd (run_job cs j c))"
proof (cases "j = JobSwap")
  case True
  obtain r c1 where e: "run_job cs JobSwap c = (r, c1)" by (metis surj_pair)
  then show ?thesis using True run_swap_rep [OF e] run_job_effect(1) [OF e] assms(2)
    by (simp add: unsent_def del: run_job.simps)
next
  case False
  then have j: "j = JobSendRemove a" using assms(1) by simp
  show ?thesis
  proof (cases "ct_frames c a")
    case (Some f)
    then obtain data where f: "f = FrameKey data" "kd_version data = None" using assms(2) by (auto simp: unsent_def)
    obtain q rp where q: "SendRemoveToReplicas data (ct_rep c) = (q, rp)" by (metis surj_pair)
    then have "rp_sent rp = sent c" using SendRemove_unversioned_silent [OF f(2), of "ct_rep c"] by simp
    then show ?thesis using Some f(1) j q assms(2) by (simp add: unsent_def)
  qed (use j assms(2) in simp)
qed

lemma unsent_run_jobs:
  "set js \<subseteq> {JobSwap, JobSendRemove a} \<Longrightarrow> unsent a S c \<Longrightarrow> unsent a S (snd (run_jobs cs js c))"
proof (induction js arbitrary: c)
  case (Cons j js)
  obtain r c1 where j: "run_job cs j c = (r, c1)" by (metis surj_pair)
  have u: "unsent a S c1" using unsent_run_job [of j a S c cs] Cons.prems j by simp
  then have "unsent a S (c1\<lparr>ct_aborted := x, ct_jobs := js @ ct_jobs c1\<rparr>)" for x
    using Cons.prems(1) by (auto simp: unsent_def)
  with u show ?case using Cons.IH [of c1] Cons.IH [of "c1\<lparr>ct_aborted := ct_aborted c1 @ [j]\<rparr>"] Cons.prems(1) j
    by (cases r) (simp_all add: Let_def)
qed simp

lemma unsent_poll: "unsent a S c \<Longrightarrow> unsent a S (snd (poll cs c))"
  using unsent_run_jobs [of "ct_jobs c" a S "(polled c)\<lparr>ct_jobs := []\<rparr>"]
  by (auto simp: poll_eq) (simp_all add: unsent_def)

text \<open>A pending removal whose call has returned: the executor does not get past it.\<close>

lemma run_jobs_dangling: "JobSendRemove a \<in> set js \<Longrightarrow> set js \<subseteq> {JobSwap, JobSendRemove a} \<Longrightarrow>
  ct_frames c a = None \<Longrightarrow> fst (run_jobs cs js c) \<noteq> Ret ()"
proof (induction js arbitrary: c)
  case (Cons j js)
  show ?case
  proof (cases "j = JobSwap")
    case True
    obtain r c1 where j: "run_job cs JobSwap c = (r, c1)" by (metis surj_pair)
    then have "ct_frames c1 a = None" using run_swap_rep [OF j] Cons.prems(3) by simp
    then show ?thesis using Cons.IH [of c1] Cons.prems True j by (cases r) (auto simp: Let_def simp del: run_job.simps)
  next
    case False
    then have "j = JobSendRemove a" using Cons.prems(2) by simp
    then show ?thesis using Cons.prems(3) by simp
  qed
qed simp

lemma poll_dangling:
  assumes "JobSendRemove a \<in> set (ct_jobs c)" "set (ct_jobs c) \<subseteq> {JobSwap, JobSendRemove a}" "ct_frames c a = None"
    "ct_ready c (ct_point c)"
  shows "fst (poll cs c) \<noteq> Ret ()"
  using run_jobs_dangling [OF assms(1,2), of "(polled c)\<lparr>ct_jobs := []\<rparr>"] assms(3,4) by (simp add: poll_eq)

text \<open>Any number of further turns of the executor.\<close>

fun executor_turns :: "codecs \<Rightarrow> nat \<Rightarrow> controller \<Rightarrow> unit exec \<times> controller" where
  "executor_turns cs 0 c = (Ret (), c)"
| "executor_turns cs (Suc k) c = st_bind (poll cs c) (\<lambda>_. executor_turns cs k)"

lemma unsent_turns: "unsent a S c \<Longrightarrow> unsent a S (snd (executor_turns cs k c))"
  by (induction k arbitrary: c) (auto intro!: st_bind_snd [where P = "unsent a S"] unsent_poll)

lemma Controller_Remove_unsent:
  assumes "set (ct_jobs c) \<subseteq> {JobSwap}"
  shows "unsent (ct_next c) (sent c) (snd (Controller_Remove cs data c)) \<and>
    ct_frames (snd (Controller_Remove cs data c)) (ct_next c) = None \<and>
    (kd_version data \<noteq> None \<longrightarrow> set (ct_jobs (snd (Controller_Remove cs data c))) \<subseteq> {JobSwap})"
proof (cases "kd_version data")
  case (Some v)
  let ?a = "ct_next c"
  let ?c1 = "set_frame ?a (FrameKey (data\<lparr>kd_key := []\<rparr>)) (c\<lparr>ct_next := Suc ?a\<rparr>)
    \<lparr>ct_gen := UpdateMaxVersion (ct_weak c) v (ct_gen c)\<rparr>"
  let ?m = "st_bind (poll cs ?c1) (\<lambda>_ c2.
       st_bind (on_system (StorageSystem_Remove cs (kd_key data) v) c2) (\<lambda>err c3. (Ret err, c3)))"
  have "quiet (sent c) ?c1" using assms by (simp add: quiet_def)
  from quiet_poll [OF this, of cs] have "quiet (sent c) (snd ?m)"
    by (intro st_bind_snd [where P = "quiet (sent c)"]) (simp_all add: quiet_def)
  moreover have "ct_weak (set_frame a f c) = ct_weak c" for a f c by (simp add: set_frame_def)
  ultimately show ?thesis using Some
    by (auto simp: Controller_Remove_def in_frame_def Let_def case_prod_beta unsent_def quiet_def)
next
  case None
  let ?a = "ct_next c" and ?d = "data\<lparr>kd_key := []\<rparr>"
  let ?body = "\<lambda>a c. st_bind (st_bind (spawn cs (JobSendRemove a) (c\<lparr>ct_gen := snd (Generate (ct_gen c))\<rparr>))
      (\<lambda>_ c1. (Ret (fst (Generate (ct_gen c))), c1)))
     (\<lambda>version c1. st_bind (poll cs c1) (\<lambda>_ c2.
       st_bind (on_system (StorageSystem_Remove cs (kd_key data) version) c2) (\<lambda>err c3. (Ret err, c3))))"
  have w: "unsent ?a (sent c) ((set_frame ?a (FrameKey ?d) (c\<lparr>ct_next := Suc ?a\<rparr>))
      \<lparr>ct_gen := g, ct_jobs := ct_jobs c @ [JobSendRemove ?a]\<rparr>)" for g
    using assms None by (auto simp: unsent_def)
  have "unsent ?a (sent c) (snd (?body ?a (set_frame ?a (FrameKey ?d) (c\<lparr>ct_next := Suc ?a\<rparr>))))"
    by (intro st_bind_snd [where P = "unsent ?a (sent c)"])
      (auto simp: spawn_def intro!: unsent_poll w)
  then show ?thesis using None
    by (auto simp: Controller_Remove_def in_frame_def Let_def case_prod_beta unsent_def)
qed

lemma Controller_Remove_silent:
  assumes "set (ct_jobs c) \<subseteq> {JobSwap}" "Controller_Remove cs data c = (r, c')"
  shows "sent (snd (executor_turns cs k (c'\<lparr>ct_ready := rd\<rparr>))) = sent c"
    "set (ct_jobs c') \<subseteq> {JobSwap, JobSendRemove (ct_next c)}" "ct_frames c' (ct_next c) = None"
    "kd_version data \<noteq> None \<Longrightarrow> set (ct_jobs c') \<subseteq> {JobSwap}"
proof -
  note u = Controller_Remove_unsent [OF assms(1), of cs data, unfolded assms(2) snd_conv]
  have "unsent (ct_next c) (sent c) (c'\<lparr>ct_ready := rd\<rparr>)" using u by simp
  from unsent_turns [OF this, of cs k] show "sent (snd (executor_turns cs k (c'\<lparr>ct_ready := rd\<rparr>))) = sent c"
    unfolding unsent_def by blast
  show "set (ct_jobs c') \<subseteq> {JobSwap, JobSendRemove (ct_next c)}" "ct_frames c' (ct_next c) = None"
    "kd_version data \<noteq> None \<Longrightarrow> set (ct_jobs c') \<subseteq> {JobSwap}"
    using u unfolding unsent_def by blast+
qed

text \<open>A property that the steps of the trigger keep; its last step may start the swap job.\<close>

lemma on_system_state: "\<exists>s. snd (on_system f c) = c\<lparr>ct_sys := s\<rparr>"
  by (cases "f (ct_sys c)") (auto simp: on_system_def intro: exI [of _ "ct_sys c"])

lemma Trigger_post:
  assumes keep: "\<And>s c. Q c \<Longrightarrow> Q (c\<lparr>ct_sys := s\<rparr>)" "\<And>g c. Q c \<Longrightarrow> Q (c\<lparr>ct_guard := g\<rparr>)"
    and last: "\<And>c. Q c \<Longrightarrow> Q' c" "\<And>c. Q c \<Longrightarrow> Q' (snd (spawn cs JobSwap c))" and pre: "Q c"
  shows "Q' (snd (TriggerSwapToPersistentStorage cs c))"
proof -
  obtain r c1 where s: "on_system storage_size c = (r, c1)" by (metis surj_pair)
  have q: "Q c1" using on_system_state [of storage_size c] keep(1) [OF pre] s by auto
  note l = last(1) [OF q] last(1) [OF keep(2) [OF q]] last(2) [OF keep(2) [OF q]]
  show ?thesis
    unfolding TriggerSwapToPersistentStorage_def s by (cases r) (simp_all add: Let_def case_prod_beta l)
qed

text \<open>The last steps of an insert: the storage, then the trigger.\<close>

lemma insert_post:
  assumes keep: "\<And>s c. Q c \<Longrightarrow> Q (c\<lparr>ct_sys := s\<rparr>)" "\<And>g c. Q c \<Longrightarrow> Q (c\<lparr>ct_guard := g\<rparr>)"
    and last: "\<And>c. Q c \<Longrightarrow> Q' c" "\<And>c. Q c \<Longrightarrow> Q' (snd (spawn cs JobSwap c))" and pre: "Q c"
  shows "Q' (snd (st_bind (on_system f c) (\<lambda>err c3. case err of
       Inl e \<Rightarrow> (Ret (Inl e), c3)
     | Inr _ \<Rightarrow> st_bind (TriggerSwapToPersistentStorage cs c3) (\<lambda>_ c4. (Ret (Inr ()), c4)))))"
proof -
  obtain r c3 where s: "on_system f c = (r, c3)" by (metis surj_pair)
  have q: "Q c3" using on_system_state [of f c] keep(1) [OF pre] s by auto
  obtain t c4 where t: "TriggerSwapToPersistentStorage cs c3 = (t, c4)" by (metis surj_pair)
  have "Q' c4" using Trigger_post [of Q Q' cs c3, OF keep last q] t by simp
  then show ?thesis
    unfolding s using last(1) [OF q] t by (cases r; cases t) (auto split: sum.split)
qed

lemma quiet_steps:
  "quiet S c \<Longrightarrow> quiet S (snd (on_system f c))" "quiet S c \<Longrightarrow> quiet S (c\<lparr>ct_guard := g\<rparr>)"
  "quiet S c \<Longrightarrow> quiet S (snd (spawn cs JobSwap c))" "quiet S c \<Longrightarrow> quiet S (set_frame a fr c)"
  using quiet_poll [of S "c\<lparr>ct_jobs := ct_jobs c @ [JobSwap]\<rparr>"] by (auto simp: quiet_def spawn_def)

lemmas quiet_insert_post = insert_post [where Q = "quiet S" and Q' = "quiet S" for S, OF
  _ quiet_steps(2) _ quiet_steps(3)]

section \<open>When the replication of an insert starts\<close>

lemma run_send_insert:
  assumes "ct_frames c a = Some (FrameKw data)" "kwd_version data = Some v" "GetNodes (rp_zk (ct_rep c)) = Inr nodes"
  shows "\<exists>rp new. run_jobs cs [JobSendInsert a] c = (Ret (), c\<lparr>ct_rep := rp\<rparr>) \<and> rp_sent rp = sent c @ new \<and>
    delivered nodes (\<lambda>host. (host, ''/iu9db.Db/Insert'', insert_request data)) new"
proof -
  from SendInsert_delivered [OF assms(2,3)] obtain rp' new where
    "SendInsertToReplicas data (ct_rep c) = (Ret (Inr ()), rp')" "rp_sent rp' = sent c @ new"
    "delivered nodes (\<lambda>host. (host, ''/iu9db.Db/Insert'', insert_request data)) new" by blast
  then show ?thesis using assms(1) by (intro exI [of _ rp'] exI [of _ new]) simp
qed

definition nodes_stay :: "string list \<Rightarrow> controller \<Rightarrow> bool" where
  "nodes_stay nodes c \<longleftrightarrow> GetNodes (rp_zk (ct_rep c)) = Inr nodes \<and>
     (\<forall>k z. GetNodes z = Inr nodes \<longrightarrow> GetNodes (ct_env c k z) = Inr nodes)"

abbreviation sent_to_all :: "string list \<Rightarrow> KwDTO \<Rightarrow> (string \<times> string \<times> rpc_request) list \<Rightarrow> bool" where
  "sent_to_all nodes data new \<equiv> delivered nodes (\<lambda>host. (host, ''/iu9db.Db/Insert'', insert_request data)) new"

definition stuck :: "nat \<Rightarrow> (string \<times> string \<times> rpc_request) list \<Rightarrow> controller \<Rightarrow> bool" where
  "stuck a S c \<longleftrightarrow> sent c = S \<and> (\<exists>js. ct_jobs c = JobSendInsert a # js)"

text \<open>The body of an unversioned insert, once its frame is there.\<close>

definition insert_body :: "codecs \<Rightarrow> KwDTO \<Rightarrow> u64 \<Rightarrow> nat \<Rightarrow> controller \<Rightarrow> unit res exec \<times> controller" where
  "insert_body cs data version a c = st_bind (spawn cs (JobSendInsert a) c) (\<lambda>_ c1.
     st_bind (poll cs (set_frame a (FrameKw \<lparr>kwd_key = [], kwd_value = [], kwd_version = Some version\<rparr>) c1)) (\<lambda>_ c2.
     st_bind (on_system (StorageSystem_Insert cs
         \<lparr>kw_key = kwd_key data, kw_value = kwd_value data, kw_version = version\<rparr>) c2) (\<lambda>err c3. case err of
       Inl e \<Rightarrow> (Ret (Inl e), c3)
     | Inr _ \<Rightarrow> st_bind (TriggerSwapToPersistentStorage cs c3) (\<lambda>_ c4. (Ret (Inr ()), c4)))))"

lemma st_bind_assoc: "st_bind (st_bind m f) g = st_bind m (\<lambda>x s. st_bind (f x s) g)"
  by (cases m; cases "fst m") auto

lemma Controller_Insert_unversioned:
  assumes "kwd_version data = None" "Generate (ct_gen c) = (version, gen)"
  shows "Controller_Insert cs data c = (let a = ct_next c; (r, c1) = insert_body cs data version a
     (set_frame a (FrameKw (data\<lparr>kwd_version := Some version\<rparr>)) (c\<lparr>ct_next := Suc a, ct_gen := gen\<rparr>)) in
     (r, c1\<lparr>ct_frames := (ct_frames c1)(a := None)\<rparr>))"
proof -
  have "set_frame a f (set_frame a f' c) = set_frame a f c" "(set_frame a f c)\<lparr>ct_gen := g\<rparr> = set_frame a f (c\<lparr>ct_gen := g\<rparr>)"
    for a f f' g c by (cases c, simp add: set_frame_def)+
  then show ?thesis using assms
    by (simp add: Controller_Insert_def in_frame_def insert_body_def st_bind_assoc Let_def)
qed

lemma insert_body_at_once:
  assumes "ct_jobs c = []" "ct_frames c a = Some (FrameKw data1)" "kwd_version data1 = Some v"
    "nodes_stay nodes c" "ct_ready c (ct_point c)"
  shows "\<exists>new. sent (snd (insert_body cs data version a c)) = sent c @ new \<and> sent_to_all nodes data1 new"
proof -
  from run_send_insert [of "polled c" a data1 v nodes cs] assms obtain rp new where
    r: "run_jobs cs [JobSendInsert a] (polled c) = (Ret (), (polled c)\<lparr>ct_rep := rp\<rparr>)"
      "rp_sent rp = sent c @ new" "sent_to_all nodes data1 new" by (auto simp: nodes_stay_def)
  let ?c2 = "polled (set_frame a (FrameKw \<lparr>kwd_key = [], kwd_value = [], kwd_version = Some version\<rparr>) ((polled c)\<lparr>ct_rep := rp\<rparr>))"
  have "quiet (sent c @ new) ?c2" using r(2) assms(1) by (simp add: quiet_def)
  then have "quiet (sent c @ new) (snd (insert_body cs data version a c))"
    unfolding insert_body_def spawn_runs [OF assms(5,1)] r(1) using assms(1)
    by (simp add: poll_idle) (rule quiet_insert_post, simp_all add: quiet_def)
  then show ?thesis using r(3) by (auto simp: quiet_def)
qed

lemma insert_body_next_turn:
  assumes "ct_jobs c = []" "nodes_stay nodes c" "\<not> ct_ready c (ct_point c)" "ct_ready c (Suc (ct_point c))"
  shows "\<exists>new. sent (snd (insert_body cs data version a c)) = sent c @ new \<and>
    sent_to_all nodes \<lparr>kwd_key = [], kwd_value = [], kwd_version = Some version\<rparr> new"
proof -
  let ?data = "\<lparr>kwd_key = [], kwd_value = [], kwd_version = Some version\<rparr>"
  let ?c1 = "set_frame a (FrameKw ?data) (polled (c\<lparr>ct_jobs := [JobSendInsert a]\<rparr>))"
  from run_send_insert [of "(polled ?c1)\<lparr>ct_jobs := []\<rparr>" a ?data version nodes cs] assms(2) obtain rp new where
    r: "run_jobs cs [JobSendInsert a] ((polled ?c1)\<lparr>ct_jobs := []\<rparr>) =
        (Ret (), (polled ?c1)\<lparr>ct_jobs := [], ct_rep := rp\<rparr>)"
      "rp_sent rp = sent c @ new" "sent_to_all nodes ?data new" by (auto simp: nodes_stay_def)
  have p: "poll cs ?c1 = (Ret (), (polled ?c1)\<lparr>ct_jobs := [], ct_rep := rp\<rparr>)"
    using assms(4) r(1) by (simp add: poll_eq)
  have "quiet (sent c @ new) ((polled ?c1)\<lparr>ct_jobs := [], ct_rep := rp\<rparr>)" using r(2) by (simp add: quiet_def)
  then have "quiet (sent c @ new) (snd (insert_body cs data version a c))"
    unfolding insert_body_def spawn_waits [OF assms(3)] using p assms(1)
    by simp (rule quiet_insert_post, simp_all add: quiet_def)
  then show ?thesis using r(3) by (auto simp: quiet_def)
qed

lemma insert_body_too_late:
  assumes "ct_jobs c = []" "\<forall>k \<in> {0, 1, 2}. \<not> ct_ready c (ct_point c + k)"
  shows "stuck a (sent c) (snd (insert_body cs data version a c))"
proof -
  let ?c1 = "set_frame a (FrameKw \<lparr>kwd_key = [], kwd_value = [], kwd_version = Some version\<rparr>)
    (polled (c\<lparr>ct_jobs := [JobSendInsert a]\<rparr>))"
  have "\<not> ct_ready c (ct_point c)" "\<not> ct_ready ?c1 (ct_point ?c1)" "\<not> ct_ready (polled ?c1) (ct_point (polled ?c1))"
    using assms(2) by (simp_all add: numeral_2_eq_2)
  then show ?thesis
    unfolding insert_body_def using assms(1)
    by (simp add: spawn_waits poll_idle)
      (rule insert_post [where Q = "\<lambda>c. stuck a (sent ?c1) c \<and> \<not> ct_ready c (ct_point c)" and Q' = "stuck a (sent ?c1)",
          simplified], auto simp: stuck_def spawn_waits)
qed

lemma stuck_poll:
  assumes "ct_jobs c = JobSendInsert a # js" "ct_frames c a = None"
  shows "fst (poll cs (c\<lparr>ct_ready := \<lambda>_. True\<rparr>)) = Undef"
  using assms by (simp add: poll_eq)

lemma Controller_Insert_schedule:
  assumes "ct_jobs c = []" "kwd_version data = None" "nodes_stay nodes c"
    "fst (Generate (ct_gen c)) = version" "snd (Controller_Insert cs data c) = c'"
  shows "ct_ready c (ct_point c) \<Longrightarrow>
      \<exists>new. sent c' = sent c @ new \<and> sent_to_all nodes (data\<lparr>kwd_version := Some version\<rparr>) new"
    "\<not> ct_ready c (ct_point c) \<Longrightarrow> ct_ready c (Suc (ct_point c)) \<Longrightarrow>
      \<exists>new. sent c' = sent c @ new \<and>
        sent_to_all nodes \<lparr>kwd_key = [], kwd_value = [], kwd_version = Some version\<rparr> new"
    "\<forall>k \<in> {0, 1, 2}. \<not> ct_ready c (ct_point c + k) \<Longrightarrow>
      sent c' = sent c \<and> fst (poll cs (c'\<lparr>ct_ready := \<lambda>_. True\<rparr>)) = Undef"
proof -
  let ?c0 = "set_frame (ct_next c) (FrameKw (data\<lparr>kwd_version := Some version\<rparr>))
    (c\<lparr>ct_next := Suc (ct_next c), ct_gen := snd (Generate (ct_gen c))\<rparr>)"
  let ?b = "snd (insert_body cs data version (ct_next c) ?c0)"
  have c': "c' = ?b\<lparr>ct_frames := (ct_frames ?b)(ct_next c := None)\<rparr>"
    using assms(4,5) Controller_Insert_unversioned [OF assms(2), of c version _ cs]
    by (cases "Generate (ct_gen c)") (auto simp: Let_def case_prod_beta)
  have s: "nodes_stay nodes ?c0" using assms(3) by (simp add: nodes_stay_def)
  show "ct_ready c (ct_point c) \<Longrightarrow>
      \<exists>new. sent c' = sent c @ new \<and> sent_to_all nodes (data\<lparr>kwd_version := Some version\<rparr>) new"
    using insert_body_at_once [of ?c0 "ct_next c" "data\<lparr>kwd_version := Some version\<rparr>" version nodes cs data version]
      assms(1) s by (simp add: c')
  show "\<not> ct_ready c (ct_point c) \<Longrightarrow> ct_ready c (Suc (ct_point c)) \<Longrightarrow>
      \<exists>new. sent c' = sent c @ new \<and>
        sent_to_all nodes \<lparr>kwd_key = [], kwd_value = [], kwd_version = Some version\<rparr> new"
    using insert_body_next_turn [OF _ s, of cs data version "ct_next c"] assms(1) by (simp add: c')
  show "\<forall>k \<in> {0, 1, 2}. \<not> ct_ready c (ct_point c + k) \<Longrightarrow>
      sent c' = sent c \<and> fst (poll cs (c'\<lparr>ct_ready := \<lambda>_. True\<rparr>)) = Undef"
    using insert_body_too_late [of ?c0 "ct_next c" cs data version] assms(1)
    by (auto simp: stuck_def c' intro!: stuck_poll)
qed

section \<open>Reads\<close>

lemma on_system_Ret: "f (ct_sys c) = Ret (r, s) \<Longrightarrow> on_system f c = (Ret r, c\<lparr>ct_sys := s\<rparr>)"
  by (simp add: on_system_def)

text \<open>What is found on this node, what a read answers, and what it writes back.\<close>

definition local_answer :: "codecs \<Rightarrow> system \<Rightarrow> string \<Rightarrow> ValueDTO res" where
  "local_answer cs s k = lookup_result k (sw_view (ss_mem s) k) (sys_tables cs s k)"

definition newer_elsewhere :: "ValueDTO res \<Rightarrow> ValueDTO res \<Rightarrow> bool" where
  "newer_elsewhere here there = (case there of Inl _ \<Rightarrow> False
     | Inr value \<Rightarrow> (case here of Inl _ \<Rightarrow> True | Inr v \<Rightarrow> vd_version v < vd_version value))"

lemma Controller_Get_repair:
  assumes "sys_inv cs (ct_sys c)" "ct_jobs c = []"
    "fst (GetNewestFromReplicas data (ct_rep c)) = Ret there"
    "local_answer cs (ct_sys c) (grd_key data) = here"
  shows "\<exists>c'. Controller_Get cs data c = (Ret (if newer_elsewhere here there then there else here), c') \<and>
    sys_inv cs (ct_sys c') \<and> sys_tables cs (ct_sys c') = sys_tables cs (ct_sys c) \<and>
    sw_view (ss_mem (ct_sys c')) = (case there of
        Inl _ \<Rightarrow> sw_view (ss_mem (ct_sys c))
      | Inr value \<Rightarrow> if newer_elsewhere here there
          then (sw_view (ss_mem (ct_sys c)))(grd_key data \<mapsto> \<lparr>val_value = Some (vd_value value), val_version = vd_version value\<rparr>)
          else sw_view (ss_mem (ct_sys c)))"
proof -
  obtain rp where g: "GetNewestFromReplicas data (ct_rep c) = (Ret there, rp)"
    using assms(3) by (metis prod.collapse)
  let ?c2 = "polled (c\<lparr>ct_rep := rp\<rparr>)"
  have p: "poll cs (c\<lparr>ct_rep := rp\<rparr>) = (Ret (), ?c2)" by (rule poll_idle) (simp add: assms(2))
  have l: "on_system (StorageSystem_Get cs (grd_key data)) ?c2 = (Ret here, ?c2\<lparr>ct_sys := ct_sys c\<rparr>)"
    by (rule on_system_Ret) (use StorageSystem_Get_view [OF assms(1)] assms(4) in
      \<open>simp add: local_answer_def sys_tables_def\<close>)
  show ?thesis
  proof (cases "newer_elsewhere here there")
    case True
    then obtain w where v: "there = Inr w" by (auto simp: newer_elsewhere_def split: sum.splits)
    let ?p = "\<lparr>kw_key = grd_key data, kw_value = vd_value w, kw_version = vd_version w\<rparr>"
    have "\<not> older_than (kw_version ?p) (lookup_result (kw_key ?p) (sw_view (ss_mem (ct_sys c)) (kw_key ?p))
        (tables_view cs (ss_fs (ct_sys c)) (collection (ss_tables (ct_sys c))) (kw_key ?p)))"
      using True v assms(4) by (auto simp: newer_elsewhere_def older_than_def local_answer_def sys_tables_def split: sum.splits)
    from StorageSystem_Insert_effect [OF assms(1) this] obtain s' where s':
      "StorageSystem_Insert cs ?p (ct_sys c) = Ret (Inr (), s')" "sys_inv cs s'"
      "sw_view (ss_mem s') = (sw_view (ss_mem (ct_sys c)))(grd_key data \<mapsto> \<lparr>val_value = Some (vd_value w), val_version = vd_version w\<rparr>)"
      "sys_tables cs s' = sys_tables cs (ct_sys c)" by (auto simp: sys_tables_def)
    have "\<not> has_value here \<or> (case here of Inl _ \<Rightarrow> False | Inr local \<Rightarrow> vd_version local < vd_version w)"
      using True v by (auto simp: newer_elsewhere_def split: sum.splits)
    then show ?thesis
      using g p l v True s' by (simp add: Controller_Get_def on_system_Ret)
  next
    case False
    then have "there = Inr w \<Longrightarrow> \<not> (\<not> has_value here \<or>
        (case here of Inl _ \<Rightarrow> False | Inr local \<Rightarrow> vd_version local < vd_version w))" for w
      by (auto simp: newer_elsewhere_def split: sum.splits)
    then show ?thesis using g p l False assms(1) by (cases there) (auto simp: Controller_Get_def)
  qed
qed

section \<open>An insert that fills the memory storage\<close>

lemma entries_view_unique:
  assumes "entries_view xs = entries_view ys" "distinct (map se_key xs)" "distinct (map se_key ys)"
  shows "mset xs = mset ys"
proof -
  have "set xs \<subseteq> set ys" if "entries_view xs = entries_view ys" "distinct (map se_key xs)" for xs ys
  proof
    fix e assume "e \<in> set xs"
    then have "entries_view xs (se_key e) = Some (entry_value e)"
      using that(2) by (auto simp: entries_view_eq_map_of intro!: map_of_is_SomeI image_eqI [of _ _ e] simp: comp_def)
    then have "entries_view ys (se_key e) = Some (entry_value e)" using that(1) by simp
    then obtain f where "f \<in> set ys" "se_key f = se_key e" "entry_value f = entry_value e"
      by (auto simp: entries_view_eq_map_of dest!: map_of_SomeD)
    then have "f = e" by (simp add: entry_value_def)
    with \<open>f \<in> set ys\<close> show "e \<in> set ys" by simp
  qed
  from this [OF assms(1,2)] this [OF assms(1) [symmetric] assms(3)] have "set xs = set ys" by blast
  then show ?thesis using assms(2,3) by (simp add: distinct_map set_eq_iff_mset_eq_distinct)
qed

lemma job_fits_perm: "mset xs = mset ys \<Longrightarrow> job_fits cs s xs \<Longrightarrow> job_fits cs s ys"
proof -
  assume m: "mset xs = mset ys" and f: "job_fits cs s xs"
  have "sort ys = sort xs" using m by (metis properties_for_sort mset_sort sorted_sort)
  moreover have "ys \<noteq> []" using m f by (auto simp: job_fits_def)
  ultimately show "job_fits cs s ys" using f unfolding job_fits_def compacted_def by simp
qed

lemma storage_size_effect:
  assumes "sys_inv cs s" "sw_idle (ss_mem s)" "entries_view es = sw_view (ss_mem s)" "distinct (map se_key es)"
  shows "\<exists>mem. storage_size s = Ret (length es, s\<lparr>ss_mem := mem\<rparr>) \<and> sw_inv mem \<and> sw_idle mem \<and>
    sw_view mem = sw_view (ss_mem s) \<and> sw_base mem = sw_view (ss_mem s)"
proof -
  obtain ma mb where r: "sw_rep (ss_mem s) False ma mb" using assms(2) by (auto simp: sw_idle_def)
  from rep_Size [OF r] obtain mem where m: "Swappable_Size (ss_mem s) = Ret (length (ms_map mb), mem)"
    "sw_rep mem False ma mb" by (auto simp: MapStorage_Size_def)
  have v: "entries_view es = ms_view mb"
    using assms(3) sw_view_rep [OF r] rep_idle_empty [OF r] by simp
  have "mset (ToEntries (ms_map mb)) = mset es"
    by (rule entries_view_unique)
      (use r assms(4) v in \<open>auto simp: sw_rep_def ms_inv_def ms_view_def entries_view_ToEntries keys_ToEntries\<close>)
  then have "length (ms_map mb) = length es" by (metis ToEntries_map length_map size_mset)
  then show ?thesis
    using m r rep_inv rep_idle_empty [OF r] rep_idle [OF m(2)] rep_base [OF m(2)]
      sw_view_rep [OF m(2)] sw_view_rep [OF r]
    by (auto simp: storage_size_def)
qed

lemma sys_mem_simps [simp]:
  "sys_tables cs (s\<lparr>ss_mem := mem\<rparr>) = sys_tables cs s" "sys_log cs (s\<lparr>ss_mem := mem\<rparr>) = sys_log cs s"
  "job_fits cs (s\<lparr>ss_mem := mem\<rparr>) data = job_fits cs s data"
  "sys_inv cs s \<Longrightarrow> sw_inv mem \<Longrightarrow> sys_inv cs (s\<lparr>ss_mem := mem\<rparr>)"
  by (simp_all add: sys_tables_def sys_log_def job_fits_def compacted_def sys_inv_def)

text \<open>What the trigger makes of a system: nothing below the threshold, else all is in the tables.\<close>

definition flushed :: "codecs \<Rightarrow> system \<Rightarrow> system \<Rightarrow> bool" where
  "flushed cs s s' \<longleftrightarrow> sys_inv cs s' \<and> sys_tables cs s' = sys_view cs s \<and> sw_view (ss_mem s') = Map.empty \<and>
     sw_idle (ss_mem s') \<and> sys_log cs s' = [] \<and> Collection_Size (ss_tables s') \<le> kThreshold"

lemma swap_job_flushes:
  assumes "sys_inv cs s" "sw_idle (ss_mem s)" "tables_full (ss_tables s)" "entries_view es = sw_base (ss_mem s)"
    "distinct (map se_key es)" "job_fits cs s es"
  shows "\<exists>s'. SwapToPersistentStorage cs s = (Ret (), s') \<and> flushed cs s s'"
proof -
  have i: "sw_inv (ss_mem s)" using assms(1) by (simp add: sys_inv_def)
  from sw.collect_law [OF i] obtain data mem1 where
    d: "SwappableCollect (ss_mem s) = Ret (data, mem1)" "entries_view data = sw_base (ss_mem s)"
      "distinct (map se_key data)" by blast
  have "mset es = mset data" by (rule entries_view_unique) (use assms(4,5) d in auto)
  from job_fits_perm [OF this assms(6)] have "job_fits cs s data" .
  from SwapToPersistentStorage_ok [OF assms(1,3) d(1) this] obtain s' where
    s': "SwapToPersistentStorage cs s = (Ret (), s')" "sys_inv cs s'"
      "sys_tables cs s' = sys_tables cs s ++ sw_base (ss_mem s)" "sw_view (ss_mem s') = sw_recent (ss_mem s)"
      "sw_idle (ss_mem s')" "sys_log cs s' = []" "Collection_Size (ss_tables s') \<le> kThreshold" by blast
  moreover have "sw_recent (ss_mem s) = Map.empty" "sw_view (ss_mem s) = sw_base (ss_mem s)"
    using sw.idle_recent [OF i assms(2)] sw.view_split [OF i] by simp_all
  ultimately show ?thesis by (simp add: flushed_def sys_view_split)
qed

lemma Trigger_effect:
  assumes "sys_inv cs (ct_sys c)" "sw_idle (ss_mem (ct_sys c))" "ct_jobs c = []" "\<not> is_job_running (ct_guard c)"
    "ct_ready c (ct_point c)" "tables_full (ss_tables (ct_sys c))"
    "entries_view es = sw_view (ss_mem (ct_sys c))" "distinct (map se_key es)" "job_fits cs (ct_sys c) es"
  shows "\<exists>c'. TriggerSwapToPersistentStorage cs c = (Ret (), c') \<and> \<not> is_job_running (ct_guard c') \<and>
    (if length es < 5 then (\<exists>mem. ct_sys c' = (ct_sys c)\<lparr>ss_mem := mem\<rparr> \<and> sw_view mem = sw_view (ss_mem (ct_sys c)))
     else flushed cs (ct_sys c) (ct_sys c'))"
proof -
  from storage_size_effect [OF assms(1,2,7,8)] obtain mem where
    m: "storage_size (ct_sys c) = Ret (length es, (ct_sys c)\<lparr>ss_mem := mem\<rparr>)" "sw_inv mem" "sw_idle mem"
      "sw_view mem = sw_view (ss_mem (ct_sys c))" "sw_base mem = sw_view (ss_mem (ct_sys c))" by blast
  let ?s = "(ct_sys c)\<lparr>ss_mem := mem\<rparr>"
  have t: "on_system storage_size c = (Ret (length es), c\<lparr>ct_sys := ?s\<rparr>)" by (rule on_system_Ret) (rule m(1))
  show ?thesis
  proof (cases "length es < 5")
    case True
    then show ?thesis
      using assms(4) m by (simp add: TriggerSwapToPersistentStorage_def t kThreshold_controller_def) blast
  next
    case False
    have "sys_view cs ?s = sys_view cs (ct_sys c)" using m(4) by (simp add: sys_view_split)
    with swap_job_flushes [of cs ?s es] obtain s' where
      s': "SwapToPersistentStorage cs ?s = (Ret (), s')" "flushed cs (ct_sys c) s'"
      using assms(1,6-9) m by (auto simp: flushed_def)
    let ?g = "snd (TryAcquire (ct_guard c))"
    let ?c2 = "c\<lparr>ct_sys := ?s, ct_guard := ?g\<rparr>"
    have "run_job cs JobSwap (polled ?c2) = (Ret (), (polled ?c2)\<lparr>ct_sys := s', ct_guard := Release ?g\<rparr>)"
      using s'(1) by simp
    moreover have "spawn cs JobSwap ?c2 = run_jobs cs [JobSwap] (polled ?c2)"
      by (rule spawn_runs) (use assms(3,5) in simp_all)
    ultimately have "spawn cs JobSwap ?c2 = (Ret (), (polled ?c2)\<lparr>ct_sys := s', ct_guard := Release ?g\<rparr>)"
      by (simp del: run_job.simps)
    moreover have "fst (TryAcquire (ct_guard c))" using assms(4) by (simp add: TryAcquire_def)
    ultimately have "TriggerSwapToPersistentStorage cs c =
        (Ret (), (polled ?c2)\<lparr>ct_sys := s', ct_guard := Release ?g\<rparr>)"
      using False by (simp add: TriggerSwapToPersistentStorage_def t kThreshold_controller_def Let_def case_prod_beta)
    then show ?thesis using False s'(2) by (simp add: Release_def)
  qed
qed

lemma Controller_Insert_flushes:
  assumes "sys_inv cs (ct_sys c)" "ct_jobs c = []" "\<not> is_job_running (ct_guard c)" "ct_ready c (Suc (ct_point c))"
    "kwd_version data = Some v"
    "StorageSystem_Insert cs \<lparr>kw_key = kwd_key data, kw_value = kwd_value data, kw_version = v\<rparr> (ct_sys c) = Ret (Inr (), s)"
    "sys_inv cs s" "sw_idle (ss_mem s)" "tables_full (ss_tables s)"
    "entries_view es = sw_view (ss_mem s)" "distinct (map se_key es)" "job_fits cs s es"
  shows "\<exists>c'. Controller_Insert cs data c = (Ret (Inr ()), c') \<and> \<not> is_job_running (ct_guard c') \<and>
    (if length es < 5 then (\<exists>mem. ct_sys c' = s\<lparr>ss_mem := mem\<rparr> \<and> sw_view mem = sw_view (ss_mem s))
     else flushed cs s (ct_sys c'))"
proof -
  let ?moved = "FrameKw \<lparr>kwd_key = [], kwd_value = [], kwd_version = Some v\<rparr>"
  let ?c1 = "set_frame (ct_next c) ?moved (set_frame (ct_next c) (FrameKw data) (c\<lparr>ct_next := Suc (ct_next c)\<rparr>)
    \<lparr>ct_gen := UpdateMaxVersion (ct_weak c) v (ct_gen c)\<rparr>)"
  let ?c3 = "(polled ?c1)\<lparr>ct_sys := s\<rparr>"
  have p: "poll cs ?c1 = (Ret (), polled ?c1)" by (rule poll_idle) (simp add: assms(2))
  have i: "on_system (StorageSystem_Insert cs
      \<lparr>kw_key = kwd_key data, kw_value = kwd_value data, kw_version = v\<rparr>) (polled ?c1) = (Ret (Inr ()), ?c3)"
    by (rule on_system_Ret) (use assms(6) in simp)
  have c3: "ct_sys ?c3 = s" "ct_jobs ?c3 = []" "ct_guard ?c3 = ct_guard c" "ct_ready ?c3 = ct_ready c"
    "ct_point ?c3 = Suc (ct_point c)" using assms(2) by simp_all
  from Trigger_effect [of cs ?c3 es, unfolded c3, OF assms(7,8) refl assms(3,4,9-12)] obtain c4 where
    t: "TriggerSwapToPersistentStorage cs ?c3 = (Ret (), c4)" "\<not> is_job_running (ct_guard c4)"
    "if length es < 5 then (\<exists>mem. ct_sys c4 = s\<lparr>ss_mem := mem\<rparr> \<and> sw_view mem = sw_view (ss_mem s))
     else flushed cs s (ct_sys c4)" by blast
  have "ct_weak (set_frame a f c) = ct_weak c" for a f c by (simp add: set_frame_def)
  then have "Controller_Insert cs data c =
      (Ret (Inr ()), c4\<lparr>ct_frames := (ct_frames c4)(ct_next c := None)\<rparr>)"
    using assms(5) p i t(1) by (simp add: Controller_Insert_def in_frame_def Let_def)
  with t(2,3) show ?thesis by (auto split: if_splits)
qed

end
