(* ===== verification/Views.thy ===== *)
theory Views
  imports Controllers
begin

text \<open>
  The request handlers (\<open>views/insert.cpp\<close>, \<open>remove.cpp\<close>, \<open>get.cpp\<close>), the middlewares around
  them (\<open>is_master_middleware\<close>, \<open>is_expired_middleware.hpp\<close>, \<open>error_handling_middleware.hpp\<close>)
  and their composition (\<open>handlers_proxy.cpp\<close>). A handler takes a request and the controller and
  returns a reply or an error; the outermost middleware turns both into the end of the call that
  the client sees. An exception leaves all of them.
\<close>

section \<open>Replies\<close>

datatype EmptyReply = EmptyReply

datatype grpc_status = NOT_FOUND | FAILED_PRECONDITION | UNAVAILABLE | UNKNOWN

text \<open>\<open>rpc.finish(response, OK)\<close> and \<open>rpc.finish_with_error(status)\<close>.\<close>

datatype 'r rpc_end = Finish 'r | FinishWithError grpc_status string

type_synonym ('q, 'r) handler = "'q \<Rightarrow> controller \<Rightarrow> 'r res exec \<times> controller"

definition get_Source :: "Source option \<Rightarrow> Source" where
  "get_Source x = (case x of None \<Rightarrow> SOURCE_CLIENT | Some s \<Rightarrow> s)"

definition get_bool :: "bool option \<Rightarrow> bool" where
  "get_bool x = (case x of None \<Rightarrow> False | Some b \<Rightarrow> b)"

section \<open>Handlers\<close>

text \<open>\<open>request.version()\<close> is 0 if the request has no version: the controller always gets one.\<close>

definition InsertHandler :: "codecs \<Rightarrow> (KeyValueRequest, EmptyReply) handler" where
  "InsertHandler cs request c =
     st_bind (Controller_Insert cs \<lparr>kwd_key = get_string (kvr_key request),
         kwd_value = get_string (kvr_value request), kwd_version = Some (get_u64 (kvr_version request))\<rparr> c)
       (\<lambda>got c1. (Ret (case got of
            Inl e \<Rightarrow> Inl (WrapError e kUnknown ''insert controller failed'')
          | Inr _ \<Rightarrow> Inr EmptyReply), c1))"

definition RemoveHandler :: "codecs \<Rightarrow> (KeyRequest, EmptyReply) handler" where
  "RemoveHandler cs request c =
     st_bind (Controller_Remove cs \<lparr>kd_key = get_string (kr_key request),
         kd_version = Some (get_u64 (kr_version request))\<rparr> c)
       (\<lambda>got c1. (Ret (case got of
            Inl e \<Rightarrow> Inl (WrapError e kUnknown ''remove controller failed'')
          | Inr _ \<Rightarrow> Inr EmptyReply), c1))"

definition GetHandler :: "codecs \<Rightarrow> (GetRequest, GetReply) handler" where
  "GetHandler cs request c =
     st_bind (Controller_Get cs \<lparr>grd_key = get_string (gr_key request)\<rparr> c)
       (\<lambda>got c1. (Ret (case got of
            Inl e \<Rightarrow> Inl (WrapError e kUnknown ''get controller failed'')
          | Inr v \<Rightarrow> Inr \<lparr>gp_value = Some (vd_value v), gp_version = Some (vd_version v)\<rparr>), c1))"

section \<open>Middlewares\<close>

text \<open>
  The flags of the Zookeeper client are read at a moment of their own: the callbacks may have run
  since the last one.
\<close>

definition read_flag :: "(zk \<Rightarrow> bool) \<Rightarrow> controller \<Rightarrow> bool \<times> controller" where
  "read_flag flag c = (let c1 = polled c in (flag (rp_zk (ct_rep c1)), c1))"

definition not_master :: Error where
  "not_master = MakeError kNotMaster ''node is not master''"

definition not_connected :: Error where
  "not_connected = MakeError kNotConnected ''node is not connected to cluster''"

definition WithIsMasterMiddleware :: "('q \<Rightarrow> Source option) \<Rightarrow> ('q, 'r) handler \<Rightarrow> ('q, 'r) handler" where
  "WithIsMasterMiddleware source handler request c =
     (if get_Source (source request) = SOURCE_NODE then handler request c
      else let (before, c1) = read_flag IsMaster c in
        if \<not> before then (Ret (Inl not_master), c1)
        else st_bind (handler request c1) (\<lambda>res c2.
          let (after, c3) = read_flag IsMaster c2 in
          if \<not> after then (Ret (Inl not_master), c3) else (Ret res, c3)))"

text \<open>The specialisation for reads asks only if the client wants the master; \<open>&&\<close> reads no flag otherwise.\<close>

definition WithIsMasterMiddleware_Get :: "(GetRequest, 'r) handler \<Rightarrow> (GetRequest, 'r) handler" where
  "WithIsMasterMiddleware_Get handler request c =
     (if get_Source (gr_source request) = SOURCE_NODE then handler request c
      else let (refused, c1) = (if get_bool (gr_is_master request) then
              (let (m, c1) = read_flag IsMaster c in (\<not> m, c1)) else (False, c)) in
        if refused then (Ret (Inl not_master), c1)
        else st_bind (handler request c1) (\<lambda>res c2.
          let (refused, c3) = (if get_bool (gr_is_master request) then
              (let (m, c3) = read_flag IsMaster c2 in (\<not> m, c3)) else (False, c2)) in
          if refused then (Ret (Inl not_master), c3) else (Ret res, c3)))"

definition WithIsExpiredMiddleware :: "('q, 'r) handler \<Rightarrow> ('q, 'r) handler" where
  "WithIsExpiredMiddleware handler request c =
     (let (before, c1) = read_flag IsConnectionExpired c in
      if before then (Ret (Inl not_connected), c1)
      else st_bind (handler request c1) (\<lambda>res c2.
        let (after, c3) = read_flag IsConnectionExpired c2 in
        if after then (Ret (Inl not_connected), c3) else (Ret res, c3)))"

definition WithErrorHandlingMiddleware ::
  "('q, 'r) handler \<Rightarrow> 'q \<Rightarrow> controller \<Rightarrow> 'r rpc_end exec \<times> controller" where
  "WithErrorHandlingMiddleware handler request c =
     st_bind (handler request c) (\<lambda>got c1. (Ret (case got of
         Inl error \<Rightarrow>
           (if Wraps error kNotFound then FinishWithError NOT_FOUND (What error)
            else if Wraps error kNotMaster then FinishWithError FAILED_PRECONDITION (What error)
            else if Wraps error kNotConnected then FinishWithError UNAVAILABLE (What error)
            else FinishWithError UNKNOWN ''unknown error'')
       | Inr response \<Rightarrow> Finish response), c1))"

section \<open>HandlersProxy\<close>

definition HandlersProxy_InsertHandler ::
  "codecs \<Rightarrow> KeyValueRequest \<Rightarrow> controller \<Rightarrow> EmptyReply rpc_end exec \<times> controller" where
  "HandlersProxy_InsertHandler cs = WithErrorHandlingMiddleware
     (WithIsExpiredMiddleware (WithIsMasterMiddleware kvr_source (InsertHandler cs)))"

definition HandlersProxy_GetHandler ::
  "codecs \<Rightarrow> GetRequest \<Rightarrow> controller \<Rightarrow> GetReply rpc_end exec \<times> controller" where
  "HandlersProxy_GetHandler cs = WithErrorHandlingMiddleware
     (WithIsExpiredMiddleware (WithIsMasterMiddleware_Get (GetHandler cs)))"

definition HandlersProxy_RemoveHandler ::
  "codecs \<Rightarrow> KeyRequest \<Rightarrow> controller \<Rightarrow> EmptyReply rpc_end exec \<times> controller" where
  "HandlersProxy_RemoveHandler cs = WithErrorHandlingMiddleware
     (WithIsExpiredMiddleware (WithIsMasterMiddleware kr_source (RemoveHandler cs)))"

section \<open>What a client's write goes through\<close>

abbreviation zk_of :: "controller \<Rightarrow> zk" where
  "zk_of c \<equiv> rp_zk (ct_rep c)"

definition insert_data :: "KeyValueRequest \<Rightarrow> KwDTO" where
  "insert_data request = \<lparr>kwd_key = get_string (kvr_key request), kwd_value = get_string (kvr_value request),
     kwd_version = Some (get_u64 (kvr_version request))\<rparr>"

lemma InsertHandler_Inr:
  "InsertHandler cs request c = (Ret (Inr r), c') \<longleftrightarrow> Controller_Insert cs (insert_data request) c = (Ret (Inr ()), c')"
  by (cases r; cases "Controller_Insert cs (insert_data request) c"; cases "fst (Controller_Insert cs (insert_data request) c)")
    (auto simp: InsertHandler_def insert_data_def split: sum.splits)

lemma WithErrorHandling_Finish:
  "WithErrorHandlingMiddleware h request c = (Ret (Finish r), c') \<longleftrightarrow> h request c = (Ret (Inr r), c')"
  by (cases "h request c"; cases "fst (h request c)")
    (auto simp: WithErrorHandlingMiddleware_def split: sum.splits if_splits)

lemma WithIsExpired_Inr:
  "WithIsExpiredMiddleware h request c = (Ret (Inr r), c') \<longleftrightarrow> \<not> IsConnectionExpired (zk_of (polled c)) \<and>
     (\<exists>c1. h request (polled c) = (Ret (Inr r), c1) \<and> \<not> IsConnectionExpired (zk_of (polled c1)) \<and> c' = polled c1)"
  by (cases "h request (polled c)"; cases "fst (h request (polled c))")
    (auto simp: WithIsExpiredMiddleware_def read_flag_def Let_def split: if_splits)

lemma WithIsMaster_Inr:
  "get_Source (source request) = SOURCE_CLIENT \<Longrightarrow>
   WithIsMasterMiddleware source h request c = (Ret (Inr r), c') \<longleftrightarrow> IsMaster (zk_of (polled c)) \<and>
     (\<exists>c1. h request (polled c) = (Ret (Inr r), c1) \<and> IsMaster (zk_of (polled c1)) \<and> c' = polled c1)"
  by (cases "h request (polled c)"; cases "fst (h request (polled c))")
    (auto simp: WithIsMasterMiddleware_def read_flag_def Let_def split: if_splits)

lemma acknowledged_insert:
  assumes "get_Source (kvr_source request) = SOURCE_CLIENT"
  shows "HandlersProxy_InsertHandler cs request c = (Ret (Finish r), c') \<longleftrightarrow>
    \<not> IsConnectionExpired (zk_of (polled c)) \<and> IsMaster (zk_of (polled (polled c))) \<and>
    (\<exists>c1. Controller_Insert cs (insert_data request) (polled (polled c)) = (Ret (Inr ()), c1) \<and>
      IsMaster (zk_of (polled c1)) \<and> \<not> IsConnectionExpired (zk_of (polled (polled c1))) \<and>
      c' = polled (polled c1))"
  unfolding HandlersProxy_InsertHandler_def WithErrorHandling_Finish WithIsExpired_Inr
    WithIsMaster_Inr [of kvr_source, OF assms] InsertHandler_Inr by blast

lemma What_simps: "What not_master = ''node is not master''" "What not_connected = ''node is not connected to cluster''"
  "Wraps not_master t \<longleftrightarrow> t = kNotMaster" "Wraps not_connected t \<longleftrightarrow> t = kNotConnected"
  by (simp_all add: not_master_def not_connected_def)

lemma refused_insert:
  assumes "get_Source (kvr_source request) = SOURCE_CLIENT"
  shows "IsConnectionExpired (zk_of (polled c)) \<Longrightarrow> HandlersProxy_InsertHandler cs request c =
      (Ret (FinishWithError UNAVAILABLE ''node is not connected to cluster''), polled c)"
    "\<not> IsConnectionExpired (zk_of (polled c)) \<Longrightarrow> \<not> IsMaster (zk_of (polled (polled c))) \<Longrightarrow>
     \<not> IsConnectionExpired (zk_of (polled (polled (polled c)))) \<Longrightarrow> HandlersProxy_InsertHandler cs request c =
      (Ret (FinishWithError FAILED_PRECONDITION ''node is not master''), polled (polled (polled c)))"
    "\<not> IsConnectionExpired (zk_of (polled c)) \<Longrightarrow> IsMaster (zk_of (polled (polled c))) \<Longrightarrow>
     Controller_Insert cs (insert_data request) (polled (polled c)) = (Ret (Inr ()), c1) \<Longrightarrow>
     \<not> IsMaster (zk_of (polled c1)) \<Longrightarrow> \<not> IsConnectionExpired (zk_of (polled (polled c1))) \<Longrightarrow>
     HandlersProxy_InsertHandler cs request c =
      (Ret (FinishWithError FAILED_PRECONDITION ''node is not master''), polled (polled c1))"
  using assms
  by (simp_all add: HandlersProxy_InsertHandler_def WithErrorHandlingMiddleware_def WithIsExpiredMiddleware_def
      WithIsMasterMiddleware_def read_flag_def Let_def What_simps InsertHandler_Inr [of _ _ _ EmptyReply, symmetric])

section \<open>Only reads reach the other nodes\<close>

definition only_gets :: "(string \<times> string \<times> rpc_request) list \<Rightarrow> bool" where
  "only_gets S \<longleftrightarrow> (\<forall>x \<in> set S. \<exists>g. snd (snd x) = QGet g)"

lemma only_gets_append: "only_gets (S @ T) \<longleftrightarrow> only_gets S \<and> only_gets T"
  by (auto simp: only_gets_def)

lemma only_gets_replicate: "only_gets (replicate n (host, path, QGet g))"
  by (simp add: only_gets_def)

lemma newest_of_nodes_gets:
  "only_gets (rp_sent rp) \<Longrightarrow> only_gets (rp_sent (snd (newest_of_nodes key nodes result rp)))"
proof (induction nodes arbitrary: result rp)
  case (Cons node nodes)
  let ?rp = "rp\<lparr>rp_clients := (if node \<in> set (rp_clients rp) then rp_clients rp else rp_clients rp @ [node])\<rparr>"
  let ?q = "\<lparr>gr_key = Some (grd_key key), gr_source = Some SOURCE_NODE, gr_is_master = None\<rparr>"
  obtain n w where m: "snd (MakeRequestWithBackoff rGet (QGet ?q) node ?rp) = ?rp\<lparr>rp_sent := rp_sent ?rp @
      replicate n (node, RequestType_ToString rGet, QGet ?q), rp_waited := w\<rparr>"
    using backoff_sent [of rGet "QGet ?q" node ?rp] by blast
  obtain r rp1 where g: "ReplicaClient_Get node key ?rp = (Ret r, rp1)"
    "rp_sent rp1 = rp_sent rp @ replicate n (node, RequestType_ToString rGet, QGet ?q)"
    using m by (auto simp: ReplicaClient_Get_def Let_def case_prod_beta)
  have "only_gets (rp_sent rp1)" using Cons.prems g(2) by (simp add: only_gets_append only_gets_replicate)
  from Cons.IH [OF this] g(1) show ?case by (simp add: do_request_eq)
qed simp

lemma GetNewest_gets:
  "only_gets (rp_sent rp) \<Longrightarrow> only_gets (rp_sent (snd (GetNewestFromReplicas key rp)))"
  using newest_of_nodes_gets by (simp add: GetNewestFromReplicas_def split: sum.split)

text \<open>\<open>reads_only\<close>: nothing but reads has been sent, and no job that would send a write is pending.\<close>

definition reads_only :: "controller \<Rightarrow> bool" where
  "reads_only c \<longleftrightarrow> only_gets (sent c) \<and> set (ct_jobs c) \<subseteq> {JobSwap}"

lemma reads_only_quiet: "reads_only c \<Longrightarrow> quiet (sent c) c" "reads_only c \<Longrightarrow> quiet (sent c) c' \<Longrightarrow> reads_only c'"
  by (simp_all add: reads_only_def quiet_def)

lemma reads_only_steps:
  "reads_only c \<Longrightarrow> reads_only (snd (poll cs c))" "reads_only c \<Longrightarrow> reads_only (snd (on_system f c))"
  "reads_only c \<Longrightarrow> reads_only (snd (spawn cs JobSwap c))"
  by (blast intro: reads_only_quiet quiet_poll quiet_steps)+

lemma reads_only_updates [simp]:
  "reads_only (polled c) = reads_only c" "reads_only (c\<lparr>ct_guard := g\<rparr>) = reads_only c"
  "reads_only (set_frame a fr c) = reads_only c" "reads_only (c\<lparr>ct_gen := gen\<rparr>) = reads_only c"
  "reads_only (c\<lparr>ct_sys := s\<rparr>) = reads_only c" "reads_only (c\<lparr>ct_next := n\<rparr>) = reads_only c"
  "reads_only (c\<lparr>ct_frames := frs\<rparr>) = reads_only c"
  by (simp_all add: reads_only_def)

lemmas reads_only_insert_post = insert_post [where Q = reads_only and Q' = reads_only,
  OF _ _ _ reads_only_steps(3), simplified]

lemma reads_only_in_frame:
  assumes "\<And>a c. reads_only c \<Longrightarrow> reads_only (snd (body a c))" "reads_only c"
  shows "reads_only (snd (in_frame f body c))"
  using assms by (simp add: in_frame_def Let_def case_prod_beta)

lemma reads_only_Insert:
  assumes "reads_only c" "kwd_version data = Some v"
  shows "reads_only (snd (Controller_Insert cs data c))"
  unfolding Controller_Insert_def Let_def
  by (rule reads_only_in_frame [OF _ assms(1)], simp add: assms(2), rule st_bind_snd [where P = reads_only])
    (simp_all add: reads_only_steps reads_only_insert_post)

lemma reads_only_Remove:
  assumes "reads_only c" "kd_version data = Some v"
  shows "reads_only (snd (Controller_Remove cs data c))"
  unfolding Controller_Remove_def Let_def
  by (rule reads_only_in_frame [OF _ assms(1)], simp add: assms(2), rule st_bind_snd [where P = reads_only])
    (auto simp: reads_only_steps intro!: st_bind_snd [where P = reads_only])

lemma reads_only_Get: "reads_only c \<Longrightarrow> reads_only (snd (Controller_Get cs data c))"
proof -
  assume c: "reads_only c"
  obtain r rp where g: "GetNewestFromReplicas data (ct_rep c) = (r, rp)" by (metis surj_pair)
  then have "only_gets (rp_sent rp)" using c GetNewest_gets [of "ct_rep c" data] by (simp add: reads_only_def)
  then have r: "reads_only (c\<lparr>ct_rep := rp\<rparr>)" using c by (simp add: reads_only_def)
  show ?thesis
    unfolding Controller_Get_def g
    by (auto simp: r reads_only_steps split: sum.split intro!: st_bind_snd [where P = reads_only])
qed

text \<open>Every middleware keeps what its handler keeps.\<close>

lemma reads_only_middleware:
  assumes "\<And>c. reads_only c \<Longrightarrow> reads_only (snd (h q c))" "reads_only c"
  shows "reads_only (snd (WithIsMasterMiddleware source h q c))"
    "reads_only (snd (WithIsExpiredMiddleware h q c))" "reads_only (snd (WithErrorHandlingMiddleware h q c))"
  using assms
  by (auto simp: WithIsMasterMiddleware_def WithIsExpiredMiddleware_def WithErrorHandlingMiddleware_def
      read_flag_def Let_def intro!: st_bind_snd [where P = reads_only])

lemma reads_only_middleware_Get:
  assumes "\<And>c. reads_only c \<Longrightarrow> reads_only (snd (h q c))" "reads_only c"
  shows "reads_only (snd (WithIsMasterMiddleware_Get h q c))"
  using assms
  by (auto simp: WithIsMasterMiddleware_Get_def read_flag_def Let_def intro!: st_bind_snd [where P = reads_only])

lemma reads_only_handlers:
  assumes "reads_only c"
  shows "reads_only (snd (HandlersProxy_InsertHandler cs kv c))" "reads_only (snd (HandlersProxy_RemoveHandler cs k c))"
    "reads_only (snd (HandlersProxy_GetHandler cs g c))"
proof -
  have i: "reads_only c \<Longrightarrow> reads_only (snd (InsertHandler cs kv c))" for c
    unfolding InsertHandler_def by (rule st_bind_snd [where P = reads_only]) (simp_all add: reads_only_Insert)
  have r: "reads_only c \<Longrightarrow> reads_only (snd (RemoveHandler cs k c))" for c
    unfolding RemoveHandler_def by (rule st_bind_snd [where P = reads_only]) (simp_all add: reads_only_Remove)
  have g: "reads_only c \<Longrightarrow> reads_only (snd (GetHandler cs g c))" for c
    unfolding GetHandler_def by (rule st_bind_snd [where P = reads_only]) (simp_all add: reads_only_Get)
  show "reads_only (snd (HandlersProxy_InsertHandler cs kv c))" "reads_only (snd (HandlersProxy_RemoveHandler cs k c))"
    "reads_only (snd (HandlersProxy_GetHandler cs g c))"
    unfolding HandlersProxy_InsertHandler_def HandlersProxy_RemoveHandler_def HandlersProxy_GetHandler_def
    by (intro reads_only_middleware reads_only_middleware_Get i r g assms; assumption)+
qed

text \<open>A server: calls of the three handlers, however they end, and turns of the executor.\<close>

inductive server_run :: "codecs \<Rightarrow> controller \<Rightarrow> controller \<Rightarrow> bool" for cs :: codecs and c0 :: controller where
  server_start: "server_run cs c0 c0"
| server_insert: "server_run cs c0 c \<Longrightarrow> HandlersProxy_InsertHandler cs kv c = (r, c') \<Longrightarrow> server_run cs c0 c'"
| server_remove: "server_run cs c0 c \<Longrightarrow> HandlersProxy_RemoveHandler cs k c = (r, c') \<Longrightarrow> server_run cs c0 c'"
| server_get: "server_run cs c0 c \<Longrightarrow> HandlersProxy_GetHandler cs g c = (q, c') \<Longrightarrow> server_run cs c0 c'"
| server_turn: "server_run cs c0 c \<Longrightarrow> poll cs c = (t, c') \<Longrightarrow> server_run cs c0 c'"

lemma reads_only_run: "server_run cs c0 c \<Longrightarrow> reads_only c0 \<Longrightarrow> reads_only c"
proof (induction rule: server_run.induct)
  case (server_insert c kv r c')
  then show ?case using reads_only_handlers(1) [of c cs kv] by simp
next
  case (server_remove c k r c')
  then show ?case using reads_only_handlers(2) [of c cs k] by simp
next
  case (server_get c g q c')
  then show ?case using reads_only_handlers(3) [of c cs g] by simp
next
  case (server_turn c t c')
  then show ?case using reads_only_steps(1) [of c cs] by simp
qed

section \<open>A write that is dropped, a key that is missing\<close>

text \<open>No callback of the Zookeeper client runs, and the node is connected and the master.\<close>

definition settled :: "controller \<Rightarrow> bool" where
  "settled c \<longleftrightarrow> (\<forall>k z. ct_env c k z = z) \<and> \<not> IsConnectionExpired (zk_of c) \<and> IsMaster (zk_of c)"

lemma settled_polled: "settled c \<Longrightarrow> polled c = c\<lparr>ct_point := Suc (ct_point c)\<rparr>"
  by (simp add: settled_def polled_def)

lemma settled_flags:
  "settled c \<Longrightarrow> \<not> IsConnectionExpired (zk_of (polled c))" "settled c \<Longrightarrow> IsMaster (zk_of (polled c))"
  "settled c \<Longrightarrow> settled (polled c)"
  by (simp_all add: settled_def)

lemma settled_cong: "settled c \<Longrightarrow> ct_rep c' = ct_rep c \<Longrightarrow> ct_env c' = ct_env c \<Longrightarrow> settled c'"
  by (simp add: settled_def)

lemma Trigger_below:
  assumes "sys_inv cs (ct_sys c)" "sw_idle (ss_mem (ct_sys c))"
    "entries_view es = sw_view (ss_mem (ct_sys c))" "distinct (map se_key es)" "length es < 5"
  shows "\<exists>mem. TriggerSwapToPersistentStorage cs c = (Ret (), c\<lparr>ct_sys := (ct_sys c)\<lparr>ss_mem := mem\<rparr>\<rparr>) \<and>
    sw_view mem = sw_view (ss_mem (ct_sys c))"
proof -
  from storage_size_effect [OF assms(1-4)] obtain mem where
    m: "storage_size (ct_sys c) = Ret (length es, (ct_sys c)\<lparr>ss_mem := mem\<rparr>)"
      "sw_view mem = sw_view (ss_mem (ct_sys c))" by blast
  with assms(5) show ?thesis
    by (simp add: TriggerSwapToPersistentStorage_def on_system_Ret kThreshold_controller_def) blast
qed

lemma stale_insert_dropped:
  assumes inv: "sys_inv cs (ct_sys c)" "sw_idle (ss_mem (ct_sys c))" "ct_jobs c = []"
    and small: "entries_view es = sw_view (ss_mem (ct_sys c))" "distinct (map se_key es)" "length es < 5"
    and stale: "sw_view (ss_mem (ct_sys c)) (kwd_key data) = None" "sys_tables cs (ct_sys c) (kwd_key data) = Some v"
      "val_value v \<noteq> None" "kwd_version data = Some w" "w < val_version v"
  shows "\<exists>mem fr n g. Controller_Insert cs data c = (Ret (Inr ()), (polled c)\<lparr>ct_sys := (ct_sys c)\<lparr>ss_mem := mem\<rparr>,
      ct_frames := fr, ct_next := n, ct_gen := g\<rparr>) \<and> sw_view mem = sw_view (ss_mem (ct_sys c))"
proof -
  let ?p = "\<lparr>kw_key = kwd_key data, kw_value = kwd_value data, kw_version = w\<rparr>"
  let ?c1 = "set_frame (ct_next c) (FrameKw \<lparr>kwd_key = [], kwd_value = [], kwd_version = Some w\<rparr>)
    (set_frame (ct_next c) (FrameKw data) (c\<lparr>ct_next := Suc (ct_next c)\<rparr>)
      \<lparr>ct_gen := UpdateMaxVersion (ct_weak c) w (ct_gen c)\<rparr>)"
  have "older_than w (lookup_result (kwd_key data) (sw_view (ss_mem (ct_sys c)) (kwd_key data))
      (tables_view cs (ss_fs (ct_sys c)) (collection (ss_tables (ct_sys c))) (kwd_key data)))"
    using stale by (simp add: older_than_tables sys_tables_def)
  from StorageSystem_omits(2) [OF inv(1) this, of ?p] have
    i: "on_system (StorageSystem_Insert cs ?p) (polled ?c1) = (Ret (Inr ()), (polled ?c1)\<lparr>ct_sys := ct_sys c\<rparr>)"
    by (intro on_system_Ret) simp
  have p: "poll cs ?c1 = (Ret (), polled ?c1)" by (rule poll_idle) (simp add: inv(3))
  have "ct_sys ((polled ?c1)\<lparr>ct_sys := ct_sys c\<rparr>) = ct_sys c" by simp
  from Trigger_below [of cs "(polled ?c1)\<lparr>ct_sys := ct_sys c\<rparr>" es, unfolded this, OF inv(1,2) small] obtain mem where
    t: "TriggerSwapToPersistentStorage cs ((polled ?c1)\<lparr>ct_sys := ct_sys c\<rparr>) =
      (Ret (), (polled ?c1)\<lparr>ct_sys := ct_sys c\<rparr>\<lparr>ct_sys := (ct_sys c)\<lparr>ss_mem := mem\<rparr>\<rparr>)"
      "sw_view mem = sw_view (ss_mem (ct_sys c))" by blast
  have w: "ct_weak (set_frame a f c) = ct_weak c" for a f c by (simp add: set_frame_def)
  have e: "\<exists>fr n g. (polled ?c1)\<lparr>ct_sys := x, ct_frames := y\<rparr> = (polled c)\<lparr>ct_sys := x, ct_frames := fr, ct_next := n, ct_gen := g\<rparr>"
    for x y by (rule exI [of _ y], rule exI [of _ "Suc (ct_next c)"],
      rule exI [of _ "UpdateMaxVersion (ct_weak c) w (ct_gen c)"]) (simp add: polled_def set_frame_def)
  let ?c4 = "(polled ?c1)\<lparr>ct_sys := ct_sys c\<rparr>\<lparr>ct_sys := (ct_sys c)\<lparr>ss_mem := mem\<rparr>\<rparr>"
  have "Controller_Insert cs data c = (Ret (Inr ()), ?c4\<lparr>ct_frames := (ct_frames ?c4)(ct_next c := None)\<rparr>)"
    using stale(4) p i t(1) w by (simp add: Controller_Insert_def in_frame_def Let_def)
  moreover have "?c4\<lparr>ct_frames := y\<rparr> = (polled ?c1)\<lparr>ct_sys := (ct_sys c)\<lparr>ss_mem := mem\<rparr>, ct_frames := y\<rparr>" for y
    by simp
  ultimately show ?thesis using e t(2) by metis
qed

lemma unversioned_insert_dropped:
  assumes "settled c" "get_Source (kvr_source request) = SOURCE_CLIENT" "kvr_version request = None"
    and inv: "sys_inv cs (ct_sys c)" "sw_idle (ss_mem (ct_sys c))" "ct_jobs c = []"
    and small: "entries_view es = sw_view (ss_mem (ct_sys c))" "distinct (map se_key es)" "length es < 5"
    and there: "sw_view (ss_mem (ct_sys c)) (get_string (kvr_key request)) = None"
      "sys_tables cs (ct_sys c) (get_string (kvr_key request)) = Some v" "val_value v \<noteq> None" "0 < val_version v"
  shows "\<exists>c'. HandlersProxy_InsertHandler cs request c = (Ret (Finish EmptyReply), c') \<and>
    sys_view cs (ct_sys c') = sys_view cs (ct_sys c) \<and> sys_log cs (ct_sys c') = sys_log cs (ct_sys c)"
proof -
  let ?c = "polled (polled c)"
  have s: "settled ?c" using assms(1) settled_flags(3) by blast
  from stale_insert_dropped [of cs ?c es "insert_data request" v 0] assms obtain mem fr n g where
    i: "Controller_Insert cs (insert_data request) ?c = (Ret (Inr ()), (polled ?c)\<lparr>ct_sys := (ct_sys c)\<lparr>ss_mem := mem\<rparr>,
      ct_frames := fr, ct_next := n, ct_gen := g\<rparr>)" "sw_view mem = sw_view (ss_mem (ct_sys c))"
    by (auto simp: insert_data_def)
  let ?c1 = "(polled ?c)\<lparr>ct_sys := (ct_sys c)\<lparr>ss_mem := mem\<rparr>, ct_frames := fr, ct_next := n, ct_gen := g\<rparr>"
  have "settled ?c1" by (rule settled_cong [OF settled_flags(3) [OF s]]) simp_all
  then have "HandlersProxy_InsertHandler cs request c = (Ret (Finish EmptyReply), polled (polled ?c1))"
    unfolding acknowledged_insert [OF assms(2)] using i(1) assms(1) settled_flags by blast
  then show ?thesis using i(2) by (simp add: sys_view_split)
qed

lemma GetNewest_zk: "GetNewestFromReplicas key rp = (r, rp') \<Longrightarrow> rp_zk rp' = rp_zk rp"
  using GetNewest_newest [of rp _ key] by (cases "GetNodes (rp_zk rp)") (fastforce simp: GetNewestFromReplicas_def)+

text \<open>
  \<open>calm\<close>: no callback of the Zookeeper client runs and the session has not expired. A read that no
  other node answers ends with what the node itself holds.
\<close>

definition calm :: "controller \<Rightarrow> bool" where
  "calm c \<longleftrightarrow> (\<forall>k z. ct_env c k z = z) \<and> \<not> IsConnectionExpired (zk_of c)"

definition read_end :: "string \<Rightarrow> ValueDTO res \<Rightarrow> GetReply rpc_end" where
  "read_end k got = (case got of
       Inr v \<Rightarrow> Finish \<lparr>gp_value = Some (vd_value v), gp_version = Some (vd_version v)\<rparr>
     | Inl _ \<Rightarrow> FinishWithError NOT_FOUND (''get controller failed: key '' @ k @ '' not found''))"

lemma lookup_result_cases: "(\<exists>v. lookup_result k m t = Inr v) \<or> lookup_result k m t = Inl (key_not_found k)"
  by (simp add: lookup_result_def split: option.split)

lemma calm_polled: "calm c \<Longrightarrow> zk_of (polled c) = zk_of c" "calm c \<Longrightarrow> calm (polled c)"
  "calm c \<Longrightarrow> ct_rep (polled c) = ct_rep c"
  by (simp_all add: calm_def polled_def)

lemma calm_connected: "calm c \<Longrightarrow> \<not> IsConnectionExpired (zk_of c)"
  by (simp add: calm_def)

lemma Controller_Get_alone:
  assumes "calm c" "sys_inv cs (ct_sys c)" "ct_jobs c = []"
    "fst (GetNewestFromReplicas \<lparr>grd_key = k\<rparr> (ct_rep c)) = Ret (Inl e)"
  shows "\<exists>c'. Controller_Get cs \<lparr>grd_key = k\<rparr> c = (Ret (local_answer cs (ct_sys c) k), c') \<and>
    calm c' \<and> zk_of c' = zk_of c"
proof -
  obtain rp where g: "GetNewestFromReplicas \<lparr>grd_key = k\<rparr> (ct_rep c) = (Ret (Inl e), rp)"
    using assms(4) by (metis prod.collapse)
  have "rp_zk rp = rp_zk (ct_rep c)" using GetNewest_zk [OF g] .
  moreover have "poll cs (c\<lparr>ct_rep := rp\<rparr>) = (Ret (), polled (c\<lparr>ct_rep := rp\<rparr>))"
    by (rule poll_idle) (simp add: assms(3))
  moreover have "on_system (StorageSystem_Get cs k) (polled (c\<lparr>ct_rep := rp\<rparr>)) =
      (Ret (local_answer cs (ct_sys c) k), (polled (c\<lparr>ct_rep := rp\<rparr>))\<lparr>ct_sys := ct_sys c\<rparr>)"
    using StorageSystem_Get_view [OF assms(2), of k]
    by (intro on_system_Ret) (simp add: local_answer_def sys_tables_def)
  ultimately show ?thesis using g assms(1) by (simp add: Controller_Get_def calm_def)
qed

text \<open>Requests that the middleware for the master role lets pass.\<close>

definition may_read :: "GetRequest \<Rightarrow> controller \<Rightarrow> bool" where
  "may_read request c \<longleftrightarrow>
     (get_bool (gr_is_master request) \<longrightarrow> get_Source (gr_source request) = SOURCE_NODE \<or> IsMaster (zk_of c))"

lemma HandlersProxy_Get_alone:
  assumes "calm c" "sys_inv cs (ct_sys c)" "ct_jobs c = []" "k = get_string (gr_key request)"
    "fst (GetNewestFromReplicas \<lparr>grd_key = k\<rparr> (ct_rep c)) = Ret (Inl e)"
    "may_read request c"
  shows "fst (HandlersProxy_GetHandler cs request c) = Ret (read_end k (local_answer cs (ct_sys c) k))"
proof -
  let ?got = "local_answer cs (ct_sys c) k"
  have msg: "What (WrapError (key_not_found k) kUnknown ''get controller failed'') =
      ''get controller failed: key '' @ k @ '' not found''"
    "Wraps (WrapError (key_not_found k) kUnknown ''get controller failed'') kNotFound"
    by (simp_all add: key_not_found_def What_WrapError)
  have got: "(\<exists>v. ?got = Inr v) \<or> ?got = Inl (key_not_found k)" unfolding local_answer_def by (rule lookup_result_cases)
  note p = calm_polled [OF assms(1)] calm_polled [OF calm_polled(2) [OF assms(1)]]
  from Controller_Get_alone [OF p(2), of cs k e] Controller_Get_alone [OF p(5), of cs k e] p assms(2,3,5) obtain c1 c2 where
    g: "Controller_Get cs \<lparr>grd_key = k\<rparr> (polled c) = (Ret ?got, c1)" "calm c1" "zk_of c1 = zk_of c"
      "Controller_Get cs \<lparr>grd_key = k\<rparr> (polled (polled c)) = (Ret ?got, c2)" "calm c2" "zk_of c2 = zk_of c" by auto
  note q = calm_polled [OF g(2)] calm_polled [OF g(5)] calm_polled [OF calm_polled(2) [OF g(5)]]
    calm_polled [OF calm_polled(2) [OF g(2)]]
  have x: "\<not> IsConnectionExpired (zk_of c)" using assms(1) by (rule calm_connected)
  show ?thesis
  proof (cases "get_Source (gr_source request) = SOURCE_NODE")
    case True
    then show ?thesis
      using got g(1,3,4,6) msg p(1,4) q(1,4,7,10) x
      by (auto simp: HandlersProxy_GetHandler_def WithErrorHandlingMiddleware_def WithIsExpiredMiddleware_def
          WithIsMasterMiddleware_Get_def read_flag_def Let_def GetHandler_def assms(4) [symmetric] read_end_def)
  next
    case False
    then have "get_bool (gr_is_master request) \<longrightarrow> get_Source (gr_source request) = SOURCE_CLIENT \<and> IsMaster (zk_of c)"
      using assms(6) by (cases "get_Source (gr_source request)") (simp_all add: may_read_def)
    then show ?thesis
      using got g(1,3,4,6) msg p(1,4) q(1,4,7,10) x
      by (auto simp: HandlersProxy_GetHandler_def WithErrorHandlingMiddleware_def WithIsExpiredMiddleware_def
          WithIsMasterMiddleware_Get_def read_flag_def Let_def GetHandler_def assms(4) [symmetric] read_end_def)
  qed
qed

lemma missing_key_not_found:
  assumes "settled c" "get_bool (gr_is_master request) \<longrightarrow> get_Source (gr_source request) = SOURCE_CLIENT"
    "sys_inv cs (ct_sys c)" "ct_jobs c = []" "k = get_string (gr_key request)"
    "fst (GetNewestFromReplicas \<lparr>grd_key = k\<rparr> (ct_rep c)) = Ret (Inl e)"
    "local_answer cs (ct_sys c) k = Inl (key_not_found k)"
  shows "fst (HandlersProxy_GetHandler cs request c) =
    Ret (FinishWithError NOT_FOUND (''get controller failed: key '' @ k @ '' not found''))"
  using HandlersProxy_Get_alone [OF _ assms(3-6)] assms(1,2,7)
  by (simp add: calm_def settled_def read_end_def may_read_def)

end
