(* ===== verification/Filelog.thy ===== *)
theory Filelog
  imports Filesystem
begin

text \<open>
  \<open>FileLogSink\<close> (\<open>file_log_sink.hpp\<close>, \<open>file_log_sink.cpp\<close>): the log messages of the program go to
  the end of a file, with a letter for their severity, and are flushed with a fatal one.
\<close>

datatype LogSeverity = kInfo | kError | kWarning | kFatal

record LogEntry =
  le_severity :: LogSeverity
  le_text_with_newline :: string

fun GetLogSeverityPrefix :: "LogSeverity \<Rightarrow> string" where
  "GetLogSeverityPrefix kInfo = ''[I]''"
| "GetLogSeverityPrefix kError = ''[E]''"
| "GetLogSeverityPrefix kWarning = ''[W]''"
| "GetLogSeverityPrefix kFatal = ''[F]''"

record FileLogSink =
  fls_stream :: ofstream

definition new_FileLogSink :: "ofstream \<Rightarrow> FileLogSink" where
  "new_FileLogSink s = \<lparr>fls_stream = s\<rparr>"

text \<open>
  Opening for \<open>app\<close>: the file is created if there is none, keeps its contents otherwise, and is
  written at its end. Nothing else writes to it, so its end is where it was when it was opened.
\<close>

definition open_app :: "path \<Rightarrow> fs \<Rightarrow> ofstream option \<times> fs" where
  "open_app p fs =
     (if faulty fs \<noteq> None \<or> parent_path p \<notin> set (fs_dirs fs) then (None, tick fs)
      else case map_of (fs_dir fs) p of
        Some i \<Rightarrow> (Some ((new_ofstream i)\<lparr>os_pos := length (fs_data fs i)\<rparr>), tick fs)
      | None \<Rightarrow> (Some (new_ofstream (fs_next fs)), created p fs))"

definition FileLogSink_New :: "path \<Rightarrow> fs \<Rightarrow> FileLogSink res \<times> fs" where
  "FileLogSink_New file_name fs =
     (case open_app file_name fs of
        (None, fs1) \<Rightarrow> (Inl (MakeError kUnknown (''could not open file: '' @ file_name)), fs1)
      | (Some s, fs1) \<Rightarrow> (Inr (new_FileLogSink s), fs1))"

definition FileLogSink_Flush :: "FileLogSink \<Rightarrow> fs \<Rightarrow> FileLogSink \<times> fs" where
  "FileLogSink_Flush sink fs = (let (s, fs1) = os_flush (fls_stream sink) fs in (sink\<lparr>fls_stream := s\<rparr>, fs1))"

text \<open>The three insertions into the stream.\<close>

definition FileLogSink_Send :: "LogEntry \<Rightarrow> FileLogSink \<Rightarrow> fs \<Rightarrow> FileLogSink \<times> fs" where
  "FileLogSink_Send e sink fs =
     (let (_, s1, fs1) = os_write (GetLogSeverityPrefix (le_severity e)) (fls_stream sink) fs;
          (_, s2, fs2) = os_write [CHR 0x09] s1 fs1;
          (_, s3, fs3) = os_write (le_text_with_newline e) s2 fs2;
          sink1 = sink\<lparr>fls_stream := s3\<rparr> in
      if le_severity e = kFatal then FileLogSink_Flush sink1 fs3 else (sink1, fs3))"

fun Send_all :: "LogEntry list \<Rightarrow> FileLogSink \<Rightarrow> fs \<Rightarrow> FileLogSink \<times> fs" where
  "Send_all [] sink fs = (sink, fs)"
| "Send_all (e # es) sink fs = (let (sink1, fs1) = FileLogSink_Send e sink fs in Send_all es sink1 fs1)"

section \<open>The file holds the messages in order\<close>

definition log_line :: "LogEntry \<Rightarrow> string" where
  "log_line e = GetLogSeverityPrefix (le_severity e) @ [CHR 0x09] @ le_text_with_newline e"

lemma write_at_length [simp]: "write_at (length base) acc base = base @ acc"
  by (simp add: write_at_def)

lemma open_app_stream:
  assumes "fs_ok fs" "parent_path p \<in> set (fs_dirs fs)"
  shows "\<exists>s fs1 old. open_app p fs = (Some s, fs1) \<and>
    map_of (fs_dir fs1) p = Some (os_ino s) \<and> old = (case read_file fs p of None \<Rightarrow> [] | Some bs \<Rightarrow> bs) \<and>
    stream_at s fs1 old (length old) []"
proof (cases "map_of (fs_dir fs) p")
  case None
  have "faulty fs = None" using assms(1) by simp
  then show ?thesis using None assms by (simp add: open_app_def read_file_def stream_at_def new_ofstream_def write_at_def)
next
  case (Some i)
  have "faulty fs = None" using assms(1) by simp
  then show ?thesis using Some assms by (simp add: open_app_def read_file_def stream_at_def new_ofstream_def)
qed

lemma Send_stream:
  assumes "stream_at (fls_stream sink) fs base pos acc" "fs_ok fs" "FileLogSink_Send e sink fs = (sink', fs')"
  shows "stream_at (fls_stream sink') fs' base pos (acc @ log_line e)"
    "os_ino (fls_stream sink') = os_ino (fls_stream sink)" "touches (os_ino (fls_stream sink)) fs fs'"
    "le_severity e = kFatal \<Longrightarrow> fs_data fs' (os_ino (fls_stream sink)) = write_at pos (acc @ log_line e) base"
proof -
  let ?i = "os_ino (fls_stream sink)"
  obtain k1 s1 fs1 where w1: "os_write (GetLogSeverityPrefix (le_severity e)) (fls_stream sink) fs = (k1, s1, fs1)"
    by (metis prod_cases3)
  obtain k2 s2 fs2 where w2: "os_write [CHR 0x09] s1 fs1 = (k2, s2, fs2)" by (metis prod_cases3)
  obtain k3 s3 fs3 where w3: "os_write (le_text_with_newline e) s2 fs2 = (k3, s3, fs3)" by (metis prod_cases3)
  note a1 = os_write_spec [OF assms(1,2) w1]
  have o1: "fs_ok fs1" using touches_same(1) [OF a1(4)] assms(2) by simp
  note a2 = os_write_spec [OF a1(2) o1 w2]
  have o2: "fs_ok fs2" using touches_same(1) [OF a2(4)] o1 by simp
  note a3 = os_write_spec [OF a2(2) o2 w3]
  have o3: "fs_ok fs3" using touches_same(1) [OF a3(4)] o2 by simp
  have t: "touches ?i fs fs3" using touches_trans touches_trans a1(3,4) a2(3,4) a3(4) by metis
  have st: "stream_at s3 fs3 base pos (acc @ log_line e)" using a3(2) by (simp add: log_line_def)
  have ino: "os_ino s3 = ?i" using a1(3) a2(3) a3(3) by simp
  obtain s4 fs4 where fl: "os_flush s3 fs3 = (s4, fs4)" by (metis surj_pair)
  note a4 = os_flush_spec [OF st o3 fl]
  have r: "(sink', fs') = (if le_severity e = kFatal then (sink\<lparr>fls_stream := s4\<rparr>, fs4) else (sink\<lparr>fls_stream := s3\<rparr>, fs3))"
    using assms(3) w1 w2 w3 fl by (auto simp: FileLogSink_Send_def FileLogSink_Flush_def Let_def split: if_splits)
  show "stream_at (fls_stream sink') fs' base pos (acc @ log_line e)" "os_ino (fls_stream sink') = ?i"
    using r st ino a4(1,4) by (auto split: if_splits)
  show "touches ?i fs fs'" using r t touches_trans a4(5) ino by (auto split: if_splits)
  show "le_severity e = kFatal \<Longrightarrow> fs_data fs' ?i = write_at pos (acc @ log_line e) base"
    using r a4(2) ino by simp
qed

lemma Send_all_stream:
  "stream_at (fls_stream sink) fs base pos acc \<Longrightarrow> fs_ok fs \<Longrightarrow> Send_all es sink fs = (sink', fs') \<Longrightarrow>
   stream_at (fls_stream sink') fs' base pos (acc @ concat (map log_line es)) \<and>
   os_ino (fls_stream sink') = os_ino (fls_stream sink) \<and> touches (os_ino (fls_stream sink)) fs fs'"
proof (induction es arbitrary: sink fs acc)
  case (Cons e es)
  obtain sink1 fs1 where s: "FileLogSink_Send e sink fs = (sink1, fs1)" by (metis surj_pair)
  note a = Send_stream [OF Cons.prems(1,2) s]
  have "fs_ok fs1" using touches_same(1) [OF a(3)] Cons.prems(2) by simp
  from Cons.IH [OF a(1) this] Cons.prems(3) s a(2,3) show ?case
    by (auto intro: touches_trans)
qed simp

lemma Send_all_append: "Send_all (xs @ ys) sink fs = (let (sink1, fs1) = Send_all xs sink fs in Send_all ys sink1 fs1)"
  by (induction xs arbitrary: sink fs) (simp_all add: case_prod_beta)

lemma log_file_contents:
  assumes "fs_ok fs" "parent_path p \<in> set (fs_dirs fs)"
    "FileLogSink_New p fs = (Inr sink, fs1)" "not_future fs p" "Send_all es sink fs1 = (sink', fs2)"
    "old = (case read_file fs p of None \<Rightarrow> [] | Some bs \<Rightarrow> bs)"
  shows "read_file (snd (FileLogSink_Flush sink' fs2)) p = Some (old @ concat (map log_line es))"
    "es \<noteq> [] \<Longrightarrow> le_severity (last es) = kFatal \<Longrightarrow> read_file fs2 p = Some (old @ concat (map log_line es))"
proof -
  from open_app_stream [OF assms(1,2)] assms(3,6) have o: "map_of (fs_dir fs1) p = Some (os_ino (fls_stream sink))"
    "stream_at (fls_stream sink) fs1 old (length old) []"
    by (auto simp: FileLogSink_New_def new_FileLogSink_def)
  have ok1: "fs_ok fs1"
    using assms(1,3) fs_ok_created [OF assms(1) _ assms(4)]
    by (auto simp: FileLogSink_New_def open_app_def split: option.splits if_splits)
  from Send_all_stream [OF o(2) ok1 assms(5)] have s: "stream_at (fls_stream sink') fs2 old (length old) (concat (map log_line es))"
    "os_ino (fls_stream sink') = os_ino (fls_stream sink)" "touches (os_ino (fls_stream sink)) fs1 fs2" by simp_all
  have ok: "fs_ok fs2" using touches_same(1) [OF s(3)] ok1 by simp
  obtain s4 fs4 where fl: "os_flush (fls_stream sink') fs2 = (s4, fs4)" by (metis surj_pair)
  note a = os_flush_spec [OF s(1) ok fl]
  show "read_file (snd (FileLogSink_Flush sink' fs2)) p = Some (old @ concat (map log_line es))"
    using fl a(2) touches_same(2) [OF s(3)] touches_same(2) [OF a(5)] s(2) o(1)
    by (simp add: FileLogSink_Flush_def read_file_def)
  assume "es \<noteq> []" "le_severity (last es) = kFatal"
  then obtain xs e where es: "es = xs @ [e]" "le_severity e = kFatal" by (metis append_butlast_last_id)
  obtain sx fsx where x: "Send_all xs sink fs1 = (sx, fsx)" by (metis surj_pair)
  from Send_all_stream [OF o(2) ok1 x] have sx: "stream_at (fls_stream sx) fsx old (length old) (concat (map log_line xs))"
    "os_ino (fls_stream sx) = os_ino (fls_stream sink)" "touches (os_ino (fls_stream sink)) fs1 fsx" by simp_all
  have okx: "fs_ok fsx" using touches_same(1) [OF sx(3)] ok1 by simp
  have "FileLogSink_Send e sx fsx = (sink', fs2)"
    using assms(5) x by (simp add: es(1) Send_all_append split: prod.splits)
  from Send_stream(4) [OF sx(1) okx this es(2)] show "read_file fs2 p = Some (old @ concat (map log_line es))"
    using touches_same(2) [OF s(3)] sx(2) o(1) by (simp add: read_file_def es(1))
qed

end
