(* ===== verification/Sample_Codec.thy ===== *)
theory Sample_Codec
  imports Codec
begin

text \<open>
  A concrete instance of the serialisers, so that theorems that assume \<open>codecs_ok\<close> can be applied:
  it satisfies the contract and computes. It is not the protobuf wire format, and no definition
  of the model uses it.
\<close>

section \<open>Self-delimiting coders\<close>

definition coder_ok :: "('a \<Rightarrow> bytes) \<Rightarrow> (bytes \<Rightarrow> ('a \<times> bytes) option) \<Rightarrow> bool" where
  "coder_ok e d \<longleftrightarrow> (\<forall>x rest. d (e x @ rest) = Some (x, rest)) \<and>
     (\<forall>x p. strict_prefix p (e x) \<longrightarrow> d p = None)"

lemma coder_okI:
  "(\<And>x rest. d (e x @ rest) = Some (x, rest)) \<Longrightarrow>
   (\<And>x p. strict_prefix p (e x) \<Longrightarrow> d p = None) \<Longrightarrow> coder_ok e d"
  by (simp add: coder_ok_def)

lemma coder_okD:
  "coder_ok e d \<Longrightarrow> d (e x @ rest) = Some (x, rest)"
  "coder_ok e d \<Longrightarrow> strict_prefix p (e x) \<Longrightarrow> d p = None"
  by (simp_all add: coder_ok_def)

lemma strict_prefix_append_cases:
  assumes "strict_prefix p (a @ b)"
  obtains "strict_prefix p a" | q where "p = a @ q" "strict_prefix q b"
proof (cases "prefix p a \<and> p \<noteq> a")
  case True
  then show ?thesis by (intro that(1)) (simp add: strict_prefix_def)
next
  case False
  with assms obtain q where q: "p = a @ q" "prefix q b"
    by (cases "p = a") (auto simp: strict_prefix_def prefix_append)
  with assms show ?thesis by (intro that(2)) (auto simp: strict_prefix_def)
qed

definition e_char :: "char \<Rightarrow> bytes" where "e_char c = [c]"

definition d_char :: "bytes \<Rightarrow> (char \<times> bytes) option" where
  "d_char b = (case b of [] \<Rightarrow> None | c # r \<Rightarrow> Some (c, r))"

lemma coder_char: "coder_ok e_char d_char"
proof (rule coder_okI)
  fix x p assume "strict_prefix p (e_char x)"
  then have "p = []" by (cases p) (auto simp: e_char_def)
  then show "d_char p = None" by (simp add: d_char_def)
qed (simp add: e_char_def d_char_def)

definition e_u64 :: "u64 \<Rightarrow> bytes" where
  "e_u64 w = map (\<lambda>i. if bit w i then CHR 0x01 else CHR 0x00) [0..<64]"

definition d_u64 :: "bytes \<Rightarrow> (u64 \<times> bytes) option" where
  "d_u64 b = (if length b < 64 then None
     else Some (horner_sum of_bool 2 (map (\<lambda>c. c = CHR 0x01) (take 64 b)), drop 64 b))"

lemma coder_u64: "coder_ok e_u64 d_u64"
proof (rule coder_okI)
  fix x rest
  have "map (\<lambda>c. c = CHR 0x01) (e_u64 x) = map (bit x) [0..<64]"
    by (simp add: e_u64_def comp_def)
  moreover have "length (e_u64 x) = 64" by (simp add: e_u64_def)
  moreover have "horner_sum of_bool 2 (map (bit x) [0..<64]) = x"
    unfolding horner_sum_bit_eq_take_bit by (simp add: take_bit_word_eq_self)
  ultimately show "d_u64 (e_u64 x @ rest) = Some (x, rest)" by (simp add: d_u64_def)
next
  fix x p assume "strict_prefix p (e_u64 x)"
  then have "length p < 64" by (auto dest: prefix_length_less simp: e_u64_def)
  then show "d_u64 p = None" by (simp add: d_u64_def)
qed

definition e_pair :: "('a \<Rightarrow> bytes) \<Rightarrow> ('b \<Rightarrow> bytes) \<Rightarrow> 'a \<times> 'b \<Rightarrow> bytes" where
  "e_pair e f = (\<lambda>(x, y). e x @ f y)"

definition d_pair ::
  "(bytes \<Rightarrow> ('a \<times> bytes) option) \<Rightarrow> (bytes \<Rightarrow> ('b \<times> bytes) option) \<Rightarrow> bytes \<Rightarrow> (('a \<times> 'b) \<times> bytes) option"
  where "d_pair d g b = (case d b of None \<Rightarrow> None | Some (x, r) \<Rightarrow>
     (case g r of None \<Rightarrow> None | Some (y, r') \<Rightarrow> Some ((x, y), r')))"

lemma coder_pair:
  assumes "coder_ok e d" "coder_ok f g" shows "coder_ok (e_pair e f) (d_pair d g)"
proof (rule coder_okI)
  fix x :: "'a \<times> 'b" and rest
  show "d_pair d g (e_pair e f x @ rest) = Some (x, rest)"
    by (cases x) (simp add: e_pair_def d_pair_def coder_okD [OF assms(1)] coder_okD [OF assms(2)])
next
  fix xy :: "'a \<times> 'b" and p assume sp: "strict_prefix p (e_pair e f xy)"
  obtain x y where xy: "xy = (x, y)" by (cases xy)
  consider "strict_prefix p (e x)" | q where "p = e x @ q" "strict_prefix q (f y)"
    using sp unfolding xy e_pair_def by (auto elim: strict_prefix_append_cases)
  then show "d_pair d g p = None"
  proof cases
    case 1
    then show ?thesis by (simp add: d_pair_def coder_okD(2) [OF assms(1)])
  next
    case 2
    then show ?thesis
      by (simp add: d_pair_def coder_okD(1) [OF assms(1)] coder_okD(2) [OF assms(2)])
  qed
qed

definition d_map :: "('a \<Rightarrow> 'b) \<Rightarrow> (bytes \<Rightarrow> ('a \<times> bytes) option) \<Rightarrow> bytes \<Rightarrow> ('b \<times> bytes) option" where
  "d_map h d b = map_option (\<lambda>(x, r). (h x, r)) (d b)"

lemma coder_map:
  "coder_ok e d \<Longrightarrow> (\<And>y. h (k y) = y) \<Longrightarrow> coder_ok (\<lambda>y. e (k y)) (d_map h d)"
  by (auto simp: coder_ok_def d_map_def)

text \<open>Lists: each element is announced by a byte 1, the end by a byte 0.\<close>

fun e_list :: "('a \<Rightarrow> bytes) \<Rightarrow> 'a list \<Rightarrow> bytes" where
  "e_list e [] = [CHR 0x00]"
| "e_list e (x # xs) = CHR 0x01 # e x @ e_list e xs"

function d_list :: "(bytes \<Rightarrow> ('a \<times> bytes) option) \<Rightarrow> bytes \<Rightarrow> ('a list \<times> bytes) option" where
  "d_list d [] = None"
| "d_list d (c # r) =
     (if c = CHR 0x00 then Some ([], r)
      else case d r of None \<Rightarrow> None
        | Some (x, r') \<Rightarrow>
            if length r' \<le> length r
            then (case d_list d r' of None \<Rightarrow> None | Some (xs, r'') \<Rightarrow> Some (x # xs, r''))
            else None)"
  by pat_completeness auto
termination by (relation "measure (\<lambda>(d, b). length b)") auto

lemma coder_list:
  assumes "coder_ok e d" shows "coder_ok (e_list e) (d_list d)"
proof (rule coder_okI)
  fix x :: "'a list" and rest
  show "d_list d (e_list e x @ rest) = Some (x, rest)"
    by (induction x) (simp_all add: coder_okD(1) [OF assms])
next
  fix x :: "'a list" and p assume "strict_prefix p (e_list e x)"
  then show "d_list d p = None"
  proof (induction x arbitrary: p)
    case Nil
    then have "p = []" by (cases p) auto
    then show ?case by simp
  next
    case (Cons x xs)
    show ?case
    proof (cases p)
      case (Cons c q)
      with Cons.prems have c: "c = CHR 0x01" and "strict_prefix q (e x @ e_list e xs)" by auto
      then consider "strict_prefix q (e x)" | t where "q = e x @ t" "strict_prefix t (e_list e xs)"
        by (auto elim: strict_prefix_append_cases)
      then show ?thesis
      proof cases
        case 1
        then show ?thesis using Cons c by (simp add: coder_okD(2) [OF assms])
      next
        case 2
        then show ?thesis using Cons c Cons.IH by (simp add: coder_okD(1) [OF assms])
      qed
    qed simp
  qed
qed

section \<open>Coders of the messages\<close>

text \<open>An optional field is a list of at most one element.\<close>

definition opt_list :: "'a option \<Rightarrow> 'a list" where
  "opt_list x = (case x of None \<Rightarrow> [] | Some y \<Rightarrow> [y])"

definition list_opt :: "'a list \<Rightarrow> 'a option" where
  "list_opt xs = (case xs of [] \<Rightarrow> None | y # _ \<Rightarrow> Some y)"

lemma list_opt_opt_list [simp]: "list_opt (opt_list x) = x"
  by (cases x) (simp_all add: list_opt_def opt_list_def)

definition e_str :: "string option \<Rightarrow> bytes" where
  "e_str x = e_list (e_list e_char) (opt_list x)"

definition d_str :: "bytes \<Rightarrow> (string option \<times> bytes) option" where
  "d_str = d_map list_opt (d_list (d_list d_char))"

definition e_num :: "u64 option \<Rightarrow> bytes" where
  "e_num x = e_list e_u64 (opt_list x)"

definition d_num :: "bytes \<Rightarrow> (u64 option \<times> bytes) option" where
  "d_num = d_map list_opt (d_list d_u64)"

lemma coder_str: "coder_ok e_str d_str"
  unfolding e_str_def d_str_def by (intro coder_map coder_list coder_char) simp

lemma coder_num: "coder_ok e_num d_num"
  unfolding e_num_def d_num_def by (intro coder_map coder_list coder_u64) simp

text \<open>A message is announced by a byte 1, so that no message is the empty sequence.\<close>

definition delimit :: "('m \<Rightarrow> bytes) \<Rightarrow> (bytes \<Rightarrow> ('m \<times> bytes) option) \<Rightarrow> 'm delimited" where
  "delimit e d = \<lparr>d_ser = (\<lambda>m. CHR 0x01 # e m), d_parse = (\<lambda>b. case b of [] \<Rightarrow> Eof
     | _ # r \<Rightarrow> (case d r of None \<Rightarrow> Bad | Some (m, r') \<Rightarrow> Msg m (length b - length r')))\<rparr>"

lemma delimit_ok:
  assumes "coder_ok e d" shows "delimited_ok (delimit e d)"
proof -
  have "d_parse (delimit e d) p = Bad" if p: "p \<noteq> []" "strict_prefix p (d_ser (delimit e d) m)" for p m
  proof -
    from p obtain q where "p = CHR 0x01 # q" "strict_prefix q (e m)"
      by (cases p) (auto simp: delimit_def)
    then show ?thesis by (simp add: delimit_def coder_okD(2) [OF assms])
  qed
  then show ?thesis
    unfolding delimited_ok_def by (auto simp: delimit_def coder_okD(1) [OF assms])
qed

definition entire :: "('m \<Rightarrow> bytes) \<Rightarrow> (bytes \<Rightarrow> ('m \<times> bytes) option) \<Rightarrow> 'm whole" where
  "entire e d = \<lparr>w_ser = e, w_parse = (\<lambda>b. case d b of Some (m, []) \<Rightarrow> Some m | _ \<Rightarrow> None)\<rparr>"

lemma entire_ok: "coder_ok e d \<Longrightarrow> whole_ok (entire e d)"
  using coder_okD(1) [of e d _ "[]"] by (simp add: whole_ok_def entire_def)

definition of_PEntry :: "PEntry \<Rightarrow> string option \<times> string option \<times> u64 option" where
  "of_PEntry e = (pe_key e, pe_value e, pe_version e)"

definition to_PEntry :: "string option \<times> string option \<times> u64 option \<Rightarrow> PEntry" where
  "to_PEntry t = \<lparr>pe_key = fst t, pe_value = fst (snd t), pe_version = snd (snd t)\<rparr>"

definition of_TableIndex :: "TableIndex \<Rightarrow> u64 option \<times> u64 list" where
  "of_TableIndex t = (ti_map_size t, ti_index t)"

definition to_TableIndex :: "u64 option \<times> u64 list \<Rightarrow> TableIndex" where
  "to_TableIndex t = \<lparr>ti_map_size = fst t, ti_index = snd t\<rparr>"

definition of_Metadata :: "Metadata \<Rightarrow> string option list" where
  "of_Metadata m = map me_filename (md_entry m)"

definition to_Metadata :: "string option list \<Rightarrow> Metadata" where
  "to_Metadata xs = \<lparr>md_entry = map (\<lambda>f. \<lparr>me_filename = f\<rparr>) xs\<rparr>"

text \<open>
  A log entry becomes a list of fields: none for an unset entry, key and version for a removal,
  key, value and version for an insertion.
\<close>

definition of_WEntry :: "WEntry \<Rightarrow> string option list \<times> u64 option" where
  "of_WEntry e = (case e of WNotSet \<Rightarrow> ([], None) | WRemoveOp r \<Rightarrow> ([wr_key r], wr_version r)
     | WInsertOp i \<Rightarrow> ([wi_key i, wi_value i], wi_version i))"

definition to_WEntry :: "string option list \<times> u64 option \<Rightarrow> WEntry" where
  "to_WEntry t = (case fst t of [] \<Rightarrow> WNotSet
     | [k] \<Rightarrow> WRemoveOp \<lparr>wr_key = k, wr_version = snd t\<rparr>
     | k # v # _ \<Rightarrow> WInsertOp \<lparr>wi_key = k, wi_value = v, wi_version = snd t\<rparr>)"

definition sample_codecs :: codecs where
  "sample_codecs = \<lparr>
     c_wal = delimit (\<lambda>e. e_pair (e_list e_str) e_num (of_WEntry e))
       (d_map to_WEntry (d_pair (d_list d_str) d_num)),
     c_entry = delimit (\<lambda>e. e_pair e_str (e_pair e_str e_num) (of_PEntry e))
       (d_map to_PEntry (d_pair d_str (d_pair d_str d_num))),
     c_index = entire (\<lambda>t. e_pair e_num (e_list e_u64) (of_TableIndex t))
       (d_map to_TableIndex (d_pair d_num (d_list d_u64))),
     c_meta = entire (\<lambda>m. e_list e_str (of_Metadata m)) (d_map to_Metadata (d_list d_str))\<rparr>"

lemma sample_codecs_ok [simp]: "codecs_ok sample_codecs"
  unfolding codecs_ok_def sample_codecs_def codecs.select_convs
proof (intro conjI delimit_ok entire_ok coder_map coder_pair coder_list coder_str coder_num coder_u64)
  show "to_WEntry (of_WEntry e) = e" for e
    by (cases e) (simp_all add: to_WEntry_def of_WEntry_def)
  show "to_Metadata (of_Metadata m) = m" for m
    by (cases m) (simp add: to_Metadata_def of_Metadata_def comp_def map_idI)
qed (simp_all add: to_PEntry_def of_PEntry_def to_TableIndex_def of_TableIndex_def)

end
