(* ===== verification/Election.thy ===== *)
theory Election
  imports Zookeeper
begin

text \<open>
  Master election in a cluster: any number of nodes that run the callbacks of
  \<open>coordination/zookeeper\<close>, and a server that owns the ephemeral node \<open>/master\<close>, answers the
  requests (or loses the answer) and expires sessions before the node hears of it. The server's
  part is what ZooKeeper documents: creating a node that exists is refused, and an ephemeral node
  goes with its session.
\<close>

section \<open>Cluster steps\<close>

text \<open>
  \<open>cl_owner\<close> is the session that created \<open>/master\<close>, \<open>cl_dead\<close> the expired sessions, \<open>cl_inbox n\<close>
  the answers to create requests that node \<open>n\<close> has not processed yet.
\<close>

record cluster =
  cl_node :: "nat \<Rightarrow> zk"
  cl_owner :: "nat option"
  cl_dead :: "nat set"
  cl_inbox :: "nat \<Rightarrow> zrc list"

definition set_node :: "nat \<Rightarrow> zk \<Rightarrow> cluster \<Rightarrow> cluster" where
  "set_node n z c = c\<lparr>cl_node := (cl_node c)(n := z)\<rparr>"

definition answer :: "nat \<Rightarrow> zrequest \<Rightarrow> zrc \<Rightarrow> cluster \<Rightarrow> cluster" where
  "answer n r rc c = c\<lparr>
     cl_node := (cl_node c)(n := (cl_node c n)\<lparr>z_pending := remove1 r (z_pending (cl_node c n))\<rparr>),
     cl_inbox := (cl_inbox c)(n := cl_inbox c n @ [rc])\<rparr>"

text \<open>The callbacks other than the two that change who is master or the session.\<close>

definition quiet_callback :: "zk \<Rightarrow> zk \<Rightarrow> bool" where
  "quiet_callback z z' \<longleftrightarrow>
     (\<exists>rc v st. CheckMasterCompletion rc v st z = Ret z') \<or> (\<exists>e p. CheckMasterWatch e p z = Ret z') \<or>
     (\<exists>rc. RegisterNodeCompletion rc z = z') \<or> (\<exists>e p. DiscoverNodesWatch e p z = Ret z') \<or>
     (\<exists>rc ss. DiscoverNodesCompletion rc ss z = Ret z') \<or>
     (\<exists>rc. BootstrapServiceDiscoveryCompletion rc z = z') \<or>
     (\<exists>e st. st \<noteq> ZOO_EXPIRED_SESSION_STATE \<and> SessionWatcher e st z = Ret z')"

inductive cstep :: "cluster \<Rightarrow> cluster \<Rightarrow> bool" where
  create_done: "ACreateMaster h \<in> set (z_pending (cl_node c n)) \<Longrightarrow> z_kZh (cl_node c n) = Some s \<Longrightarrow>
     s \<notin> cl_dead c \<Longrightarrow> cl_owner c = None \<Longrightarrow> rc \<in> {ZOK, ZCONNECTIONLOSS, ZOPERATIONTIMEOUT} \<Longrightarrow>
     cstep c ((answer n (ACreateMaster h) rc c)\<lparr>cl_owner := Some s\<rparr>)"
| create_refused: "ACreateMaster h \<in> set (z_pending (cl_node c n)) \<Longrightarrow> rc \<noteq> ZOK \<Longrightarrow>
     cstep c (answer n (ACreateMaster h) rc c)"
| deliver: "cl_inbox c n = rc # rest \<Longrightarrow>
     cstep c ((set_node n (TryBecomeMasterCompletion rc (cl_node c n)) c)
       \<lparr>cl_inbox := (cl_inbox c)(n := rest)\<rparr>)"
| quiet: "quiet_callback (cl_node c n) z' \<Longrightarrow> cstep c (set_node n z' c)"
| request_done: "(\<forall>h. r \<noteq> ACreateMaster h) \<Longrightarrow>
     cstep c (set_node n ((cl_node c n)\<lparr>z_pending := remove1 r (z_pending (cl_node c n))\<rparr>) c)"
| expire: "cstep c (c\<lparr>cl_dead := insert s (cl_dead c),
     cl_owner := (if cl_owner c = Some s then None else cl_owner c)\<rparr>)"
| notify_expired: "z_kZh (cl_node c n) = Some s \<Longrightarrow> s \<in> cl_dead c \<Longrightarrow>
     SessionWatcher ZOO_SESSION_EVENT ZOO_EXPIRED_SESSION_STATE (cl_node c n) = Ret z' \<Longrightarrow>
     cstep c ((set_node n z' c)\<lparr>cl_inbox := (cl_inbox c)(n := [])\<rparr>)"

inductive creach :: "cluster \<Rightarrow> cluster \<Rightarrow> bool" where
  creach_refl: "creach c c"
| creach_step: "creach c c' \<Longrightarrow> cstep c' c'' \<Longrightarrow> creach c c''"

section \<open>The invariant\<close>

text \<open>
  Handles are never handed out twice. A node that is master, or is about to hear that it is, has
  the session that owns \<open>/master\<close>, or a session that has expired without its knowledge.
\<close>

definition handles_unique :: "(nat \<Rightarrow> nat \<Rightarrow> nat option) \<Rightarrow> bool" where
  "handles_unique f \<longleftrightarrow> (\<forall>n m k j s. f n k = Some s \<longrightarrow> f m j = Some s \<longrightarrow> n = m \<and> k = j)"

definition cinv :: "(nat \<Rightarrow> nat \<Rightarrow> nat option) \<Rightarrow> cluster \<Rightarrow> bool" where
  "cinv f c \<longleftrightarrow> (\<forall>n. z_init (cl_node c n) = f n \<and>
       (\<forall>s. z_kZh (cl_node c n) = Some s \<longrightarrow> (\<exists>k < z_inits (cl_node c n). f n k = Some s)) \<and>
       (IsMaster (cl_node c n) \<or> ZOK \<in> set (cl_inbox c n) \<longrightarrow>
          (\<exists>s. z_kZh (cl_node c n) = Some s \<and> (cl_owner c = Some s \<or> s \<in> cl_dead c)))) \<and>
     (\<forall>s. cl_owner c = Some s \<longrightarrow> s \<notin> cl_dead c)"

definition same_session :: "zk \<Rightarrow> zk \<Rightarrow> bool" where
  "same_session z z' \<longleftrightarrow> z_kZh z' = z_kZh z \<and> z_kIsMaster z' = z_kIsMaster z \<and>
     z_init z' = z_init z \<and> z_inits z' = z_inits z"

lemma same_session_issue [simp]: "same_session z (issue r z)"
  by (simp add: same_session_def)

lemma same_session_set [simp]: "same_session z (SetMasterNode v z)" "same_session z (SetNodes ns z)"
  by (simp_all add: same_session_def SetMasterNode_def SetNodes_def)

lemma same_session_refl [simp]: "same_session z z"
  by (simp add: same_session_def)

lemma session_quiet:
  assumes "SessionWatcher e st z = Ret z'" "st \<noteq> ZOO_EXPIRED_SESSION_STATE"
  shows "same_session z z'"
  using assms by (auto simp: SessionWatcher_def same_session_def request_defs Let_def split: if_splits)

lemma quiet_same_session: "quiet_callback z z' \<Longrightarrow> same_session z z'"
  unfolding quiet_callback_def
  by (elim disjE exE conjE)
    (auto simp: CheckMasterCompletion_def CheckMasterWatch_def RegisterNodeCompletion_def
      DiscoverNodesWatch_def DiscoverNodesCompletion_def BootstrapServiceDiscoveryCompletion_def
      request_defs exec_bind_Ret_iff session_quiet split: zrc.splits if_splits option.splits)

lemma completion_session:
  "z_kZh (TryBecomeMasterCompletion rc z) = z_kZh z"
  "z_init (TryBecomeMasterCompletion rc z) = z_init z"
  "z_inits (TryBecomeMasterCompletion rc z) = z_inits z"
  "IsMaster (TryBecomeMasterCompletion rc z) \<longleftrightarrow> IsMaster z \<or> rc = ZOK"
  by (auto simp: TryBecomeMasterCompletion_def request_defs SetMasterNode_def IsMaster_def
      split: zrc.splits)

lemma expired_session:
  assumes "SessionWatcher ZOO_SESSION_EVENT ZOO_EXPIRED_SESSION_STATE z = Ret z'"
  shows "\<not> IsMaster z'" "IsConnectionExpired z'" "z_init z' = z_init z" "z_pending z' = []"
    "\<exists>s k. z_kZh z' = Some s \<and> z_inits z \<le> k \<and> z_inits z' = Suc k \<and> z_init z k = Some s"
  using assms reinit_result
  by (auto simp: SessionWatcher_def Let_def IsMaster_def IsConnectionExpired_def split: option.splits)

lemma cinv_same_session:
  assumes "cinv f c" "same_session (cl_node c n) z'"
  shows "cinv f (set_node n z' c)"
  using assms by (auto simp: cinv_def set_node_def same_session_def IsMaster_def)

lemma cinv_step:
  assumes "cstep c c'" "cinv f c"
  shows "cinv f c'"
  using assms
proof (induction rule: cstep.induct)
  case (create_done h c n s rc)
  then show ?case by (auto simp: cinv_def answer_def IsMaster_def)
next
  case (create_refused h c n rc)
  then show ?case by (auto simp: cinv_def answer_def IsMaster_def)
next
  case (deliver c n rc rest)
  then show ?case by (auto simp: cinv_def set_node_def completion_session)
next
  case (quiet c n z')
  then show ?case using cinv_same_session quiet_same_session by blast
next
  case (request_done r c n)
  then show ?case by (intro cinv_same_session) (auto simp: same_session_def)
next
  case (expire c s)
  then show ?case by (auto simp: cinv_def split: if_splits)
next
  case (notify_expired c n s z')
  note e = expired_session [OF notify_expired(3)]
  from e(5) obtain s' k where k: "z_kZh z' = Some s'" "z_inits z' = Suc k" "z_init (cl_node c n) k = Some s'"
    by blast
  then have "\<exists>j < z_inits z'. f n j = Some s'" using notify_expired(4) by (auto simp: cinv_def)
  then show ?case using notify_expired(4) e(1,3) k(1) by (auto simp: cinv_def set_node_def)
qed

lemma cinv_reach: "creach c c' \<Longrightarrow> cinv f c \<Longrightarrow> cinv f c'"
  by (induction rule: creach.induct) (auto intro: cinv_step)

text \<open>Two nodes that both believe to be master: the session of one of them has expired.\<close>

lemma at_most_one_live_master:
  assumes "cinv f c" "handles_unique f" "IsMaster (cl_node c n)" "IsMaster (cl_node c m)" "n \<noteq> m"
  shows "\<exists>k s. k \<in> {n, m} \<and> z_kZh (cl_node c k) = Some s \<and> s \<in> cl_dead c"
proof -
  from assms(1,3) obtain s where s: "z_kZh (cl_node c n) = Some s" "cl_owner c = Some s \<or> s \<in> cl_dead c"
    by (auto simp: cinv_def)
  from assms(1,4) obtain t where t: "z_kZh (cl_node c m) = Some t" "cl_owner c = Some t \<or> t \<in> cl_dead c"
    by (auto simp: cinv_def)
  have "s \<noteq> t"
    using assms(1,2,5) s(1) t(1) unfolding cinv_def handles_unique_def by metis
  then show ?thesis using s t by auto
qed

text \<open>The cluster right after every node has run \<open>InitZookeeper\<close> on a handle.\<close>

definition cluster_start :: "(nat \<Rightarrow> string) \<Rightarrow> string list \<Rightarrow> (nat \<Rightarrow> nat \<Rightarrow> zrc) \<Rightarrow> (nat \<Rightarrow> nat \<Rightarrow> nat option) \<Rightarrow> cluster" where
  "cluster_start host hosts accept f =
     \<lparr>cl_node = (\<lambda>n. snd (InitZookeeper (host n) hosts (zk_start (accept n) (f n)))),
      cl_owner = None, cl_dead = {}, cl_inbox = (\<lambda>n. [])\<rparr>"

lemma cinv_start: "cinv f (cluster_start host hosts accept f)"
  by (auto simp: cinv_def cluster_start_def InitZookeeper_def zk_start_def request_defs IsMaster_def
      Let_def split: option.splits)

end
