(* ===== verification/Storage_Runs.thy ===== *)
theory Storage_Runs
  imports Swap_Job "HOL-Library.Sublist"
begin

text \<open>
  Runs of the storage: requests, jobs that move the memory storage to disk, and crashes with a restart,
  in any order. The runs are simulated by an abstract store of two maps.
\<close>

section \<open>Concrete runs\<close>

text \<open>The system that start-up hands to the controller.\<close>

definition restarted :: "storages \<Rightarrow> fs \<Rightarrow> system" where
  "restarted so fs = \<lparr>ss_wal = so_wal so, ss_mem = so_mem so, ss_tables = so_coll so, ss_fs = fs\<rparr>"

text \<open>
  The side conditions keep file sizes within 64 bits: of the table that a job writes and of the one
  that a compaction makes of it, and of the table that start-up would make of the log. A run goes on
  after a crash when start-up returns; on an empty log it does not (\<open>settled_empty_log\<close>).
\<close>

inductive sys_run :: "codecs \<Rightarrow> nat \<Rightarrow> system \<Rightarrow> request list \<Rightarrow> system \<Rightarrow> bool"
  for cs :: codecs and n :: nat and s0 :: system where
  run_start: "sys_run cs n s0 [] s0"
| run_request: "sys_run cs n s0 rs s \<Longrightarrow> serve cs r s = Ret (res, s') \<Longrightarrow> sys_run cs n s0 (rs @ [r]) s'"
| run_swap: "sys_run cs n s0 rs s \<Longrightarrow> SwapToPersistentStorage cs s = (Ret (), s') \<Longrightarrow>
    SwappableCollect (ss_mem s) = Ret (data, mem) \<Longrightarrow> job_fits cs s data \<Longrightarrow> sys_run cs n s0 rs s'"
| run_crash: "sys_run cs n s0 rs s \<Longrightarrow> InitializeStorages cs n (ss_fs s) = (Ret (Inr so), fs') \<Longrightarrow>
    log_fits cs (sys_log cs s) \<Longrightarrow> sys_run cs n s0 rs (restarted so fs')"

section \<open>Abstract runs\<close>

record store =
  st_tables :: "string \<Rightarrow> Value option"
  st_memory :: "string \<Rightarrow> Value option"

inductive store_run :: "store \<Rightarrow> request list \<Rightarrow> store \<Rightarrow> bool" for a0 :: store where
  store_start: "store_run a0 [] a0"
| store_write: "store_run a0 rs a \<Longrightarrow> \<not> omits r (st_memory a) (st_tables a) \<Longrightarrow>
    store_run a0 (rs @ [r]) (a\<lparr>st_memory := (st_memory a)(request_key r \<mapsto> op_effect (request_op r))\<rparr>)"
| store_omit: "store_run a0 rs a \<Longrightarrow> omits r (st_memory a) (st_tables a) \<Longrightarrow> store_run a0 (rs @ [r]) a"
| store_flush: "store_run a0 rs a \<Longrightarrow>
    store_run a0 rs \<lparr>st_tables = st_tables a ++ st_memory a, st_memory = Map.empty\<rparr>"

definition store_view :: "store \<Rightarrow> string \<Rightarrow> Value option" where
  "store_view a = st_tables a ++ st_memory a"

text \<open>All that an abstract run does to the map is to apply some of the requests, in their order.\<close>

lemma store_run_view:
  "store_run a0 rs a \<Longrightarrow> \<exists>ops. subseq ops (map request_op rs) \<and> store_view a = replay ops (store_view a0)"
proof (induction rule: store_run.induct)
  case store_start
  show ?case by (intro exI [of _ "[]"]) simp
next
  case (store_write rs a r)
  then obtain ops where o: "subseq ops (map request_op rs)" "store_view a = replay ops (store_view a0)" by blast
  have "subseq (ops @ [request_op r]) (map request_op (rs @ [r]))"
    using list_emb_append_mono [OF o(1), of "[request_op r]" "[request_op r]"] by simp
  moreover have "store_view (a\<lparr>st_memory := (st_memory a)(request_key r \<mapsto> op_effect (request_op r))\<rparr>) =
      replay (ops @ [request_op r]) (store_view a0)"
    using o(2) by (simp add: store_view_def replay_append)
  ultimately show ?case by blast
next
  case (store_omit rs a r)
  then obtain ops where o: "subseq ops (map request_op rs)" "store_view a = replay ops (store_view a0)" by blast
  moreover have "subseq (ops @ []) (map request_op rs @ [request_op r])"
    by (rule list_emb_append_mono [OF o(1)]) simp
  ultimately show ?case by auto
next
  case (store_flush rs a)
  then show ?case by (simp add: store_view_def)
qed

section \<open>The simulation\<close>

definition store_of :: "codecs \<Rightarrow> system \<Rightarrow> store" where
  "store_of cs s = \<lparr>st_tables = sys_tables cs s, st_memory = sw_view (ss_mem s)\<rparr>"

text \<open>
  \<open>settled_sys\<close>: the invariant of a storage between two operations. The log replays to the memory
  storage, no collection is under way, and the current log is the only one on disk.
\<close>

definition settled_sys :: "codecs \<Rightarrow> system \<Rightarrow> bool" where
  "settled_sys cs s \<longleftrightarrow> sys_inv cs s \<and> durable cs s \<and> sw_idle (ss_mem s) \<and> order_ok (ss_fs s) \<and>
     wal_files (ss_fs s) = [Wal_GetPath (ss_wal s)] \<and> tables_full (ss_tables s)"

lemma single_log:
  assumes "fs_ok fs" "order_ok fs"
    "\<And>p. extension p = ''.wal'' \<Longrightarrow> parent_path p = GetDataDir fs \<Longrightarrow> p \<in> dom (map_of (fs_dir fs)) \<longleftrightarrow> p = w"
    "extension w = ''.wal''" "parent_path w = GetDataDir fs"
  shows "wal_files fs = [w]"
proof -
  have "set (wal_files fs) = {w}" using wal_files_set(1) [OF assms(1,2)] assms(3-5) by auto
  then show ?thesis using wal_files_set(2) [OF assms(1,2)]
    by (metis distinct_length_2_or_more empty_iff empty_set insert_iff list.exhaust list.set_intros(1)
        list.set_intros(2))
qed

text \<open>The current log of a later state is the only one, if no other log has come or stayed.\<close>

lemma only_log_stays:
  assumes "settled_sys cs s" "sys_inv cs s'" "agree_on (other_files (ss_fs s) - {old, w}) (ss_fs s) (ss_fs s')"
    "old = Wal_GetPath (ss_wal s)" "w = Wal_GetPath (ss_wal s')" "old = w \<or> map_of (fs_dir (ss_fs s')) old = None"
  shows "order_ok (ss_fs s')" "wal_files (ss_fs s') = [w]"
proof -
  let ?fs = "ss_fs s" and ?fs' = "ss_fs s'"
  have e: "same_env ?fs ?fs'" using agree_on_env [OF assms(3)] .
  show o: "order_ok ?fs'" using assms(1) e by (simp add: settled_sys_def order_ok_def same_env_def)
  have ok: "fs_ok ?fs" "fs_ok ?fs'" using assms(1,2) sys_invD(2) by (auto simp: settled_sys_def)
  have x: "extension w = ''.wal''" "parent_path w = GetDataDir ?fs'"
    using assms(2,5) by (simp_all add: sys_inv_def)
  have only: "{p. extension p = ''.wal'' \<and> parent_path p = GetDataDir ?fs \<and> p \<in> dom (map_of (fs_dir ?fs))} = {old}"
    using wal_files_set(1) [OF ok(1)] assms(1,4) by (simp add: settled_sys_def)
  show "wal_files ?fs' = [w]"
  proof (rule single_log [OF ok(2) o _ x])
    fix p assume p: "extension p = ''.wal''" "parent_path p = GetDataDir ?fs'"
    show "p \<in> dom (map_of (fs_dir ?fs')) \<longleftrightarrow> p = w"
    proof (cases "p = old \<or> p = w")
      case True
      then show ?thesis using assms(5,6) wal_path_in_dom [OF assms(2)] by auto
    next
      case False
      then have "p \<in> other_files ?fs - {old, w}" using wal_other [OF ok(1) p(1)] by simp
      then have "map_of (fs_dir ?fs') p = map_of (fs_dir ?fs) p" using agree_on_dir [OF assms(3)] by simp
      moreover have "p \<notin> dom (map_of (fs_dir ?fs))"
        using only p False same_env_dir [OF e] by auto
      ultimately show ?thesis using False by auto
    qed
  qed
qed

lemma request_step:
  assumes "settled_sys cs s" "serve cs r s = Ret (res, s')"
  shows "settled_sys cs s' \<and> store_of cs s' = (if omits r (sw_view (ss_mem s)) (sys_tables cs s) then store_of cs s
    else (store_of cs s)\<lparr>st_memory := (sw_view (ss_mem s))(request_key r \<mapsto> op_effect (request_op r))\<rparr>)"
proof -
  have i: "sys_inv cs s" using assms(1) by (simp add: settled_sys_def)
  from serve_effect [OF i, of r] assms(2) have e: "sys_inv cs s'" "sys_tables cs s' = sys_tables cs s"
    "sw_view (ss_mem s') = replay (accepted [r] (sw_view (ss_mem s)) (sys_tables cs s)) (sw_view (ss_mem s))"
    "same_logs s s'" "durable cs s \<longrightarrow> durable cs s'" by auto
  have "ss_tables s' = ss_tables s" using serve_tables [OF i assms(2)] .
  then show ?thesis
    using assms(1) e by (auto simp: settled_sys_def store_of_def same_logs_def tables_full_def)
qed

lemma swap_step:
  assumes "settled_sys cs s" "SwapToPersistentStorage cs s = (Ret (), s')"
    "SwappableCollect (ss_mem s) = Ret (data, mem)" "job_fits cs s data"
  shows "settled_sys cs s' \<and> store_of cs s' = \<lparr>st_tables = sys_tables cs s ++ sw_view (ss_mem s), st_memory = Map.empty\<rparr>"
proof -
  have g: "sys_inv cs s" "tables_full (ss_tables s)" "sw_idle (ss_mem s)"
    using assms(1) by (simp_all add: settled_sys_def)
  have m: "sw_inv (ss_mem s)" using sys_invD(3) [OF g(1)] .
  have r: "sw_recent (ss_mem s) = Map.empty" "sw_base (ss_mem s) = sw_view (ss_mem s)"
    using sw.idle_recent [OF m g(3)] sw.view_split [OF m] by simp_all
  from SwapToPersistentStorage_ok [OF g(1,2) assms(3,4)] assms(2) have
    j: "sys_inv cs s'" "sys_tables cs s' = sys_tables cs s ++ sw_view (ss_mem s)" "sw_view (ss_mem s') = Map.empty"
      "sw_idle (ss_mem s')" "sys_log cs s' = []" "tables_full (ss_tables s')"
      "map_of (fs_dir (ss_fs s')) (Wal_GetPath (ss_wal s)) = None"
      "agree_on (other_files (ss_fs s) - {Wal_GetPath (ss_wal s), Wal_GetPath (ss_wal s')}) (ss_fs s) (ss_fs s')"
    using r by auto
  note l = only_log_stays [OF assms(1) j(1,8) refl refl]
  have "durable cs s'" using j(3-5) by (simp add: durable_def)
  then show ?thesis using j l by (simp add: settled_sys_def store_of_def)
qed

text \<open>Start-up on the one log of a settled storage, in both cases.\<close>

definition restart_store :: "nat \<Rightarrow> Operation list \<Rightarrow> store \<Rightarrow> store" where
  "restart_store n ops a = (if is_big n ops
     then \<lparr>st_tables = st_tables a ++ st_memory a, st_memory = Map.empty\<rparr> else a)"

lemma crash_one_log:
  assumes "settled_sys cs s" "log_ok cs (sys_log cs s)"
  shows "\<exists>so fs'. InitializeStorages cs n (ss_fs s) = (Ret (Inr so), fs') \<and>
    settled_sys cs (restarted so fs') \<and> store_of cs (restarted so fs') = restart_store n (sys_log cs s) (store_of cs s)"
proof -
  have i: "sys_inv cs s" using assms(1) by (simp add: settled_sys_def)
  note d = sys_invD [OF i] and l = sys_log_is_log [OF i]
  let ?f = "Wal_GetPath (ss_wal s)" and ?fs = "ss_fs s" and ?c = "ss_tables s" and ?ops = "sys_log cs s"
  have w: "wal_files ?fs = [?f]" "order_ok ?fs" "tables_full ?c" using assms(1) by (simp_all add: settled_sys_def)
  from new_PersistentStorageCollection_restart [OF d(2,4)] obtain k where
    c: "new_PersistentStorageCollection cs ?fs = (\<lparr>collection = collection ?c\<rparr>, ?fs\<lparr>fs_clock := k\<rparr>)" by blast
  have "\<lparr>collection = collection ?c\<rparr> = ?c" by (cases ?c) simp
  then have c: "new_PersistentStorageCollection cs ?fs = (?c, ?fs\<lparr>fs_clock := k\<rparr>)" using c by simp
  let ?fs2 = "?fs\<lparr>fs_clock := Suc k\<rparr>"
  have sr: "SearchWALFiles (?fs\<lparr>fs_clock := k\<rparr>) = (Inr [?f], ?fs2)"
    using SearchWALFiles_ok [of "?fs\<lparr>fs_clock := k\<rparr>"] d(2) w(1) by (simp add: tick_clock)
  let ?st = "\<lparr>in_coll = ?c, in_mem = new_Swappable, in_wal = None, in_max = 0, in_fs = ?fs2\<rparr>"
  have ok2: "fs_ok ?fs2" "fs_ok (tick ?fs2)" using d(2) by simp_all
  from d(5) obtain es where es: "wal_state cs ?fs (sww_writer (ss_wal s)) es []" by (auto simp: wal_inv_def)
  then have rf: "read_file ?fs ?f = Some (ser_all (c_wal cs) es @ [])"
    using wal_state_read by (simp add: Wal_GetPath_def WALWriterImpl_GetPath_def)
  have ops: "?ops = concat (map operations_of es)"
    using wal_state_ops [OF d(1,2) es] by (simp add: sys_log_def wal_logged_def Wal_GetPath_def WALWriterImpl_GetPath_def)
  have rf2: "read_file ?fs2 ?f = Some (ser_all (c_wal cs) es @ [])" "read_file (tick ?fs2) ?f = Some (ser_all (c_wal cs) es @ [])"
    using rf by (simp_all add: read_file_def tick_def)
  have "d_parse (c_wal cs) [] = Eof" using delimited_parse_Nil [OF codecs_okD(1) [OF d(1)]] .
  with ReadWAL_entries [OF d(1) ok2(1) rf2(1)] ops have
    rd: "ReadWAL cs ?f ?fs2 = (Ret (Inr (?ops, length (ser_all (c_wal cs) es))), tick ?fs2)" by simp
  have ne: "?ops \<noteq> []" and fit: "length (table_bytes cs (sort (ToEntries (ms_map (replayed ?ops))))) < 2 ^ 64"
    using assms(2) by (simp_all add: log_ok_def log_fits_def)
  note rp = Apply_MapStorage_replayed [OF l(3)]
  let ?m = "Max (op_version ` set ?ops)"
  let ?st1 = "?st\<lparr>in_fs := tick ?fs2, in_max := max 0 ?m\<rparr>"
  have run: "init_files cs n [?f] ?st = (if is_big n ?ops then init_persist cs ?f (replayed ?ops) ?st1
      else init_load ?f (length (ser_all (c_wal cs) es)) (replayed ?ops) ?st1)"
    using rd rp(1) max_version_nonempty [OF ne]
    by (cases "init_persist cs ?f (replayed ?ops) ?st1"; cases "init_load ?f (length (ser_all (c_wal cs) es)) (replayed ?ops) ?st1")
      (auto simp: init_file_def Let_def is_big_def st_bind_def split: exec.splits sum.splits)
  have v: "replay ?ops Map.empty = sw_view (ss_mem s)" using assms(1) by (simp add: settled_sys_def durable_def)
  have x: "extension ?f = ''.wal''" "parent_path ?f = GetDataDir ?fs" using i by (simp_all add: sys_inv_def)
  have agt: "agree_on S ?fs (tick ?fs2)" for S using agree_on_trans [OF agree_on_clock agree_on_tick] by simp
  note co = coll_inv_agree [OF d(4) agt] and tv = tables_view_agree [OF d(4) agt]
  show ?thesis
  proof (cases "is_big n ?ops")
    case True
    then have nm: "ms_map (replayed ?ops) \<noteq> []" by (auto simp: is_big_def MapStorage_Size_def)
    from init_persist_spec [OF d(1), of ?st1 "replayed ?ops" ?f] ok2(2) co rp(2) fit x(1) obtain c1 fs3 where
      p: "init_persist cs ?f (replayed ?ops) ?st1 = (Ret (Inr ()), ?st1\<lparr>in_coll := c1, in_fs := fs3\<rparr>)"
      "fs_ok fs3" "coll_inv cs fs3 (collection c1)"
      "tables_view cs fs3 (collection c1) = sys_tables cs s ++ sw_view (ss_mem s)"
      "agree_on (other_files (tick ?fs2) - {?f}) (tick ?fs2) fs3" "map_of (fs_dir fs3) ?f = None" "tables_full c1"
      using tv rp(3) v w(3) nm by (auto simp: sys_tables_def)
    from NewWALWriter_state [OF p(2), of cs] obtain w fs4 where n: "NewWALWriter fs3 = (Inr w, fs4)"
      "wal_state cs fs4 w [] []" "fs_ok fs4" "wal_path w = format_path fs3 (fs_uuid fs3 (fs_uuid_pos fs3)) ''wal''"
      "agree_on (- {wal_path w}) fs3 fs4" by blast
    note fr = wal_fresh_frame [OF p(2) n(5) [unfolded n(4)] p(3)]
    have wx: "extension (wal_path w) = ''.wal''" "parent_path (wal_path w) = GetDataDir fs4"
      using p(2) n(4) same_env_dir [OF agree_on_env [OF n(5)]]
      by (simp_all add: fs_ok_def extension_format parent_format) (simp add: GetDataDir_def)
    let ?so = "\<lparr>so_coll = c1, so_mem = new_Swappable, so_wal = \<lparr>sww_writer = w\<rparr>,
      so_gen = new_VersionNumberGenerator (max 0 ?m + 1)\<rparr>"
    have r: "InitializeStorages cs n ?fs = (Ret (Inr ?so), fs4)"
      using c sr run True p(1) n(1) by (simp add: InitializeStorages_def NewSwappableWalWriter_def del: init_files.simps)
    have inv: "sys_inv cs (restarted ?so fs4)"
      using d(1) n(2,3) fr(1) wx rep_inv [OF rep_new]
      by (auto simp: sys_inv_def restarted_def wal_inv_def Wal_GetPath_def WALWriterImpl_GetPath_def)
    have "sys_log cs (restarted ?so fs4) = []"
      using wal_state_ops [OF d(1) n(3,2)]
      by (simp add: sys_log_def restarted_def wal_logged_def Wal_GetPath_def WALWriterImpl_GetPath_def)
    then have du: "durable cs (restarted ?so fs4)" "sw_idle (ss_mem (restarted ?so fs4))"
      using rep_idle [OF rep_new] by (simp_all add: durable_def restarted_def)
    let ?K = "other_files ?fs - {?f, wal_path w}"
    have o: "other_files (tick ?fs2) = other_files ?fs" using other_files_env [OF agree_on_env [OF agt]] .
    have "agree_on ?K (tick ?fs2) fs3" by (rule agree_on_mono [OF p(5)]) (use o in auto)
    moreover have "agree_on ?K fs3 fs4" by (rule agree_on_mono [OF n(5)]) auto
    ultimately have ag: "agree_on ?K ?fs fs4" using agt agree_on_trans by blast
    have gone: "map_of (fs_dir fs4) ?f = None" if "?f \<noteq> wal_path w"
      using agree_on_dir [OF n(5), of ?f] that p(6) by simp
    have q: "ss_fs (restarted ?so fs4) = fs4" "Wal_GetPath (ss_wal (restarted ?so fs4)) = wal_path w"
      "ss_tables (restarted ?so fs4) = c1"
      by (simp_all add: restarted_def Wal_GetPath_def WALWriterImpl_GetPath_def)
    have or: "?f = wal_path w \<or> map_of (fs_dir (ss_fs (restarted ?so fs4))) ?f = None" using gone q(1) by metis
    have ag': "agree_on ?K ?fs (ss_fs (restarted ?so fs4))" using ag q(1) by simp
    note ol = only_log_stays [OF assms(1) inv ag' refl q(2) [symmetric] or]
    have "settled_sys cs (restarted ?so fs4)"
      unfolding settled_sys_def q(2,3) by (intro conjI inv du ol p(7))
    moreover have "store_of cs (restarted ?so fs4) = restart_store n ?ops (store_of cs s)"
      using True fr(2) p(4) by (simp add: store_of_def restart_store_def restarted_def sys_tables_def)
    ultimately show ?thesis using r by blast
  next
    case False
    have "parent_path ?f = GetDataDir (in_fs ?st1)" using x(2) by (simp add: GetDataDir_def)
    from init_load_spec [of ?st1 ?f cs es "[]" "replayed ?ops", OF _ _ this] ok2(2) rf2(2) obtain w where
      p: "init_load ?f (length (ser_all (c_wal cs) es)) (replayed ?ops) ?st1 = (Ret (Inr ()),
        ?st1\<lparr>in_mem := new_Swappable_from (replayed ?ops), in_wal := Some w, in_fs := tick (tick ?fs2)\<rparr>)"
      "wal_state cs (tick (tick ?fs2)) (sww_writer w) es []" "Wal_GetPath w = ?f" by auto
    let ?fs' = "tick (tick ?fs2)"
    have ag: "agree_on S ?fs ?fs'" for S using agree_on_trans [OF agt agree_on_tick] by simp
    have ok': "fs_ok ?fs'" using ok2(2) by simp
    let ?so = "\<lparr>so_coll = ?c, so_mem = new_Swappable_from (replayed ?ops), so_wal = w,
      so_gen = new_VersionNumberGenerator (max 0 ?m + 1)\<rparr>"
    have r: "InitializeStorages cs n ?fs = (Ret (Inr ?so), ?fs')"
      using c sr run False p(1) by (simp add: InitializeStorages_def del: init_files.simps)
    note rm = rep_new_from [OF rp(2)]
    have inv: "sys_inv cs (restarted ?so ?fs')"
      using d(1) ok' p(2,3) coll_inv_agree [OF d(4) ag] x rep_inv [OF rm] same_env_dir [OF agree_on_env [OF ag]]
      by (auto simp: sys_inv_def restarted_def wal_inv_def)
    have "sys_log cs (restarted ?so ?fs') = ?ops"
      using wal_state_ops [OF d(1) ok' p(2)] ops p(3)
      by (simp add: sys_log_def restarted_def wal_logged_def Wal_GetPath_def WALWriterImpl_GetPath_def)
    then have du: "durable cs (restarted ?so ?fs')" "sw_idle (ss_mem (restarted ?so ?fs'))"
      "sw_view (ss_mem (restarted ?so ?fs')) = sw_view (ss_mem s)"
      using rep_idle [OF rm] sw_view_new_from [OF rp(2)] rp(3) v by (simp_all add: durable_def restarted_def)
    have q: "ss_fs (restarted ?so ?fs') = ?fs'" "Wal_GetPath (ss_wal (restarted ?so ?fs')) = ?f"
      "ss_tables (restarted ?so ?fs') = ?c"
      using p(3) by (simp_all add: restarted_def)
    have ag': "agree_on (other_files ?fs - {?f, ?f}) ?fs (ss_fs (restarted ?so ?fs'))" using ag q(1) by simp
    note ol = only_log_stays [OF assms(1) inv ag' refl q(2) [symmetric] disjI1 [OF refl]]
    have "settled_sys cs (restarted ?so ?fs')"
      unfolding settled_sys_def q(2,3) by (intro conjI inv du(1,2) ol w(3))
    moreover have "store_of cs (restarted ?so ?fs') = restart_store n ?ops (store_of cs s)"
      using False du(3) tables_view_agree [OF d(4) ag]
      by (simp add: store_of_def restart_store_def sys_tables_def) (simp add: restarted_def)
    ultimately show ?thesis using r by blast
  qed
qed

text \<open>After a job, and on a server that has not written anything yet, the log is empty, and start-up reads
  past the end of an empty vector.\<close>

lemma settled_empty_log:
  assumes "settled_sys cs s" "sys_log cs s = []"
  shows "fst (InitializeStorages cs n (ss_fs s)) = Undef"
proof -
  have i: "sys_inv cs s" and w: "wal_files (ss_fs s) = [Wal_GetPath (ss_wal s)]"
    using assms(1) by (simp_all add: settled_sys_def)
  note d = sys_invD [OF i] and l = sys_log_is_log [OF i]
  show ?thesis by (rule InitializeStorages_empty_log [OF d(1,2,4) w l(1)]) (simp add: l(2) assms(2))
qed

lemma restart_returns_log:
  assumes "settled_sys cs s" "InitializeStorages cs n (ss_fs s) = (Ret r, fs')" "log_fits cs (sys_log cs s)"
  shows "log_ok cs (sys_log cs s)"
  using settled_empty_log [OF assms(1), of n] assms(2,3) by (auto simp: log_ok_def)

section \<open>The storage refines the store\<close>

theorem sys_run_simulated:
  "sys_run cs n s0 rs s \<Longrightarrow> settled_sys cs s0 \<Longrightarrow> settled_sys cs s \<and> store_run (store_of cs s0) rs (store_of cs s)"
proof (induction rule: sys_run.induct)
  case run_start
  then show ?case by (simp add: store_run.store_start)
next
  case (run_request rs s r res s')
  then have i: "settled_sys cs s" "store_run (store_of cs s0) rs (store_of cs s)" by simp_all
  from request_step [OF i(1) run_request.hyps(2)] store_write [OF i(2), of r] store_omit [OF i(2), of r]
  show ?case by (simp add: store_of_def split: if_splits)
next
  case (run_swap rs s s' data mem)
  then have i: "settled_sys cs s" "store_run (store_of cs s0) rs (store_of cs s)" by simp_all
  from swap_step [OF i(1) run_swap.hyps(2-4)] store_flush [OF i(2)] show ?case by (simp add: store_of_def)
next
  case (run_crash rs s so fs')
  then have i: "settled_sys cs s" "store_run (store_of cs s0) rs (store_of cs s)" by simp_all
  from crash_one_log [OF i(1) restart_returns_log [OF i(1) run_crash.hyps(2,3)], of n] run_crash.hyps(2) have
    "settled_sys cs (restarted so fs')" "store_of cs (restarted so fs') = restart_store n (sys_log cs s) (store_of cs s)"
    by auto
  with store_flush [OF i(2)] i(2) show ?case by (simp add: restart_store_def)
qed

text \<open>Serving several requests is a run.\<close>

lemma sys_run_serve_all:
  "serve_all cs rs s = Ret (Inr (), s') \<Longrightarrow> sys_run cs n s0 rs0 s \<Longrightarrow> sys_run cs n s0 (rs0 @ rs) s'"
proof (induction rs arbitrary: rs0 s)
  case (Cons r rs)
  then obtain s1 where "serve cs r s = Ret (Inr (), s1)" "serve_all cs rs s1 = Ret (Inr (), s')"
    by (cases "serve cs r s") (auto split: sum.splits)
  with Cons.IH [OF this(2) run_request [OF Cons.prems(2) this(1)]] show ?case by simp
qed simp

text \<open>From a settled storage no request is stuck, and a crash never loses the map, provided that the
  log is not empty.\<close>

lemma settled_progress:
  assumes "settled_sys cs s"
  shows "\<exists>s'. serve cs r s = Ret (Inr (), s')"
    "log_ok cs (sys_log cs s) \<Longrightarrow> \<exists>so fs'. InitializeStorages cs n (ss_fs s) = (Ret (Inr so), fs') \<and>
      settled_sys cs (restarted so fs') \<and> sys_view cs (restarted so fs') = sys_view cs s"
proof -
  have i: "sys_inv cs s" using assms by (simp add: settled_sys_def)
  then show "\<exists>s'. serve cs r s = Ret (Inr (), s')" using serve_effect by blast
  assume "log_ok cs (sys_log cs s)"
  from crash_one_log [OF assms this, of n] obtain so fs' where
    c: "InitializeStorages cs n (ss_fs s) = (Ret (Inr so), fs')" "settled_sys cs (restarted so fs')"
      "store_of cs (restarted so fs') = restart_store n (sys_log cs s) (store_of cs s)" by blast
  have "store_view (store_of cs (restarted so fs')) = store_view (store_of cs s)"
    using c(3) by (simp add: restart_store_def store_view_def)
  then have "sys_view cs (restarted so fs') = sys_view cs s"
    by (simp add: store_view_def store_of_def sys_view_split)
  with c show "\<exists>so fs'. InitializeStorages cs n (ss_fs s) = (Ret (Inr so), fs') \<and>
      settled_sys cs (restarted so fs') \<and> sys_view cs (restarted so fs') = sys_view cs s" by blast
qed

lemma sys_run_view:
  assumes "sys_run cs n s0 rs s" "settled_sys cs s0"
  shows "\<exists>ops. subseq ops (map request_op rs) \<and> sys_view cs s = replay ops (sys_view cs s0)"
  using store_run_view [OF conjunct2 [OF sys_run_simulated [OF assms]]]
  by (simp add: store_view_def store_of_def sys_view_split)

end
