(* ===== verification/Samples.thy ===== *)
theory Samples
  imports Views Filelog Sample_Codec Election Versioning Storage_Runs
    "HOL-Library.Countable"
begin

text \<open>
  A concrete file system, and a storage system started on it: instances at which the theorems are
  applied. No definition of the model uses them.
\<close>

definition sample_fs :: fs where
  "sample_fs = \<lparr>fs_dir = [], fs_data = (\<lambda>_. []), fs_next = 0, fs_kdir = ''/db'', fs_dirs = [''/db''],
     fs_uuid = (\<lambda>n. replicate n CHR ''x''), fs_uuid_pos = 0, fs_fault = (\<lambda>_. None),
     fs_spill = (\<lambda>_. False), fs_read_fault = (\<lambda>_ _ _. False), fs_clock = 0, fs_what = ''error'', fs_order = (\<lambda>xs. xs)\<rparr>"

lemma inj_replicate: "inj (\<lambda>n. replicate n x)"
  by (rule injI) (metis length_replicate)

lemma sample_fs_ok [simp]: "fs_ok sample_fs"
  by (simp add: fs_ok_def no_faults_def reads_ok_def datadir_ok_def uuids_ok_def dir_ok_def fresh_ok_def
      sample_fs_def is_absolute_def inj_replicate)

lemma sample_fs_coll [simp]: "coll_inv cs sample_fs []"
  by (simp add: coll_inv_def disk_entries_def read_file_def sample_fs_def List.map_filter_def)

lemma sample_fs_order [simp]: "order_ok sample_fs"
  by (simp add: order_ok_def sample_fs_def)

definition sample_start :: "SwappableWalWriterImpl res \<times> fs" where
  "sample_start = NewSwappableWalWriter sample_fs"

definition sample_sys :: system where
  "sample_sys = \<lparr>ss_wal = projr (fst sample_start), ss_mem = new_Swappable,
     ss_tables = \<lparr>collection = []\<rparr>, ss_fs = snd sample_start\<rparr>"

lemma sample_start_eq:
  "sample_start = (Inr \<lparr>sww_writer = \<lparr>wal_path = ''/db/v1-.wal'', wal_f = new_ofstream 0\<rparr>\<rparr>,
     created ''/db/v1-.wal'' (sample_fs\<lparr>fs_uuid_pos := 1\<rparr>))"
  by (simp add: sample_start_def NewSwappableWalWriter_def NewWALWriter_def GetPath_def
      format_path_def GetDataDir_def kVersion_def sample_fs_def CreateBinaryFile_def faulty_def
      tick_def created_def parent_path_def)

lemma sw_inv_new [simp]: "sw_inv new_Swappable"
  using rep_new rep_inv by blast

lemma sw_idle_new [simp]: "sw_idle new_Swappable"
  using rep_new by (auto simp: sw_idle_def)

lemma sample_sys_inv [simp]: "sys_inv sample_codecs sample_sys"
proof -
  from NewSwappableWalWriter_state [of sample_fs sample_codecs "[]"] have
    "fs_ok (ss_fs sample_sys)" "wal_state sample_codecs (ss_fs sample_sys) (sww_writer (ss_wal sample_sys)) [] []"
    "coll_inv sample_codecs (ss_fs sample_sys) (collection (ss_tables sample_sys))"
    by (auto simp: sample_sys_def sample_start_def)
  moreover have "extension (Wal_GetPath (ss_wal sample_sys)) = ''.wal''"
    "parent_path (Wal_GetPath (ss_wal sample_sys)) = GetDataDir (ss_fs sample_sys)"
    by (simp_all add: sample_sys_def sample_start_eq Wal_GetPath_def WALWriterImpl_GetPath_def
        extension_def filename_def stem_of_def parent_path_def)
      (simp add: GetDataDir_def sample_fs_def)
  moreover have "sw_inv (ss_mem sample_sys)" by (simp add: sample_sys_def)
  ultimately show ?thesis by (auto simp: sys_inv_def wal_inv_def)
qed

lemma sample_sys_log [simp]: "sys_log sample_codecs sample_sys = []"
proof -
  note i = sys_invD [OF sample_sys_inv]
  have "read_file (ss_fs sample_sys) (Wal_GetPath (ss_wal sample_sys)) = Some (ser_all (c_wal sample_codecs) [])"
    by (simp add: sample_sys_def sample_start_eq Wal_GetPath_def WALWriterImpl_GetPath_def read_file_def)
  from wal_ops_entries [OF i(1,2) this] show ?thesis by (simp add: sys_log_def wal_logged_def)
qed

lemma sample_sys_durable [simp]: "durable sample_codecs sample_sys"
  by (simp add: durable_def) (simp add: sample_sys_def)

lemma sample_sys_idle [simp]: "sw_idle (ss_mem sample_sys)"
  by (simp add: sample_sys_def)

lemma sample_sys_views [simp]: "sw_view (ss_mem sample_sys) = Map.empty"
  "sys_tables cs sample_sys = Map.empty" "order_ok (ss_fs sample_sys)"
  by (simp_all add: sample_sys_def sys_tables_def tables_view_def sample_start_eq created_def
      order_ok_def sample_fs_def)

lemma sample_wal_files: "wal_files (ss_fs sample_sys) = [Wal_GetPath (ss_wal sample_sys)]"
  by (simp add: sample_sys_def sample_start_eq created_def wal_files_def Wal_GetPath_def
      WALWriterImpl_GetPath_def sample_fs_def GetDataDir_def extension_def filename_def stem_of_def
      parent_path_def)

text \<open>A disk on which every write is cut after three bytes, and every other operation fails.\<close>

definition broken_disk :: "system \<Rightarrow> system" where
  "broken_disk s = s\<lparr>ss_fs := (ss_fs s)\<lparr>fs_fault := \<lambda>_. Some 3\<rparr>\<rparr>"

definition sample_requests :: "request list" where
  "sample_requests = [RInsert \<lparr>kw_key = ''k'', kw_value = ''v'', kw_version = 3\<rparr>, RRemove ''x'' 4]"

lemma sample_accepted: "accepted sample_requests Map.empty Map.empty =
  [insert_op \<lparr>kw_key = ''k'', kw_value = ''v'', kw_version = 3\<rparr>, remove_op ''x'' 4]"
  by (simp add: sample_requests_def omits_def older_than_def lookup_result_def request_key_def
      request_op_def)

lemma length_table_bytes: "length (table_bytes cs es) =
  sum_mset (image_mset (\<lambda>e. length (d_ser (c_entry cs) (to_protobuf_entry e))) (mset es))"
  by (induction es) (simp_all add: table_bytes_def)

lemma length_table_bytes_sort [simp]: "length (table_bytes cs (sort es)) = length (table_bytes cs es)"
  by (simp add: length_table_bytes)

lemma length_e_u64 [simp]: "length (e_u64 w) = 64"
  by (simp add: e_u64_def)

lemmas sample_codec_defs = sample_codecs_def delimit_def e_pair_def of_PEntry_def e_str_def e_num_def
  opt_list_def e_char_def to_protobuf_entry_def

lemma sample_log_ok: "log_ok sample_codecs
  [insert_op \<lparr>kw_key = ''k'', kw_value = ''v'', kw_version = 3\<rparr>, remove_op ''x'' 4]"
  by (simp add: log_ok_def log_fits_def replayed_def Apply_MapStorage_def apply_operation_def insert_op_def remove_op_def
      MapStorage_Insert_def MapStorage_Remove_def new_MapStorage_def value_entry_def
      table_bytes_def sample_codec_defs)

lemma sample_served_log_ok: "log_ok sample_codecs (sys_log sample_codecs sample_sys @
    accepted sample_requests (sw_view (ss_mem sample_sys)) (sys_tables sample_codecs sample_sys))"
  by (simp add: sample_accepted sample_log_ok)

lemmas sample_running = sample_sys_inv sample_sys_durable sample_sys_idle sample_sys_views(3)
  sample_wal_files

lemma strict_prefix_take: "n < length b \<Longrightarrow> strict_prefix (take n b) b"
  by (metis length_take min_less_iff_conj not_less_iff_gr_or_eq strict_prefix_def take_is_prefix)

lemma length_e_string [simp]: "length (e_list e_char s) = 2 * length s + 1"
  by (induction s) (simp_all add: e_char_def)

text \<open>Collections of any size on disk: \<open>n\<close> tables of one entry each.\<close>

definition sample_entry :: StorageEntry where
  "sample_entry = \<lparr>se_key = ''k'', se_value = Some ''v'', se_version = 1\<rparr>"

definition one_entry_tables :: "fs \<Rightarrow> PersistentStorage list \<Rightarrow> bool" where
  "one_entry_tables fs ps \<longleftrightarrow> fs_ok fs \<and> coll_inv sample_codecs fs ps \<and>
     (\<forall>st \<in> set ps. ps_entries sample_codecs fs st = [sample_entry])"

lemma sample_entry_bytes: "length (table_bytes sample_codecs [sample_entry]) < 2 ^ 64"
  by (simp add: sample_entry_def table_bytes_def sample_codec_defs)

lemma one_entry_tables_Suc:
  assumes "one_entry_tables fs ps"
  shows "\<exists>fs' st. one_entry_tables fs' (ps @ [st])"
proof -
  have i: "fs_ok fs" "coll_inv sample_codecs fs ps" using assms by (auto simp: one_entry_tables_def)
  have b: "length (table_bytes sample_codecs (sort [sample_entry])) < 2 ^ 64"
    using sample_entry_bytes by simp
  from persist_table [OF sample_codecs_ok i(1), of "\<lparr>collection = ps\<rparr>", OF _ _ b] i(2) obtain st fs1 fs2
    where "persisted sample_codecs fs ps [sample_entry] st fs2" by auto
  then have "one_entry_tables fs2 (ps @ [st])"
    using assms by (auto simp: one_entry_tables_def persisted_def)
  then show ?thesis by blast
qed

lemma one_entry_tables_exist: "\<exists>fs ps. one_entry_tables fs ps \<and> length ps = n"
proof (induction n)
  case 0
  have "one_entry_tables sample_fs []" by (simp add: one_entry_tables_def)
  then show ?case by (intro exI [of _ sample_fs]) auto
next
  case (Suc n)
  then show ?case using one_entry_tables_Suc by (metis length_append_singleton)
qed

lemma map_constant: "(\<forall>x \<in> set xs. f x = c) \<Longrightarrow> map f xs = replicate (length xs) c"
  by (induction xs) auto

lemma one_entry_merged:
  assumes "one_entry_tables fs ps" "ps \<noteq> []"
  shows "merged sample_codecs fs ps = [sample_entry]"
proof -
  have "map (ps_entries sample_codecs fs) (rev ps) = replicate (length ps) [sample_entry]"
    using assms(1) map_constant [of "rev ps" "ps_entries sample_codecs fs" "[sample_entry]"] by (simp add: one_entry_tables_def)
  moreover have "first_of_key (concat (replicate (Suc m) [sample_entry])) = [sample_entry]" for m
    by (induction m) auto
  ultimately show ?thesis using assms(2) by (cases "length ps") (auto simp: merged_def)
qed

lemma sample_tables:
  obtains fs ps where "fs_ok fs" "coll_inv sample_codecs fs ps" "length ps = 6"
    "\<forall>st \<in> set ps. ps_ok sample_codecs fs st \<and> ps_index st \<noteq> []"
    "merged sample_codecs fs ps = [sample_entry]"
proof -
  from one_entry_tables_exist obtain fs ps where t: "one_entry_tables fs ps" "length ps = 6" by blast
  then have i: "fs_ok fs" "coll_inv sample_codecs fs ps" by (auto simp: one_entry_tables_def)
  have "ps_index st \<noteq> []" if "st \<in> set ps" for st
  proof
    assume "ps_index st = []"
    then have "ps_entries sample_codecs fs st = []" by (simp add: ps_entries_def)
    then show False using t(1) that by (simp add: one_entry_tables_def)
  qed
  moreover have "merged sample_codecs fs ps = [sample_entry]" using one_entry_merged [OF t(1)] t(2) by fastforce
  ultimately show ?thesis using that [OF i t(2)] coll_inv_mem(3) [OF i(2)] by blast
qed

text \<open>Two logs on disk, as an interrupted swap leaves them.\<close>

definition two_logs_fs :: fs where
  "two_logs_fs = sample_fs\<lparr>fs_dir := [(''/db/v1-.wal'', 0), (''/db/v1-x.wal'', 1)], fs_next := 2,
     fs_uuid_pos := 2, fs_data := (\<lambda>_. [])
       (0 := d_ser (c_wal sample_codecs) (WRemoveOp \<lparr>wr_key = Some ''a'', wr_version = Some 1\<rparr>),
        1 := d_ser (c_wal sample_codecs) (WRemoveOp \<lparr>wr_key = Some ''b'', wr_version = Some 2\<rparr>))\<rparr>"

lemma two_logs_ok: "fs_ok two_logs_fs"
proof -
  have "\<forall>n \<ge> 2. replicate n CHR ''x'' \<noteq> [] \<and> replicate n CHR ''x'' \<noteq> ''x''"
    by (auto dest: arg_cong [where f = length])
  then show ?thesis
    by (auto simp: fs_ok_def no_faults_def reads_ok_def datadir_ok_def uuids_ok_def dir_ok_def fresh_ok_def
      two_logs_fs_def sample_fs_def is_absolute_def inj_replicate format_path_def GetDataDir_def
      kVersion_def file_extensions_def split: if_splits)
qed

lemma two_logs_files: "wal_files two_logs_fs = [''/db/v1-.wal'', ''/db/v1-x.wal'']"
  by (simp add: two_logs_fs_def wal_files_def sample_fs_def GetDataDir_def extension_def
      filename_def stem_of_def parent_path_def)

lemma two_logs_coll: "coll_inv sample_codecs two_logs_fs []"
  by (simp add: coll_inv_def disk_entries_def two_logs_fs_def read_file_def sample_fs_def
      List.map_filter_def meta_path_def path_append_def GetDataDir_def kMetadata_def is_absolute_def)

lemma two_logs_order: "order_ok two_logs_fs"
  by (simp add: order_ok_def two_logs_fs_def sample_fs_def)

lemma two_logs_read:
  "read_file two_logs_fs ''/db/v1-.wal'' = Some (ser_all (c_wal sample_codecs)
     [WRemoveOp \<lparr>wr_key = Some ''a'', wr_version = Some 1\<rparr>])"
  "read_file two_logs_fs ''/db/v1-x.wal'' = Some (ser_all (c_wal sample_codecs)
     [WRemoveOp \<lparr>wr_key = Some ''b'', wr_version = Some 2\<rparr>])"
  by (simp_all add: two_logs_fs_def read_file_def sample_fs_def)

lemma sample_is_log:
  assumes "read_file fs p = Some (ser_all (c_wal sample_codecs) es)" "extension p = ''.wal''"
    "parent_path p = GetDataDir fs"
  shows "is_log sample_codecs fs p"
  unfolding is_log_def
  using assms delimited_parse_Nil [OF codecs_okD(1) [OF sample_codecs_ok]] by (metis append_Nil2)

lemma two_logs_logs:
  "is_log sample_codecs two_logs_fs ''/db/v1-.wal''" "is_log sample_codecs two_logs_fs ''/db/v1-x.wal''"
  by (rule sample_is_log [OF two_logs_read(1)] sample_is_log [OF two_logs_read(2)];
      simp add: extension_def filename_def stem_of_def parent_path_def GetDataDir_def two_logs_fs_def
        sample_fs_def)+

lemma two_logs_ops:
  "wal_ops sample_codecs two_logs_fs ''/db/v1-.wal'' = [remove_op ''a'' 1]"
  "wal_ops sample_codecs two_logs_fs ''/db/v1-x.wal'' = [remove_op ''b'' 2]"
  using wal_ops_entries [OF sample_codecs_ok two_logs_ok two_logs_read(1)]
    wal_ops_entries [OF sample_codecs_ok two_logs_ok two_logs_read(2)]
  by (simp_all add: operations_of_def remove_op_def)

lemma one_op_log: "log_ok sample_codecs [remove_op [c] v]" "\<not> is_big 1 [remove_op [c] v]"
  by (simp_all add: log_ok_def log_fits_def is_big_def replayed_def Apply_MapStorage_def apply_operation_def remove_op_def
      MapStorage_Remove_def new_MapStorage_def value_entry_def table_bytes_def sample_codec_defs
      MapStorage_Size_def)

text \<open>A cluster of nodes whose sessions all have handles of their own, and its run to a state in which
  two nodes hold the master flag: the first one has not noticed that its session has ended.\<close>

definition sample_session :: "nat \<Rightarrow> nat \<Rightarrow> nat" where
  "sample_session n k = to_nat (n, k)"

definition sample_handles :: "nat \<Rightarrow> nat \<Rightarrow> nat option" where
  "sample_handles n k = Some (sample_session n k)"

lemma sample_session_inject [simp]: "sample_session n k = sample_session m j \<longleftrightarrow> n = m \<and> k = j"
  by (simp add: sample_session_def)

lemma sample_handles_unique: "handles_unique sample_handles"
  by (auto simp: handles_unique_def sample_handles_def)

text \<open>A client whose library needs three attempts to open a session.\<close>

definition sample_zk :: zk where
  "sample_zk = zk_start (\<lambda>_. ZOK) (\<lambda>n. if n < 2 then None else Some n)"

definition sample_cluster :: cluster where
  "sample_cluster = cluster_start (\<lambda>_. ''h'') [] (\<lambda>_ _. ZOK) sample_handles"

lemma sample_cluster_node:
  "z_kZh (cl_node sample_cluster n) = Some (sample_session n 0)"
  "z_pending (cl_node sample_cluster n) = [ACreateNodes, ACreateMaster ''h'']"
  "cl_owner sample_cluster = None" "cl_dead sample_cluster = {}" "cl_inbox sample_cluster = (\<lambda>_. [])"
  by (simp_all add: sample_cluster_def cluster_start_def InitZookeeper_def zk_start_def
      sample_handles_def BootstrapServiceDiscovery_def TryBecomeMaster_def issue_def)

lemma become_master:
  assumes "ACreateMaster h \<in> set (z_pending (cl_node c n))" "z_kZh (cl_node c n) = Some s"
    "s \<notin> cl_dead c" "cl_owner c = None" "cl_inbox c n = []"
  shows "\<exists>c'. creach c c' \<and> IsMaster (cl_node c' n) \<and> cl_owner c' = Some s \<and> cl_dead c' = cl_dead c \<and>
    (\<forall>m. m \<noteq> n \<longrightarrow> cl_node c' m = cl_node c m \<and> cl_inbox c' m = cl_inbox c m) \<and>
    z_kZh (cl_node c' n) = Some s"
proof -
  let ?c1 = "(answer n (ACreateMaster h) ZOK c)\<lparr>cl_owner := Some s\<rparr>"
  let ?c2 = "(set_node n (TryBecomeMasterCompletion ZOK (cl_node ?c1 n)) ?c1)\<lparr>cl_inbox := (cl_inbox ?c1)(n := [])\<rparr>"
  have "cstep c ?c1" by (rule create_done [OF assms(1,2,3,4)]) simp
  moreover have "cstep ?c1 ?c2" by (rule deliver) (simp add: answer_def assms(5))
  ultimately have "creach c ?c2" using creach_refl creach_step by meson
  then show ?thesis
    using assms(2) by (intro exI [of _ ?c2]) (simp add: answer_def set_node_def IsMaster_def
      TryBecomeMasterCompletion_def SetMasterNode_def)
qed

lemma creach_trans: "creach b c \<Longrightarrow> creach a b \<Longrightarrow> creach a c"
  by (induction rule: creach.induct) (auto intro: creach_step)

lemma sample_two_masters:
  "\<exists>c. creach sample_cluster c \<and> IsMaster (cl_node c 0) \<and> IsMaster (cl_node c 1)"
proof -
  note n = sample_cluster_node
  from become_master [of "''h''" sample_cluster 0] n obtain c where c: "creach sample_cluster c"
    "IsMaster (cl_node c 0)" "cl_owner c = Some (sample_session 0 0)" "cl_dead c = {}"
    "\<forall>m. m \<noteq> 0 \<longrightarrow> cl_node c m = cl_node sample_cluster m \<and> cl_inbox c m = []" by auto
  let ?c1 = "c\<lparr>cl_dead := insert (sample_session 0 0) (cl_dead c), cl_owner :=
    (if cl_owner c = Some (sample_session 0 0) then None else cl_owner c)\<rparr>"
  have "cstep c ?c1" by (rule expire)
  then have r: "creach sample_cluster ?c1" using c(1) creach_step by blast
  have e: "sample_session 1 0 \<notin> cl_dead ?c1" using c(4) by simp
  from become_master [of "''h''" ?c1 1, OF _ _ e] c n obtain c2 where
    c2: "creach ?c1 c2" "IsMaster (cl_node c2 1)" "\<forall>m. m \<noteq> 1 \<longrightarrow> cl_node c2 m = cl_node ?c1 m" by auto
  have "IsMaster (cl_node c2 0)" using c2(3) c(2) by simp
  then show ?thesis using creach_trans [OF c2(1) r] c2(2) by blast
qed

text \<open>A node that knows two others, one of which answers.\<close>

definition sample_replication :: Replication where
  "sample_replication = new_Replication ((zk_start (\<lambda>_. ZOK) (\<lambda>_. None))\<lparr>z_kNodes := Some [''a'', ''b'']\<rparr>)
     (\<lambda>_ host _. if host = ''a'' then RpcFailed ''down'' '''' else RpcReply \<lparr>gp_value = Some ''v'', gp_version = Some 4\<rparr>)"

lemma sample_replication_nodes: "GetNodes (rp_zk sample_replication) = Inr [''a'', ''b'']"
  by (simp add: sample_replication_def new_Replication_def GetNodes_def)

text \<open>A memory storage with four keys, a fifth entry, and a controller on top of them.\<close>

definition sample_map :: MapStorage where
  "sample_map = \<lparr>ms_map = map (\<lambda>x. ([x], \<lparr>val_value = Some ''v'', val_version = 1\<rparr>)) ''abcd''\<rparr>"

definition sample_full :: system where
  "sample_full = sample_sys\<lparr>ss_mem := new_Swappable_from sample_map\<rparr>"

definition sample_pair :: KwPair where
  "sample_pair = \<lparr>kw_key = ''e'', kw_value = ''v'', kw_version = 1\<rparr>"

definition sample_entries :: "StorageEntry list" where
  "sample_entries = map (\<lambda>x. \<lparr>se_key = [x], se_value = Some ''v'', se_version = 1\<rparr>) ''abcde''"

lemma sample_map_rep: "sw_rep (new_Swappable_from sample_map) False new_MapStorage sample_map"
  by (rule rep_new_from) (simp add: ms_inv_def sample_map_def)

lemma sample_full_facts: "sys_inv sample_codecs sample_full" "sw_idle (ss_mem sample_full)"
  "collection (ss_tables sample_full) = []" "sw_view (ss_mem sample_full) = ms_view sample_map"
  "tables_full (ss_tables sample_full)" "sys_tables cs sample_full = Map.empty"
  "sw_base (ss_mem sample_full) = ms_view sample_map"
proof -
  have "collection (ss_tables sample_sys) = []" by (simp add: sample_sys_def)
  then show "sys_inv sample_codecs sample_full" "sw_idle (ss_mem sample_full)"
    "collection (ss_tables sample_full) = []" "sw_view (ss_mem sample_full) = ms_view sample_map"
    "tables_full (ss_tables sample_full)" "sys_tables cs sample_full = Map.empty"
    "sw_base (ss_mem sample_full) = ms_view sample_map"
    using sample_map_rep rep_inv [OF sample_map_rep] sw_view_rep [OF sample_map_rep] rep_base [OF sample_map_rep]
    by (auto simp: sample_full_def sw_idle_def tables_full_def)
qed

lemma first_of_key_distinct: "distinct (map se_key es) \<Longrightarrow> first_of_key es = es"
proof (induction es)
  case (Cons e es)
  then have "filter (\<lambda>x. se_key x \<noteq> se_key e) es = es" by (metis (mono_tags, lifting) distinct.simps(2) filter_id_conv imageI list.simps(9) list.set_map)
  then show ?case using Cons by simp
qed simp

lemma distinct_keys_sort: "distinct (map se_key es) \<Longrightarrow> distinct (map se_key (sort es))"
  by (simp add: distinct_map)

lemma job_fits_no_tables:
  assumes "collection (ss_tables s) = []" "distinct (map se_key es)" "es \<noteq> []" "length (table_bytes cs es) < 2 ^ 64"
  shows "job_fits cs s es"
  using assms by (simp add: job_fits_def compacted_def first_of_key_distinct distinct_keys_sort)

lemma sample_entries_fit:
  "distinct (map se_key sample_entries)" "sample_entries \<noteq> []" "length sample_entries = 5"
  "length (table_bytes sample_codecs sample_entries) < 2 ^ 64"
  "entries_view sample_entries = (ms_view sample_map)(''e'' \<mapsto> \<lparr>val_value = Some ''v'', val_version = 1\<rparr>)"
  by (simp_all add: sample_entries_def table_bytes_def sample_codec_defs)
    (auto simp: ms_view_def sample_map_def fun_eq_iff entry_value_def)

definition sample_controller :: "(nat \<Rightarrow> bool) \<Rightarrow> controller" where
  "sample_controller ready = new_Controller sample_full (new_VersionNumberGenerator 7) sample_replication
     ready (\<lambda>_ z. z) 0"

lemma sample_controller_simps [simp]:
  "ct_sys (sample_controller rd) = sample_full" "ct_jobs (sample_controller rd) = []"
  "\<not> is_job_running (ct_guard (sample_controller rd))" "ct_ready (sample_controller rd) = rd"
  "ct_point (sample_controller rd) = 0" "ct_rep (sample_controller rd) = sample_replication"
  "ct_gen (sample_controller rd) = new_VersionNumberGenerator 7" "ct_aborted (sample_controller rd) = []"
  by (simp_all add: sample_controller_def new_Controller_def new_JobGuard_def)

lemma sample_nodes_stay: "nodes_stay [''a'', ''b''] (sample_controller rd)"
  by (simp add: nodes_stay_def sample_replication_nodes) (simp add: sample_controller_def new_Controller_def)

lemma sample_there: "fst (GetNewestFromReplicas \<lparr>grd_key = k\<rparr> sample_replication) = Ret (Inr \<lparr>vd_value = ''v'', vd_version = 4\<rparr>)"
  by (simp add: sample_replication_def new_Replication_def GetNewestFromReplicas_def GetNodes_def
      do_request_eq ReplicaClient_Get_def MakeRequestWithBackoff_def MakeRequest_def eval_nat_numeral
      request_failed_def Let_def)

text \<open>The same controller, every call of which fails.\<close>

definition sample_alone :: controller where
  "sample_alone = (sample_controller (\<lambda>_. True))\<lparr>ct_rep := sample_replication\<lparr>rp_outcome := \<lambda>_ _ _. RpcFailed [] []\<rparr>\<rparr>"

text \<open>A node that is connected and the master, and knows no other node yet.\<close>

definition sample_master :: "system \<Rightarrow> controller" where
  "sample_master s = new_Controller s (new_VersionNumberGenerator 7)
     (new_Replication ((zk_start (\<lambda>_. ZOK) (\<lambda>_. None))\<lparr>z_kIsMaster := True, z_kExpired := False\<rparr>)
       (\<lambda>_ _ _. RpcFailed [] [])) (\<lambda>_. True) (\<lambda>_ z. z) 0"

lemma sample_master_simps [simp]:
  "ct_sys (sample_master s) = s" "ct_jobs (sample_master s) = []" "settled (sample_master s)"
  by (simp_all add: sample_master_def new_Controller_def settled_def new_Replication_def
      IsConnectionExpired_def IsMaster_def)

lemma sample_master_there:
  "\<exists>e. fst (GetNewestFromReplicas data (ct_rep (sample_master s))) = Ret (Inl e)"
  by (simp add: sample_master_def new_Controller_def new_Replication_def GetNewestFromReplicas_def
      GetNodes_def zk_start_def)

text \<open>A system whose tables hold four keys and whose memory is empty: \<open>sample_full\<close> after its job.\<close>

lemma sample_stored: "\<exists>s. sys_inv sample_codecs s \<and> sw_idle (ss_mem s) \<and> sw_view (ss_mem s) = Map.empty \<and>
    sys_tables sample_codecs s = ms_view sample_map"
proof -
  have "job_fits sample_codecs sample_full (ToEntries (ms_map sample_map))"
    using sample_full_facts(3)
    by (intro job_fits_no_tables)
      (simp_all add: sample_map_def value_entry_def table_bytes_def sample_codec_defs)
  moreover have "entries_view (ToEntries (ms_map sample_map)) = sw_base (ss_mem sample_full)"
    "distinct (map se_key (ToEntries (ms_map sample_map)))"
    by (simp_all add: sample_full_facts(7) entries_view_ToEntries keys_ToEntries ms_view_def)
      (simp add: sample_map_def)
  ultimately obtain s' where "flushed sample_codecs sample_full s'"
    using swap_job_flushes [OF sample_full_facts(1,2,5)] by blast
  then show ?thesis
    using sample_full_facts(4,6) by (auto simp: flushed_def sys_view_split)
qed

text \<open>The started storage is settled, and the sample requests lead to a state that a crash may end.\<close>

lemma sample_settled: "settled_sys sample_codecs sample_sys"
  using sample_running by (simp add: settled_sys_def tables_full_def) (simp add: sample_sys_def)

lemma sample_run:
  obtains s where "sys_run sample_codecs 1 sample_sys sample_requests s" "log_ok sample_codecs (sys_log sample_codecs s)"
proof -
  from serve_all_effect [OF sample_sys_inv, of sample_requests] obtain s where
    s: "serve_all sample_codecs sample_requests sample_sys = Ret (Inr (), s)"
    "sys_log sample_codecs s = accepted sample_requests (sw_view (ss_mem sample_sys)) (sys_tables sample_codecs sample_sys)"
    by auto
  have "sys_run sample_codecs 1 sample_sys ([] @ sample_requests) s"
    by (rule sys_run_serve_all [OF s(1) run_start])
  moreover have "log_ok sample_codecs (sys_log sample_codecs s)" using sample_served_log_ok s(2) by simp
  ultimately show thesis using that by simp
qed

lemma sample_served:
  obtains s where "serve_all sample_codecs sample_requests sample_sys = Ret (Inr (), s)" "settled_sys sample_codecs s"
    "log_ok sample_codecs (sys_log sample_codecs s)" "fs_kdir (ss_fs s) = ''/db''"
    "sys_view sample_codecs s ''k'' = Some \<lparr>val_value = Some ''v'', val_version = 3\<rparr>"
proof -
  from serve_all_effect [OF sample_sys_inv, of sample_requests] obtain s where
    s: "serve_all sample_codecs sample_requests sample_sys = Ret (Inr (), s)"
    "sys_log sample_codecs s = accepted sample_requests (sw_view (ss_mem sample_sys)) (sys_tables sample_codecs sample_sys)"
    "sw_view (ss_mem s) = replay (accepted sample_requests (sw_view (ss_mem sample_sys)) (sys_tables sample_codecs sample_sys))
      (sw_view (ss_mem sample_sys))" "same_logs sample_sys s"
    by auto
  have "sys_run sample_codecs 1 sample_sys ([] @ sample_requests) s"
    by (rule sys_run_serve_all [OF s(1) run_start])
  from conjunct1 [OF sys_run_simulated [OF this sample_settled]] have "settled_sys sample_codecs s" .
  moreover have "log_ok sample_codecs (sys_log sample_codecs s)" using sample_served_log_ok s(2) by simp
  moreover have "fs_kdir (ss_fs s) = ''/db''"
  proof -
    have i: "sys_inv sample_codecs s" using calculation(1) by (simp add: settled_sys_def)
    then have "GetDataDir (ss_fs s) = fs_kdir (ss_fs s)"
      using sys_invD(2) [OF i] by (simp add: fs_ok_def datadir_ok_def GetDataDir_def)
    moreover have "GetDataDir (ss_fs s) = parent_path (Wal_GetPath (ss_wal sample_sys))"
      using i s(4) by (simp add: sys_inv_def same_logs_def)
    ultimately show ?thesis
      by (simp add: sample_sys_def sample_start_eq Wal_GetPath_def WALWriterImpl_GetPath_def parent_path_def)
  qed
  moreover have "sys_view sample_codecs s ''k'' = Some \<lparr>val_value = Some ''v'', val_version = 3\<rparr>"
    using s(3) by (simp add: sys_view_split map_add_def sample_accepted insert_op_def remove_op_def op_effect_def)
  ultimately show thesis using that s(1) by blast
qed

end
