(* ===== verification/Unit_Tests.thy ===== *)
theory Unit_Tests
  imports Samples
begin

text \<open>
  The unit tests of the repository (\<open>*_test.cpp\<close>) on the model: what each of them expects holds of the
  definitions. Every lemma has the name of its test; the data directory is that of \<open>Samples\<close>, which is
  empty. Of the tests of recovery, the one that continues a log after a restart is left to
  \<open>Storage_Runs\<close>, where it holds for every run.
\<close>

section \<open>Memory storage\<close>

text \<open>A designated initialiser that names no version gives version 0.\<close>

definition test_pair :: "string \<Rightarrow> string \<Rightarrow> KwPair" where
  "test_pair k v = \<lparr>kw_key = k, kw_value = v, kw_version = 0\<rparr>"

lemma test_pair_simps [simp]: "kw_key (test_pair k v) = k" "kw_value (test_pair k v) = v" "kw_version (test_pair k v) = 0"
  by (simp_all add: test_pair_def)

lemma MemoryStorageTest_Get:
  "map_sum id val_value (MapStorage_Get ''key'' (MapStorage_Insert (test_pair ''key'' ''value'') new_MapStorage)) = Inr (Some ''value'')"
  by (simp add: MapStorage_Get_def MapStorage_Insert_def new_MapStorage_def)

lemma MemoryStorageTest_GetNonExisting:
  "map_sum What id (MapStorage_Get ''abc'' new_MapStorage) = Inl ''key abc not found in storage''"
  by (simp add: MapStorage_Get_def new_MapStorage_def kNotFound_msg_def MakeError_def What_def new_Error_def)

lemma MemoryStorageTest_GetAfterRemove:
  "map_sum id val_value (MapStorage_Get ''key'' (MapStorage_Remove ''key'' 0 (MapStorage_Insert (test_pair ''key'' ''value'') new_MapStorage))) = Inr None"
  by (simp add: MapStorage_Get_def MapStorage_Insert_def MapStorage_Remove_def new_MapStorage_def)

lemma MemoryStorageTest_InsertUpdatesExistingKey:
  "map_sum id val_value (MapStorage_Get ''key'' (MapStorage_Insert (test_pair ''key'' ''other'')
     (MapStorage_Insert (test_pair ''key'' ''value'') new_MapStorage))) = Inr (Some ''other'')"
  by (simp add: MapStorage_Get_def MapStorage_Insert_def new_MapStorage_def)

section \<open>Swappable memory storage\<close>

lemma SwappableStorageTest_Get:
  "\<exists>s. Swappable_Insert (test_pair ''key'' ''value'') new_Swappable = Ret s \<and>
    exec_bind (Swappable_Get ''key'' s) (\<lambda>(r, s). Ret (map_sum id val_value r)) = Ret (Inr (Some ''value''))"
proof -
  from rep_Insert [OF rep_new, of "test_pair ''key'' ''value''"] obtain s where
    "Swappable_Insert (test_pair ''key'' ''value'') new_Swappable = Ret s"
    "sw_rep s False new_MapStorage (MapStorage_Insert (test_pair ''key'' ''value'') new_MapStorage)" by auto
  with rep_Get [OF this(2), of "''key''"] show ?thesis
    by (auto simp: ms_view_def MapStorage_Insert_def new_MapStorage_def)
qed

fun insert_all :: "KwPair list \<Rightarrow> SwappableMemoryStorage \<Rightarrow> SwappableMemoryStorage exec" where
  "insert_all [] s = Ret s"
| "insert_all (p # ps) s = exec_bind (Swappable_Insert p s) (insert_all ps)"

lemma insert_all_rep:
  "sw_rep s False m0 m \<Longrightarrow> \<exists>s'. insert_all ps s = Ret s' \<and> sw_rep s' False m0 (fold MapStorage_Insert ps m)"
proof (induction ps arbitrary: s m)
  case (Cons p ps)
  from rep_Insert [OF Cons.prems, of p] obtain s1 where
    "Swappable_Insert p s = Ret s1" "sw_rep s1 False m0 (MapStorage_Insert p m)" by auto
  with Cons.IH [OF this(2)] show ?case by simp
qed simp

text \<open>The test compares with the entries in the order of their keys; a hash map promises no order.\<close>

lemma SwappableStorageTest_Collect:
  "\<exists>s s' es. insert_all [test_pair ''key0'' ''value0'', test_pair ''key1'' ''value1'', test_pair ''key2'' ''value2'', test_pair ''key3'' ''value3'',
      test_pair ''key4'' ''value4''] new_Swappable = Ret s \<and> SwappableCollect s = Ret (es, s') \<and>
    set es = {\<lparr>se_key = ''key0'', se_value = Some ''value0'', se_version = 0\<rparr>,
      \<lparr>se_key = ''key1'', se_value = Some ''value1'', se_version = 0\<rparr>,
      \<lparr>se_key = ''key2'', se_value = Some ''value2'', se_version = 0\<rparr>,
      \<lparr>se_key = ''key3'', se_value = Some ''value3'', se_version = 0\<rparr>,
      \<lparr>se_key = ''key4'', se_value = Some ''value4'', se_version = 0\<rparr>}"
proof -
  let ?ps = "[test_pair ''key0'' ''value0'', test_pair ''key1'' ''value1'', test_pair ''key2'' ''value2'', test_pair ''key3'' ''value3'', test_pair ''key4'' ''value4'']"
  from insert_all_rep [OF rep_new, of ?ps] obtain s where s: "insert_all ?ps new_Swappable = Ret s"
    "sw_rep s False new_MapStorage (fold MapStorage_Insert ?ps new_MapStorage)" by blast
  from rep_Collect [OF s(2)] obtain s' where
    "SwappableCollect s = Ret (ToEntries (ms_map (fold MapStorage_Insert ?ps new_MapStorage)), s')" by blast
  with s(1) show ?thesis by (fastforce simp: MapStorage_Insert_def new_MapStorage_def value_entry_def)
qed
section \<open>Persistent storage\<close>

definition InitStorage :: "StorageEntry list" where
  "InitStorage = ToEntries (MapStorage_GetUnderlying
     (fold MapStorage_Insert (map (\<lambda>i. test_pair (''key'' @ [i]) (''value'' @ [i])) ''0123456789'') new_MapStorage))"

lemma InitStorage_eq: "InitStorage =
  map (\<lambda>i. \<lparr>se_key = ''key'' @ [i], se_value = Some (''value'' @ [i]), se_version = 0\<rparr>) ''0123456789''"
  by (simp add: InitStorage_def MapStorage_GetUnderlying_def MapStorage_Insert_def new_MapStorage_def value_entry_def)

lemma InitStorage_distinct: "distinct (map se_key InitStorage)"
  by (simp add: InitStorage_eq)

lemma InitStorage_key4: "entries_view InitStorage ''key4'' = Some \<lparr>val_value = Some ''value4'', val_version = 0\<rparr>"
  by (simp add: InitStorage_eq entry_value_def)

lemma entry_bytes: "length (d_ser (c_entry sample_codecs) (to_protobuf_entry
    \<lparr>se_key = k, se_value = Some v, se_version = n\<rparr>)) = 73 + (2 * length k + 2 * length v)"
  by (simp add: sample_codec_defs)

lemma InitStorage_bytes: "length (table_bytes sample_codecs (sort InitStorage)) < 2 ^ 64"
proof -
  have "length (table_bytes sample_codecs (map (\<lambda>i. \<lparr>se_key = ''key'' @ [i], se_value = Some (''value'' @ [i]),
      se_version = 0\<rparr>) is)) = 93 * length is" for "is"
    by (induction "is") (simp_all add: table_bytes_def entry_bytes)
  then show ?thesis by (simp add: InitStorage_eq del: list.map)
qed

text \<open>The three tests write a table and read a key of it, from the table and from the file loaded again.\<close>

lemma saved_table:
  assumes "distinct (map se_key data)" "length (table_bytes sample_codecs (sort data)) < 2 ^ 64"
    "entries_view data k = Some v"
  shows "\<exists>st fs. NewPersistentStorage sample_codecs data sample_fs = (Inr st, fs) \<and>
    PersistentStorage_Get sample_codecs fs st k = Ret (Inr (value_entry k v)) \<and>
    LoadPersistentStorage sample_codecs (PersistentStorage_Path st) fs = (Inr st, tick (tick fs)) \<and>
    PersistentStorage_Get sample_codecs (tick (tick fs)) st k = Ret (Inr (value_entry k v))"
proof -
  from NewPersistentStorage_table [OF sample_codecs_ok sample_fs_ok assms(1,2)] obtain st fs where n:
    "NewPersistentStorage sample_codecs data sample_fs = (Inr st, fs)" "fs_ok fs" "ps_stored sample_codecs fs st"
    "ps_ok sample_codecs fs st" "ps_entries sample_codecs fs st = sort data" by blast
  have "entries_view (sort data) k = Some v"
    using entries_view_perm [of data "sort data"] assms(1,3) by simp
  then have f: "List.find (\<lambda>e. se_key e = k) (ps_entries sample_codecs fs st) = Some (value_entry k v)"
    by (simp add: n(5) find_entries_view)
  have "PersistentStorage_Get sample_codecs fs st k = Ret (Inr (value_entry k v))"
    by (rule PersistentStorage_Get_hit [OF n(4) f])
  moreover have "PersistentStorage_Get sample_codecs (tick (tick fs)) st k = Ret (Inr (value_entry k v))"
    by (rule PersistentStorage_Get_hit) (use n(4) f in \<open>simp_all add: tick_clock\<close>)
  ultimately show ?thesis using n(1) LoadPersistentStorage_stored [OF n(2,3)] by (simp add: PersistentStorage_Path_def)
qed

lemma PersistentStorageTest_Get:
  "\<exists>persistent fs. NewPersistentStorage sample_codecs InitStorage sample_fs = (Inr persistent, fs) \<and>
    PersistentStorage_Get sample_codecs fs persistent ''key4'' =
      Ret (Inr \<lparr>se_key = ''key4'', se_value = Some ''value4'', se_version = 0\<rparr>)"
  using saved_table [OF InitStorage_distinct InitStorage_bytes InitStorage_key4] by (auto simp: value_entry_def)

lemma PersistentStorageTest_Erased:
  "\<exists>persistent fs. NewPersistentStorage sample_codecs (ToEntries (MapStorage_GetUnderlying
      (MapStorage_Remove ''key'' 0 (MapStorage_Insert (test_pair ''key'' ''value'') new_MapStorage)))) sample_fs = (Inr persistent, fs) \<and>
    PersistentStorage_Get sample_codecs fs persistent ''key'' = Ret (Inr \<lparr>se_key = ''key'', se_value = None, se_version = 0\<rparr>)"
proof -
  let ?e = "\<lparr>se_key = ''key'', se_value = None, se_version = 0\<rparr>"
  have "length (table_bytes sample_codecs (sort [?e])) < 2 ^ 64" by (simp add: table_bytes_def sample_codec_defs)
  from saved_table [OF _ this, of "''key''" "\<lparr>val_value = None, val_version = 0\<rparr>"] show ?thesis
    by (auto simp: MapStorage_GetUnderlying_def MapStorage_Remove_def MapStorage_Insert_def new_MapStorage_def
        value_entry_def entry_value_def)
qed

lemma PersistentStorageTest_SaveAndLoad:
  "\<exists>saved persistent fs fs'. NewPersistentStorage sample_codecs InitStorage sample_fs = (Inr saved, fs) \<and>
    LoadPersistentStorage sample_codecs (PersistentStorage_Path saved) fs = (Inr persistent, fs') \<and>
    PersistentStorage_Get sample_codecs fs' persistent ''key4'' =
      Ret (Inr \<lparr>se_key = ''key4'', se_value = Some ''value4'', se_version = 0\<rparr>)"
  using saved_table [OF InitStorage_distinct InitStorage_bytes InitStorage_key4] by (auto simp: value_entry_def)

section \<open>Collection of tables\<close>

text \<open>\<open>Read\<close> looks the key up in the collection that the table was added to, \<open>ReadExisting\<close> in one that is
  loaded from the disk.\<close>

lemma collection_hit:
  assumes "coll_inv cs fs (collection c)" "tables_view cs fs (collection c) k = Some v"
  shows "Collection_Get cs fs c k = Ret (Inr (value_entry k v))"
proof -
  have "\<forall>st \<in> set (collection c). ps_ok cs fs st" using assms(1) coll_inv_mem(3) by blast
  from Collection_Get_find [OF this, of k] assms(2) show ?thesis
    by (simp add: find_entries_view tables_view_def)
qed

lemma CollectionTest_Read_ReadExisting:
  "\<exists>storage c fs1 fs2 c' fs3. NewPersistentStorage sample_codecs InitStorage sample_fs = (Inr storage, fs1) \<and>
    Collection_Add sample_codecs storage \<lparr>collection = []\<rparr> fs1 = (Inr (), c, fs2) \<and>
    Collection_Get sample_codecs fs2 c ''key4'' = Ret (Inr \<lparr>se_key = ''key4'', se_value = Some ''value4'', se_version = 0\<rparr>) \<and>
    new_PersistentStorageCollection sample_codecs fs2 = (c', fs3) \<and>
    Collection_Get sample_codecs fs3 c' ''key4'' = Ret (Inr \<lparr>se_key = ''key4'', se_value = Some ''value4'', se_version = 0\<rparr>)"
proof -
  let ?c = "\<lparr>collection = []\<rparr>" and ?v = "\<lparr>val_value = Some ''value4'', val_version = 0\<rparr>"
  have i: "coll_inv sample_codecs sample_fs (collection ?c)" by simp
  from persist_table [OF sample_codecs_ok sample_fs_ok i InitStorage_distinct InitStorage_bytes] obtain st fs1 fs2 where
    n: "NewPersistentStorage sample_codecs InitStorage sample_fs = (Inr st, fs1)"
      "Collection_Add sample_codecs st ?c fs1 = (Inr (), \<lparr>collection = [st]\<rparr>, fs2)"
      "persisted sample_codecs sample_fs [] InitStorage st fs2" by auto
  then have p: "fs_ok fs2" "coll_inv sample_codecs fs2 [st]" "tables_view sample_codecs fs2 [st] ''key4'' = Some ?v"
    using InitStorage_key4 by (simp_all add: persisted_def map_add_def)
  from new_PersistentStorageCollection_restart [OF p(1,2)] obtain m where
    r: "new_PersistentStorageCollection sample_codecs fs2 = (\<lparr>collection = [st]\<rparr>, fs2\<lparr>fs_clock := m\<rparr>)" by blast
  have "tables_view sample_codecs (fs2\<lparr>fs_clock := m\<rparr>) [st] ''key4'' = Some ?v"
    using tables_view_agree [OF p(2) agree_on_clock] p(3) by simp
  with n(1,2) r p(2,3) collection_hit [of sample_codecs fs2 "\<lparr>collection = [st]\<rparr>"]
    collection_hit [of sample_codecs "fs2\<lparr>fs_clock := m\<rparr>" "\<lparr>collection = [st]\<rparr>"] show ?thesis
    by (auto simp: value_entry_def)
qed

section \<open>Write-ahead log\<close>

text \<open>The writer of the tests is new, on an empty data directory.\<close>

definition test_writer :: "SwappableWalWriterImpl \<times> fs" where
  "test_writer = (ss_wal sample_sys, ss_fs sample_sys)"

lemma test_writer_facts: "wal_inv sample_codecs test_writer" "wal_logged sample_codecs test_writer = []"
  "NewSwappableWalWriter sample_fs = (Inr (fst test_writer), snd test_writer)"
proof -
  show "wal_inv sample_codecs test_writer" "wal_logged sample_codecs test_writer = []"
    using sample_sys_inv sample_sys_log by (simp_all add: sys_inv_def sys_log_def test_writer_def)
  show "NewSwappableWalWriter sample_fs = (Inr (fst test_writer), snd test_writer)"
    by (simp add: test_writer_def sample_sys_def sample_start_eq flip: sample_start_def)
qed

definition logged_op :: "KwPair + string \<times> u64 \<Rightarrow> Operation" where
  "logged_op x = (case x of Inl p \<Rightarrow> insert_op p | Inr (k, v) \<Rightarrow> remove_op k v)"

lemma write_and_read:
  assumes "wal_inv cs s" "wal_logged cs s = before"
  shows "\<exists>s' n. sww.write_ops cs ops s = (Inr (), s') \<and> wal_inv cs s' \<and>
    fst (ReadWAL cs (Wal_GetPath (fst s')) (snd s')) = Ret (Inr (before @ map logged_op ops, n))"
proof -
  from sww.write_ops_logged [OF assms(1), of ops] assms(2) obtain s' where s': "sww.write_ops cs ops s = (Inr (), s')"
    "wal_inv cs s'" "wal_logged cs s' = before @ map logged_op ops" by (auto simp: logged_op_def [abs_def])
  then obtain es where es: "codecs_ok cs" "fs_ok (snd s')" "wal_state cs (snd s') (sww_writer (fst s')) es []"
    by (auto simp: wal_inv_def)
  have p: "Wal_GetPath (fst s') = wal_path (sww_writer (fst s'))"
    by (simp add: Wal_GetPath_def WALWriterImpl_GetPath_def)
  have "fst (ReadWAL cs (Wal_GetPath (fst s')) (snd s')) =
      Ret (Inr (concat (map operations_of es), length (ser_all (c_wal cs) es)))"
    using ReadWAL_entries [OF es(1,2) wal_state_read [OF es(3)]] delimited_parse_Nil [OF codecs_okD(1) [OF es(1)]]
    by (simp add: p)
  moreover have "concat (map operations_of es) = wal_logged cs s'"
    using wal_state_ops [OF es] by (simp add: wal_logged_def p)
  ultimately show ?thesis using s' by auto
qed

lemma WALTest_WriteAndReadLogs:
  "\<exists>s n. sww.write_ops sample_codecs [Inr (''blabla'', 0), Inl (test_pair ''a'' ''b'')] test_writer = (Inr (), s) \<and>
    fst (ReadWAL sample_codecs (Wal_GetPath (fst s)) (snd s)) = Ret (Inr (
      [\<lparr>op_type = kRemove, op_key = ''blabla'', op_value = None, op_version = 0\<rparr>,
       \<lparr>op_type = kInsert, op_key = ''a'', op_value = Some ''b'', op_version = 0\<rparr>], n))"
  using write_and_read [OF test_writer_facts(1,2), of "[Inr (''blabla'', 0), Inl (test_pair ''a'' ''b'')]"]
  by (auto simp: logged_op_def insert_op_def remove_op_def)

text \<open>Twenty coroutines write a removal and an insert each. The strand of the writer puts the operations in
  some order; whatever it is, the log has twenty of each.\<close>

lemma WALTest_Concurrent:
  assumes "mset ops = replicate_mset 20 (Inr (''blabla'', 0)) + replicate_mset 20 (Inl (test_pair ''a'' ''b''))"
  shows "\<exists>s got n. sww.write_ops sample_codecs ops test_writer = (Inr (), s) \<and>
    fst (ReadWAL sample_codecs (Wal_GetPath (fst s)) (snd s)) = Ret (Inr (got, n)) \<and>
    length (filter (\<lambda>el. op_type el = kInsert) got) = 20 \<and> length (filter (\<lambda>el. op_type el = kRemove) got) = 20"
proof -
  have "length (filter (\<lambda>el. op_type el = t) (map logged_op ops)) = 20" for t
  proof -
    have "length (filter (\<lambda>el. op_type el = t) (map logged_op ops)) =
        size (filter_mset (\<lambda>el. op_type el = t) (image_mset logged_op (mset ops)))"
      by (simp flip: mset_filter mset_map)
    moreover have "filter_mset P (replicate_mset n x) = (if P x then replicate_mset n x else {#})"
      for P :: "Operation \<Rightarrow> bool" and n x by (induction n) simp_all
    ultimately show ?thesis by (cases t) (simp_all add: assms logged_op_def insert_op_def remove_op_def)
  qed
  then show ?thesis using write_and_read [OF test_writer_facts(1,2), of ops] by fastforce
qed

section \<open>Recovery\<close>

lemma write_ops_frame:
  "wal_inv cs s \<Longrightarrow> \<exists>s'. sww.write_ops cs ops s = (Inr (), s') \<and> wal_inv cs s' \<and>
    wal_logged cs s' = wal_logged cs s @ map logged_op ops \<and>
    agree_on (- {Wal_GetPath (fst s)}) (snd s) (snd s') \<and> Wal_GetPath (fst s') = Wal_GetPath (fst s) \<and>
    fs_dir (snd s') = fs_dir (snd s)"
proof (induction ops arbitrary: s)
  case (Cons x ops)
  let ?post = "\<lambda>s1. wal_inv cs s1 \<and> wal_logged cs s1 = wal_logged cs s @ [logged_op x] \<and>
    agree_on (- {Wal_GetPath (fst s)}) (snd s) (snd s1) \<and> Wal_GetPath (fst s1) = Wal_GetPath (fst s) \<and>
    fs_dir (snd s1) = fs_dir (snd s)"
  have "\<exists>s1. (case x of Inl p \<Rightarrow> Wal_Insert cs p s | Inr (k, v) \<Rightarrow> Wal_Remove cs k v s) = (Inr (), s1) \<and> ?post s1"
    using Wal_WriteEntry_logged [OF Cons.prems]
    by (fastforce simp: Wal_Insert_def Wal_Remove_def operations_of_def logged_op_def insert_op_def remove_op_def
        split: sum.split)
  then obtain s1 where s1: "(case x of Inl p \<Rightarrow> Wal_Insert cs p s | Inr (k, v) \<Rightarrow> Wal_Remove cs k v s) = (Inr (), s1)"
    "?post s1" by blast
  from s1(1) have "sww.write_ops cs (x # ops) s = sww.write_ops cs ops s1" by (auto split: sum.splits)
  with Cons.IH [of s1] s1(2) show ?case by (auto intro: agree_on_trans)
qed simp

text \<open>The file system of the tests: a log is written, the writer is swapped, another log is written.\<close>

definition two_logs :: "fs \<Rightarrow> Operation list \<Rightarrow> Operation list \<Rightarrow> bool" where
  "two_logs fs a b \<longleftrightarrow> fs_ok fs \<and> order_ok fs \<and> coll_inv sample_codecs fs [] \<and>
     (\<exists>old new. old \<noteq> new \<and> (wal_files fs = [old, new] \<or> wal_files fs = [new, old]) \<and>
        is_log sample_codecs fs old \<and> is_log sample_codecs fs new \<and>
        wal_ops sample_codecs fs old = a \<and> wal_ops sample_codecs fs new = b)"

lemma two_element_list:
  assumes "distinct xs" "set xs = {a, b}" "a \<noteq> b"
  shows "xs = [a, b] \<or> xs = [b, a]"
proof -
  have "length xs = 2" using distinct_card [OF assms(1)] assms(2,3) by simp
  then obtain x y where "xs = [x, y]" by (auto simp: numeral_2_eq_2 length_Suc_conv)
  with assms(2,3) show ?thesis by (auto simp: doubleton_eq_iff)
qed

text \<open>A writer without tables as a storage system.\<close>

definition as_system :: "SwappableWalWriterImpl \<times> fs \<Rightarrow> system" where
  "as_system s = \<lparr>ss_wal = fst s, ss_mem = new_Swappable, ss_tables = \<lparr>collection = []\<rparr>, ss_fs = snd s\<rparr>"

lemma test_writer_as_system: "sys_inv sample_codecs (as_system test_writer)"
  using sample_sys_inv by (simp add: as_system_def test_writer_def sample_sys_def)

lemma write_ops_as_system:
  assumes "sys_inv cs (as_system s)"
  shows "\<exists>s'. sww.write_ops cs ops s = (Inr (), s') \<and> sys_inv cs (as_system s') \<and>
    wal_logged cs s' = wal_logged cs s @ map logged_op ops \<and>
    agree_on (- {Wal_GetPath (fst s)}) (snd s) (snd s') \<and> Wal_GetPath (fst s') = Wal_GetPath (fst s) \<and>
    fs_dir (snd s') = fs_dir (snd s)"
proof -
  note i = assms [unfolded sys_inv_def as_system_def, simplified]
  from i have w: "wal_inv cs s" "fs_ok (snd s)" by (auto simp: wal_inv_def)
  from write_ops_frame [OF w(1), of ops] obtain s' where s': "sww.write_ops cs ops s = (Inr (), s')" "wal_inv cs s'"
    "wal_logged cs s' = wal_logged cs s @ map logged_op ops" "agree_on (- {Wal_GetPath (fst s)}) (snd s) (snd s')"
    "Wal_GetPath (fst s') = Wal_GetPath (fst s)" "fs_dir (snd s') = fs_dir (snd s)" by blast
  have "insert (meta_path (snd s)) (table_files (snd s)) \<subseteq> - {Wal_GetPath (fst s)}"
    using wal_not_table [OF w(2)] wal_not_meta [OF w(2)] i by auto
  then have "coll_inv cs (snd s') []" using i coll_inv_agree agree_on_mono [OF s'(4)] by blast
  then have "sys_inv cs (as_system s')"
    using i s' same_env_dir [OF agree_on_env [OF s'(4)]] by (simp add: sys_inv_def as_system_def)
  with s' show ?thesis by blast
qed

lemma as_system_is_log:
  assumes "sys_inv sample_codecs (as_system s)" "read_file fs (Wal_GetPath (fst s)) = read_file (snd s) (Wal_GetPath (fst s))"
    "fs_ok fs" "GetDataDir fs = GetDataDir (snd s)"
  shows "is_log sample_codecs fs (Wal_GetPath (fst s))" "wal_ops sample_codecs fs (Wal_GetPath (fst s)) = wal_logged sample_codecs s"
    "Wal_GetPath (fst s) \<in> dom (map_of (fs_dir (snd s)))"
proof -
  note i = assms(1) [unfolded sys_inv_def as_system_def, simplified]
  from i obtain es where es: "fs_ok (snd s)" "wal_state sample_codecs (snd s) (sww_writer (fst s)) es []"
    by (auto simp: wal_inv_def)
  have p: "Wal_GetPath (fst s) = wal_path (sww_writer (fst s))"
    by (simp add: Wal_GetPath_def WALWriterImpl_GetPath_def)
  have r: "read_file (snd s) (Wal_GetPath (fst s)) = Some (ser_all (c_wal sample_codecs) es)"
    using wal_state_read [OF es(2)] p by simp
  show "is_log sample_codecs fs (Wal_GetPath (fst s))" using sample_is_log [of fs] r assms(2,4) i by simp
  show "wal_ops sample_codecs fs (Wal_GetPath (fst s)) = wal_logged sample_codecs s"
    using wal_ops_entries [OF sample_codecs_ok assms(3)] wal_ops_entries [OF sample_codecs_ok es(1) r] r assms(2)
    by (simp add: wal_logged_def)
  show "Wal_GetPath (fst s) \<in> dom (map_of (fs_dir (snd s)))" using es(2) p by (auto simp: wal_state_def)
qed

lemma logs_written:
  "\<exists>s1 old s2 s3. sww.write_ops sample_codecs before test_writer = (Inr (), s1) \<and> Wal_Swap s1 = (Inr old, s2) \<and>
    sww.write_ops sample_codecs after s2 = (Inr (), s3) \<and> two_logs (snd s3) (map logged_op before) (map logged_op after)"
proof -
  let ?cs = sample_codecs and ?old = "Wal_GetPath (fst test_writer)"
  from write_ops_as_system [OF test_writer_as_system, of before] obtain s1 where
    s1: "sww.write_ops ?cs before test_writer = (Inr (), s1)" "sys_inv ?cs (as_system s1)" "wal_logged ?cs s1 = map logged_op before"
      "agree_on (- {?old}) (snd test_writer) (snd s1)" "Wal_GetPath (fst s1) = ?old"
      "fs_dir (snd s1) = fs_dir (snd test_writer)" using test_writer_facts(2) by auto
  from Wal_Swap_sys [OF s1(2)] obtain w fs2 where
    s2: "Wal_Swap s1 = (Inr ?old, w, fs2)" "sys_inv ?cs (as_system (w, fs2))" "wal_logged ?cs (w, fs2) = []"
      "Wal_GetPath w \<noteq> ?old" "agree_on (- {Wal_GetPath w}) (snd s1) fs2" by (auto simp: as_system_def sys_log_def s1(5))
  from write_ops_as_system [OF s2(2), of after] obtain s3 where
    s3: "sww.write_ops ?cs after (w, fs2) = (Inr (), s3)" "sys_inv ?cs (as_system s3)" "wal_logged ?cs s3 = map logged_op after"
      "agree_on (- {Wal_GetPath w}) fs2 (snd s3)" "Wal_GetPath (fst s3) = Wal_GetPath w" using s2(3) by auto
  note ag = agree_on_trans [OF s2(5) s3(4)]
  note e = same_env_trans [OF agree_on_env [OF s1(4)] agree_on_env [OF ag]]
  have ok: "fs_ok (snd s3)" "coll_inv ?cs (snd s3) []" using s3(2) by (auto simp: sys_inv_def as_system_def wal_inv_def)
  have o: "order_ok (snd s3)" using sample_sys_views(3) e by (simp add: test_writer_def order_ok_def same_env_def)
  have r: "read_file (snd s3) ?old = read_file (snd s1) ?old" using agree_on_read [OF ag] s2(4) by auto
  note l1 = as_system_is_log [OF s1(2), unfolded s1(5), OF r ok(1) same_env_dir [OF agree_on_env [OF ag]]]
  note l2 = as_system_is_log [OF s3(2) refl ok(1) refl, unfolded s3(5)]
  have t: "fs_ok (snd test_writer)" "order_ok (snd test_writer)"
    using test_writer_facts(1) sample_sys_views(3) by (auto simp: wal_inv_def test_writer_def)
  have one: "set (wal_files (snd test_writer)) = {?old}" using sample_wal_files by (simp add: test_writer_def)
  have "p \<in> set (wal_files (snd s3)) \<longleftrightarrow> p \<in> {?old, Wal_GetPath w}" for p
  proof (cases "p = Wal_GetPath w")
    case True
    then show ?thesis using l2(1,3) by (simp add: wal_files_set(1) [OF ok(1) o] is_log_def)
  next
    case False
    then have "map_of (fs_dir (snd s3)) p = map_of (fs_dir (snd test_writer)) p"
      using agree_on_dir [OF ag, of p] by (simp add: s1(6))
    then have "p \<in> set (wal_files (snd s3)) \<longleftrightarrow> p \<in> set (wal_files (snd test_writer))"
      by (simp add: wal_files_set(1) [OF ok(1) o] wal_files_set(1) [OF t] same_env_dir [OF e] domIff)
    then show ?thesis using False one by simp
  qed
  then have "set (wal_files (snd s3)) = {?old, Wal_GetPath w}" by blast
  from two_element_list [OF wal_files_set(2) [OF ok(1) o] this] s2(4) have
    "wal_files (snd s3) = [?old, Wal_GetPath w] \<or> wal_files (snd s3) = [Wal_GetPath w, ?old]" by auto
  then have "two_logs (snd s3) (map logged_op before) (map logged_op after)"
    using ok o l1(1,2) l2(1,2) s2(4) s1(3) s3(3) unfolding two_logs_def by metis
  with s1(1) s2(1) s3(1) show ?thesis by blast
qed

lemma RecoveryTest_SearchForWALFiles:
  "\<exists>s1 old s2 files. sww.write_ops sample_codecs [Inr (''blabla'', 0), Inl (test_pair ''a'' ''b'')] test_writer = (Inr (), s1) \<and>
    Wal_Swap s1 = (Inr old, s2) \<and> fst (SearchWALFiles (snd s2)) = Inr files \<and> length files = 2"
  using logs_written [of "[Inr (''blabla'', 0), Inl (test_pair ''a'' ''b'')]" "[]"] by (auto simp: two_logs_def SearchWALFiles_ok)

text \<open>The log with two keys is above the threshold and becomes a table, the other one fills the memory, in
  whatever order the directory lists them.\<close>

lemma two_logs_recovered:
  assumes "two_logs fs a b" "is_big n a" "\<not> is_big n b" "log_ok sample_codecs a" "log_ok sample_codecs b"
  shows "\<exists>so fs'. InitializeStorages sample_codecs n fs = (Ret (Inr so), fs') \<and>
    coll_inv sample_codecs fs' (collection (so_coll so)) \<and>
    tables_view sample_codecs fs' (collection (so_coll so)) = replay a Map.empty \<and> so_mem so = new_Swappable_from (replayed b)"
proof -
  from assms(1) obtain old new where l: "fs_ok fs" "order_ok fs" "coll_inv sample_codecs fs []"
    "wal_files fs = [old, new] \<or> wal_files fs = [new, old]" "is_log sample_codecs fs old" "is_log sample_codecs fs new"
    "wal_ops sample_codecs fs old = a" "wal_ops sample_codecs fs new = b" by (auto simp: two_logs_def)
  then have "\<forall>f \<in> set (wal_files fs). is_log sample_codecs fs f \<and> log_ok sample_codecs (wal_ops sample_codecs fs f)"
    using assms(4,5) by auto
  from InitializeStorages_recovered [OF sample_codecs_ok l(1-3) this, of n] obtain so fs' where
    "InitializeStorages sample_codecs n fs = (Ret (Inr so), fs')" "recovered sample_codecs n fs [] so fs'" by blast
  then show ?thesis using l(4,7,8) assms(2,3) by (auto simp: recovered_def Let_def tables_view_def)
qed

lemmas replay_defs = replayed_def Apply_MapStorage_def apply_operation_def insert_op_def MapStorage_Insert_def
  new_MapStorage_def

lemma RecoveryTest_MemstorageInitialization:
  "\<exists>s1 old s2 s3 so fs. sww.write_ops sample_codecs [Inl (test_pair ''a'' ''b''), Inl (test_pair ''c'' ''e'')] test_writer = (Inr (), s1) \<and>
    Wal_Swap s1 = (Inr old, s2) \<and> sww.write_ops sample_codecs [Inl (test_pair ''c'' ''d'')] s2 = (Inr (), s3) \<and>
    InitializeStorages sample_codecs 1 (snd s3) = (Ret (Inr so), fs) \<and>
    Collection_Get sample_codecs fs (so_coll so) ''a'' = Ret (Inr \<lparr>se_key = ''a'', se_value = Some ''b'', se_version = 0\<rparr>) \<and>
    exec_bind (Swappable_Get ''c'' (so_mem so)) (\<lambda>(r, s). Ret (map_sum id val_value r)) = Ret (Inr (Some ''d''))"
proof -
  let ?a = "map logged_op [Inl (test_pair ''a'' ''b''), Inl (test_pair ''c'' ''e'')]" and ?b = "map logged_op [Inl (test_pair ''c'' ''d'')]"
  obtain s1 old s2 s3 where w:
    "sww.write_ops sample_codecs [Inl (test_pair ''a'' ''b''), Inl (test_pair ''c'' ''e'')] test_writer = (Inr (), s1)"
    "Wal_Swap s1 = (Inr old, s2)" "sww.write_ops sample_codecs [Inl (test_pair ''c'' ''d'')] s2 = (Inr (), s3)"
    "two_logs (snd s3) ?a ?b" using logs_written by blast
  have m: "ms_map (replayed ?a) = [(''a'', \<lparr>val_value = Some ''b'', val_version = 0\<rparr>), (''c'', \<lparr>val_value = Some ''e'', val_version = 0\<rparr>)]"
    "ms_map (replayed ?b) = [(''c'', \<lparr>val_value = Some ''d'', val_version = 0\<rparr>)]"
    by (simp_all add: replay_defs logged_op_def)
  have "is_big 1 ?a" "\<not> is_big 1 ?b" unfolding is_big_def MapStorage_Size_def m by simp_all
  moreover have "log_ok sample_codecs ?a" "log_ok sample_codecs ?b"
    unfolding log_ok_def log_fits_def m by (simp_all add: table_bytes_def value_entry_def entry_bytes)
  ultimately obtain so fs where so: "InitializeStorages sample_codecs 1 (snd s3) = (Ret (Inr so), fs)"
    "coll_inv sample_codecs fs (collection (so_coll so))"
    "tables_view sample_codecs fs (collection (so_coll so)) = replay ?a Map.empty" "so_mem so = new_Swappable_from (replayed ?b)"
    using two_logs_recovered [OF w(4)] by blast
  have "ms_inv (replayed ?b)" unfolding ms_inv_def m(2) by simp
  note c = rep_Get [OF rep_new_from [OF this], of "''c''"]
  have "tables_view sample_codecs fs (collection (so_coll so)) ''a'' = Some \<lparr>val_value = Some ''b'', val_version = 0\<rparr>"
    unfolding so(3) by (simp add: logged_op_def insert_op_def op_effect_def)
  from collection_hit [OF so(2) this] have
    "Collection_Get sample_codecs fs (so_coll so) ''a'' = Ret (Inr \<lparr>se_key = ''a'', se_value = Some ''b'', se_version = 0\<rparr>)"
    by (simp add: value_entry_def)
  moreover have "exec_bind (Swappable_Get ''c'' (so_mem so)) (\<lambda>(r, s). Ret (map_sum id val_value r)) = Ret (Inr (Some ''d''))"
    unfolding so(4) c ms_view_def m(2) by (simp add: new_MapStorage_def)
  ultimately show ?thesis using w(1-3) so(1) by blast
qed

end
