(* ===== verification/Server.thy ===== *)
theory Server
  imports Views Filelog Storage_Runs
begin

text \<open>
  The program's entry point: \<open>main\<close> and \<open>RunServer\<close> of \<open>main.cpp\<close>, and the registration of the request
  handlers (\<open>register_handlers.cpp\<close>, \<open>rethrow.hpp\<close>). The gRPC server and its reflection and health
  services are not modelled; what the code makes of them is the address it listens on, the threads that
  serve it, the order in which the components are built and the request that each handler is
  registered for.
\<close>

section \<open>Flags\<close>

record flags =
  f_port :: u16
  f_logfile :: path
  f_datadir :: path
  f_debug_level :: u16
  f_zookeeper_hosts :: "string list"
  f_host :: string

definition default_flags :: flags where
  "default_flags = \<lparr>f_port = 50051, f_logfile = [], f_datadir = ''/tmp/iu9-distributed-db'',
     f_debug_level = 0, f_zookeeper_hosts = [''localhost:2181''], f_host = ''localhost''\<rparr>"

section \<open>Handlers\<close>

datatype rpc_call = InsertCall KeyValueRequest | RemoveCall KeyRequest | GetCall GetRequest

datatype rpc_result = EmptyEnd "EmptyReply rpc_end" | GetEnd "GetReply rpc_end"

text \<open>An exception of a handler is thrown again, out of the loop that serves requests.\<close>

fun RethrowFirstArg :: "'a exec \<Rightarrow> 'a exec" where
  "RethrowFirstArg Throw = Throw"
| "RethrowFirstArg r = r"

fun RegisterHandlers :: "codecs \<Rightarrow> rpc_call \<Rightarrow> controller \<Rightarrow> rpc_result exec \<times> controller" where
  "RegisterHandlers cs (InsertCall request) c =
     (let (r, c1) = HandlersProxy_InsertHandler cs request c in
      (RethrowFirstArg (exec_bind r (\<lambda>e. Ret (EmptyEnd e))), c1))"
| "RegisterHandlers cs (RemoveCall request) c =
     (let (r, c1) = HandlersProxy_RemoveHandler cs request c in
      (RethrowFirstArg (exec_bind r (\<lambda>e. Ret (EmptyEnd e))), c1))"
| "RegisterHandlers cs (GetCall request) c =
     (let (r, c1) = HandlersProxy_GetHandler cs request c in
      (RethrowFirstArg (exec_bind r (\<lambda>e. Ret (GetEnd e))), c1))"

section \<open>Address and threads\<close>

fun decimal :: "nat \<Rightarrow> string" where
  "decimal n = (if n < 10 then [''0123456789'' ! n] else decimal (n div 10) @ [''0123456789'' ! (n mod 10)])"

declare decimal.simps [simp del]

definition server_address :: "u16 \<Rightarrow> string" where
  "server_address port = ''0.0.0.0:'' @ decimal (unat port)"

text \<open>
  The loop that creates the threads: an \<open>int\<close> that counts up to an \<open>unsigned\<close> bound. The comparison is
  unsigned; counting past the greatest \<open>int\<close> is undefined.
\<close>

function worker_loop :: "u32 \<Rightarrow> nat \<Rightarrow> nat exec" where
  "worker_loop bound i =
     (if of_nat i < bound then if 2 ^ 31 - 1 \<le> i then Undef else worker_loop bound (Suc i) else Ret i)"
  by pat_completeness auto
termination by (relation "measure (\<lambda>(bound, i). 2 ^ 31 - 1 - i)") auto

declare worker_loop.simps [simp del]

definition worker_threads :: "u32 \<Rightarrow> nat exec" where
  "worker_threads thread_count = worker_loop (thread_count - 1) 0"

lemma below_bound: "i < 2 ^ 32 \<Longrightarrow> of_nat i < (bound :: u32) \<longleftrightarrow> i < unat bound"
  by (simp add: word_less_nat_alt unat_of_nat)

lemma worker_loop_ends:
  "i \<le> unat bound \<Longrightarrow> unat bound \<le> 2 ^ 31 - 1 \<Longrightarrow> worker_loop bound i = Ret (unat bound)"
proof (induction bound i rule: worker_loop.induct)
  case (1 bound i)
  then show ?case using below_bound [of i bound] by (subst worker_loop.simps) auto
qed

lemma worker_loop_overflows:
  "i \<le> 2 ^ 31 - 1 \<Longrightarrow> 2 ^ 31 - 1 < unat bound \<Longrightarrow> worker_loop bound i = Undef"
proof (induction bound i rule: worker_loop.induct)
  case (1 bound i)
  then show ?case using below_bound [of i bound] by (subst worker_loop.simps) auto
qed

lemma worker_threads_eq:
  "worker_threads tc = (if 0 < unat tc \<and> unat tc \<le> 2 ^ 31 then Ret (unat tc - 1) else Undef)"
proof (cases "tc = 0")
  case True
  have "unat (- 1 :: u32) = 2 ^ 32 - 1" by transfer (simp add: mask_eq_exp_minus_1)
  then show ?thesis using worker_loop_overflows [of 0 "- 1"] True by (simp add: worker_threads_def)
next
  case False
  then have "unat (tc - 1) = unat tc - 1" "0 < unat tc" by (simp_all add: unat_minus_one unat_gt_0)
  then show ?thesis
    using worker_loop_ends [of 0 "tc - 1"] worker_loop_overflows [of 0 "tc - 1"] by (auto simp: worker_threads_def)
qed

section \<open>Start\<close>

text \<open>
  A fatal log message ends the program; it is the left result. \<open>thread_count\<close> is what the hardware
  reports, \<open>replication\<close> the client side with the state of the Zookeeper client, \<open>ready\<close>, \<open>env\<close> and
  \<open>weak\<close> the parameters of the controller. The main thread serves beside the workers.
\<close>

record server =
  sv_address :: string
  sv_threads :: nat
  sv_handlers :: controller

definition RunServer :: "codecs \<Rightarrow> string \<Rightarrow> u16 \<Rightarrow> u32 \<Rightarrow> string list \<Rightarrow> Replication \<Rightarrow> (nat \<Rightarrow> bool) \<Rightarrow>
    (nat \<Rightarrow> zk \<Rightarrow> zk) \<Rightarrow> nat \<Rightarrow> fs \<Rightarrow> (string + server) exec \<times> fs" where
  "RunServer cs host port thread_count zookeeper_hosts replication ready env weak fs =
     (let server_address = server_address port in
      st_bind (worker_threads thread_count, fs) (\<lambda>workers fs.
        let (storages, fs1) = InitializeStorages cs kDefaultThreshold fs in
        (exec_bind storages (\<lambda>storages. Ret (case storages of
            Inl e \<Rightarrow> Inl (''failed to initialize storages: '' @ What e)
          | Inr so \<Rightarrow>
              (let handlers = new_Controller (restarted so fs1) (so_gen so) replication ready env weak;
                   (err, z) = InitZookeeper host zookeeper_hosts (rp_zk replication) in
               case err of
                 Inl e \<Rightarrow> Inl (''failed to connect to zookeeper: '' @ What e)
               | Inr _ \<Rightarrow> Inr \<lparr>sv_address = server_address, sv_threads = workers + 1,
                   sv_handlers = handlers\<lparr>ct_rep := (ct_rep handlers)\<lparr>rp_zk := z\<rparr>\<rparr>\<rparr>))), fs1)))"

text \<open>\<open>value()\<close> of a failed result throws, and \<open>main\<close> catches nothing.\<close>

definition server_main :: "codecs \<Rightarrow> flags \<Rightarrow> u32 \<Rightarrow> Replication \<Rightarrow> (nat \<Rightarrow> bool) \<Rightarrow> (nat \<Rightarrow> zk \<Rightarrow> zk) \<Rightarrow> nat \<Rightarrow> fs \<Rightarrow>
    (FileLogSink option \<times> (string + server)) exec \<times> fs" where
  "server_main cs fl thread_count replication ready env weak fs =
     (let (sink, fs1) = (if f_logfile fl = [] then (Ret None, fs)
        else case FileLogSink_New (f_logfile fl) fs of
          (Inl e, fs1) \<Rightarrow> (Throw, fs1)
        | (Inr s, fs1) \<Rightarrow> (Ret (Some s), fs1)) in
      st_bind (sink, fs1) (\<lambda>sink fs1.
      st_bind (RunServer cs (f_host fl) (f_port fl) thread_count (f_zookeeper_hosts fl) replication ready env weak
          (SetDataDir (f_datadir fl) fs1))
        (\<lambda>server fs2. (Ret (sink, server), fs2))))"

section \<open>A server starts on what another one has left\<close>

lemma RunServer_restart:
  assumes "settled_sys cs s" "log_ok cs (sys_log cs s)" "z_init z (z_inits z) \<noteq> None"
    "z = zk_start accept init" "worker_threads tc = Ret n"
  shows "\<exists>c fs'. RunServer cs host port tc hosts (new_Replication z oc) ready env weak (ss_fs s) =
      (Ret (Inr \<lparr>sv_address = server_address port, sv_threads = n + 1, sv_handlers = c\<rparr>), fs') \<and>
    settled_sys cs (ct_sys c) \<and> sys_view cs (ct_sys c) = sys_view cs s \<and> ct_jobs c = [] \<and>
    \<not> is_job_running (ct_guard c) \<and> ct_env c = env \<and> \<not> IsMaster (zk_of c) \<and> \<not> IsConnectionExpired (zk_of c) \<and>
    z_kNodes (zk_of c) = None \<and> set (z_pending (zk_of c)) \<subseteq> {ACreateNodes, ACreateMaster host}"
proof -
  from settled_progress(2) [OF assms(1,2), of kDefaultThreshold] obtain so fs' where
    i: "InitializeStorages cs kDefaultThreshold (ss_fs s) = (Ret (Inr so), fs')" "settled_sys cs (restarted so fs')"
      "sys_view cs (restarted so fs') = sys_view cs s" by blast
  obtain h where h: "init 0 = Some h" using assms(3,4) by (auto simp: zk_start_def)
  have "set (z_pending (TryBecomeMaster (BootstrapServiceDiscovery z'))) \<subseteq>
      insert ACreateNodes (insert (ACreateMaster (z_kDbHost z')) (set (z_pending z')))" for z'
    by (auto simp: request_defs issue_def)
  note this [of "z\<lparr>z_kDbHost := host, z_kHost := join_hosts hosts, z_kZh := Some h, z_inits := Suc 0\<rparr>"]
  then show ?thesis
    using i h by (auto simp: RunServer_def assms(5) InitZookeeper_def assms(4) zk_start_def new_Controller_def
        new_Replication_def new_JobGuard_def IsMaster_def IsConnectionExpired_def request_defs)
qed

text \<open>What a client is told about a key: its value with some version, or that there is none.\<close>

definition answer_of :: "string \<Rightarrow> Value option \<Rightarrow> rpc_result \<Rightarrow> bool" where
  "answer_of k v r \<longleftrightarrow> (case v of
       Some v \<Rightarrow> (case val_value v of
           Some x \<Rightarrow> (\<exists>n. r = GetEnd (Finish \<lparr>gp_value = Some x, gp_version = Some n\<rparr>))
         | None \<Rightarrow> r = GetEnd (FinishWithError NOT_FOUND (''get controller failed: key '' @ k @ '' not found'')))
     | None \<Rightarrow> r = GetEnd (FinishWithError NOT_FOUND (''get controller failed: key '' @ k @ '' not found'')))"

lemma read_end_answer:
  "answer_of k ((tab ++ mem) k) (GetEnd (read_end k (lookup_result k (mem k) (tab k))))"
  by (cases "mem k"; cases "tab k") (auto simp: answer_of_def read_end_def lookup_result_def map_add_def split: option.split)

lemma server_read_alone:
  assumes "sys_inv cs (ct_sys c)" "ct_jobs c = []" "calm c" "z_kNodes (zk_of c) = None"
    "\<not> get_bool (gr_is_master request)" "k = get_string (gr_key request)"
  shows "\<exists>r. fst (RegisterHandlers cs (GetCall request) c) = Ret r \<and> answer_of k (sys_view cs (ct_sys c) k) r"
proof -
  have "\<exists>e. fst (GetNewestFromReplicas \<lparr>grd_key = k\<rparr> (ct_rep c)) = Ret (Inl e)"
    using assms(4) by (simp add: GetNewestFromReplicas_def GetNodes_def)
  then obtain e where "fst (GetNewestFromReplicas \<lparr>grd_key = k\<rparr> (ct_rep c)) = Ret (Inl e)" ..
  from HandlersProxy_Get_alone [OF assms(3,1,2,6) this] assms(5)
  have "fst (HandlersProxy_GetHandler cs request c) = Ret (read_end k (local_answer cs (ct_sys c) k))"
    by (simp add: may_read_def)
  then have "fst (RegisterHandlers cs (GetCall request) c) = Ret (GetEnd (read_end k (local_answer cs (ct_sys c) k)))"
    by (simp add: case_prod_beta Let_def)
  moreover have "answer_of k (sys_view cs (ct_sys c) k) (GetEnd (read_end k (local_answer cs (ct_sys c) k)))"
    using read_end_answer [of k "sys_tables cs (ct_sys c)"] by (simp add: local_answer_def sys_view_split)
  ultimately show ?thesis by blast
qed

text \<open>A node that is not the master refuses the writes of clients.\<close>

lemma server_refuses_insert:
  assumes "calm c" "\<not> IsMaster (zk_of c)" "get_Source (kvr_source request) = SOURCE_CLIENT"
  shows "fst (RegisterHandlers cs (InsertCall request) c) =
    Ret (EmptyEnd (FinishWithError FAILED_PRECONDITION ''node is not master''))"
proof -
  note p = calm_polled [OF assms(1)] calm_polled [OF calm_polled(2) [OF assms(1)]]
    calm_polled [OF calm_polled(2) [OF calm_polled(2) [OF assms(1)]]]
  have "HandlersProxy_InsertHandler cs request c =
      (Ret (FinishWithError FAILED_PRECONDITION ''node is not master''), polled (polled (polled c)))"
    by (rule refused_insert(2) [OF assms(3)]) (use p assms(2) calm_connected [OF assms(1)] in simp_all)
  then show ?thesis by simp
qed

text \<open>Start-up with the flags: the data directory has to be the one that was used before.\<close>

lemma SetDataDir_same: "SetDataDir (fs_kdir fs) fs = fs"
  by (simp add: SetDataDir_def)

lemma server_main_restart:
  assumes "settled_sys cs s" "log_ok cs (sys_log cs s)" "init 0 \<noteq> None"
    "f_logfile fl = []" "f_datadir fl = fs_kdir (ss_fs s)" "\<forall>k z. env k z = z" "0 < unat tc" "unat tc \<le> 2 ^ 31"
  shows "\<exists>c fs'. server_main cs fl tc (new_Replication (zk_start accept init) oc) ready env weak (ss_fs s) =
      (Ret (None, Inr \<lparr>sv_address = server_address (f_port fl), sv_threads = unat tc, sv_handlers = c\<rparr>), fs') \<and> settled_sys cs (ct_sys c) \<and> sys_view cs (ct_sys c) = sys_view cs s \<and>
    (\<forall>request. \<not> get_bool (gr_is_master request) \<longrightarrow> (\<exists>r. fst (RegisterHandlers cs (GetCall request) c) = Ret r \<and>
      answer_of (get_string (gr_key request)) (sys_view cs s (get_string (gr_key request))) r)) \<and>
    (\<forall>request. get_Source (kvr_source request) = SOURCE_CLIENT \<longrightarrow> fst (RegisterHandlers cs (InsertCall request) c) =
      Ret (EmptyEnd (FinishWithError FAILED_PRECONDITION ''node is not master'')))"
proof -
  let ?z = "zk_start accept init"
  have "z_init ?z (z_inits ?z) \<noteq> None" using assms(3) by (simp add: zk_start_def)
  have w: "worker_threads tc = Ret (unat tc - 1)" using assms(7,8) by (simp add: worker_threads_eq)
  let ?sv = "\<lambda>c. \<lparr>sv_address = server_address (f_port fl), sv_threads = unat tc, sv_handlers = c\<rparr>"
  from RunServer_restart [OF assms(1,2) \<open>z_init ?z (z_inits ?z) \<noteq> None\<close> refl w, of "f_host fl" "f_port fl"
      "f_zookeeper_hosts fl" oc ready env weak] assms(7) obtain c fs' where
    r: "RunServer cs (f_host fl) (f_port fl) tc (f_zookeeper_hosts fl) (new_Replication ?z oc) ready env weak (ss_fs s) =
      (Ret (Inr (?sv c)), fs')"
      "settled_sys cs (ct_sys c)" "sys_view cs (ct_sys c) = sys_view cs s" "ct_jobs c = []" "ct_env c = env"
      "\<not> IsMaster (zk_of c)" "\<not> IsConnectionExpired (zk_of c)" "z_kNodes (zk_of c) = None" by auto
  have c: "calm c" using r(5,7) assms(6) by (simp add: calm_def)
  have i: "sys_inv cs (ct_sys c)" using r(2) by (simp add: settled_sys_def)
  have "server_main cs fl tc (new_Replication ?z oc) ready env weak (ss_fs s) = (Ret (None, Inr (?sv c)), fs')"
    using r(1) assms(4,5) by (simp add: server_main_def SetDataDir_same)
  then show ?thesis
    using server_read_alone [OF i r(4) c r(8) _ refl] server_refuses_insert [OF c r(6)] r(2,3) by auto
qed

text \<open>With an empty log on disk the program does not get past opening its storage.\<close>

lemma server_main_empty_log:
  assumes "settled_sys cs s" "sys_log cs s = []" "f_logfile fl = []" "f_datadir fl = fs_kdir (ss_fs s)"
    "0 < unat tc" "unat tc \<le> 2 ^ 31"
  shows "fst (server_main cs fl tc rp ready env weak (ss_fs s)) = Undef"
proof -
  have "worker_threads tc = Ret (unat tc - 1)" using assms(5,6) by (simp add: worker_threads_eq)
  moreover obtain fs1 where "InitializeStorages cs kDefaultThreshold (ss_fs s) = (Undef, fs1)"
    using settled_empty_log [OF assms(1,2), of kDefaultThreshold] by (metis surjective_pairing)
  ultimately have "fst (RunServer cs host port tc hosts rp ready env weak (ss_fs s)) = Undef" for host port hosts
    by (simp add: RunServer_def)
  then show ?thesis using assms(3,4) by (auto simp: server_main_def SetDataDir_same case_prod_beta Let_def st_bind_def)
qed

text \<open>What stops the program: a log file that cannot be opened ends it by an exception, a data
  directory that does not exist, or Zookeeper without a handle, by a fatal message.\<close>

lemma server_main_no_logfile:
  assumes "FileLogSink_New (f_logfile fl) fs = (Inl e, fs1)" "f_logfile fl \<noteq> []"
  shows "server_main cs fl tc rp ready env weak fs = (Throw, fs1)"
  using assms by (simp add: server_main_def)

section \<open>Reads go round\<close>

text \<open>The request that a node makes of another one to answer a read.\<close>

definition node_read :: "string \<Rightarrow> string \<Rightarrow> string \<times> string \<times> rpc_request" where
  "node_read k host = (host, ''/iu9db.Db/Get'',
     QGet \<lparr>gr_key = Some k, gr_source = Some SOURCE_NODE, gr_is_master = None\<rparr>)"

lemma newest_of_nodes_delivered:
  "\<exists>res rp' new. newest_of_nodes \<lparr>grd_key = k\<rparr> nodes result rp = (Ret res, rp') \<and>
     rp_sent rp' = rp_sent rp @ new \<and> delivered nodes (node_read k) new"
proof (induction nodes arbitrary: result rp)
  case (Cons node nodes)
  let ?rp = "rp\<lparr>rp_clients := (if node \<in> set (rp_clients rp) then rp_clients rp else rp_clients rp @ [node])\<rparr>"
  let ?q = "\<lparr>gr_key = Some k, gr_source = Some SOURCE_NODE, gr_is_master = None\<rparr>"
  obtain n w where m: "0 < n" "n \<le> 5" "snd (MakeRequestWithBackoff rGet (QGet ?q) node ?rp) = ?rp\<lparr>rp_sent := rp_sent ?rp @
      replicate n (node, RequestType_ToString rGet, QGet ?q), rp_waited := w\<rparr>"
    using backoff_sent [of rGet "QGet ?q" node ?rp] by blast
  obtain r rp1 where g: "ReplicaClient_Get node \<lparr>grd_key = k\<rparr> ?rp = (Ret r, rp1)"
    "rp_sent rp1 = rp_sent rp @ replicate n (node_read k node)"
    using m(3) by (auto simp: ReplicaClient_Get_def Let_def case_prod_beta node_read_def)
  from Cons.IH [of "better result r" rp1] obtain res rp' new where
    i: "newest_of_nodes \<lparr>grd_key = k\<rparr> nodes (better result r) rp1 = (Ret res, rp')"
      "rp_sent rp' = rp_sent rp1 @ new" "delivered nodes (node_read k) new" by blast
  have "newest_of_nodes \<lparr>grd_key = k\<rparr> (node # nodes) result rp = (Ret res, rp')"
    using g(1) i(1) by (simp add: do_request_eq better_def)
  moreover have "rp_sent rp' = rp_sent rp @ (replicate n (node_read k node) @ new)" using g(2) i(2) by simp
  moreover have "delivered (node # nodes) (node_read k) (replicate n (node_read k node) @ new)" using m(1,2) i(3) by auto
  ultimately show ?case by blast
qed simp

lemma sent_idle_poll: "ct_jobs c = [] \<Longrightarrow> poll cs c = (Ret (), polled c)"
  by (rule poll_idle) simp

lemma Controller_Get_sent:
  assumes "ct_jobs c = []" "GetNodes (zk_of c) = Inr nodes"
  shows "\<exists>new. sent (snd (Controller_Get cs \<lparr>grd_key = k\<rparr> c)) = sent c @ new \<and> delivered nodes (node_read k) new"
proof -
  let ?e = "Inl (MakeError kUnknown ''failed to retrieve value from replicas'')"
  from newest_of_nodes_delivered [of k nodes ?e "ct_rep c"] assms(2) obtain res rp' new where
    g: "GetNewestFromReplicas \<lparr>grd_key = k\<rparr> (ct_rep c) = (Ret res, rp')" "rp_sent rp' = sent c @ new"
      "delivered nodes (node_read k) new" by (auto simp: GetNewestFromReplicas_def)
  let ?c = "c\<lparr>ct_rep := rp'\<rparr>"
  have p: "poll cs ?c = (Ret (), polled ?c)" by (rule sent_idle_poll) (simp add: assms(1))
  have "sent (snd (Controller_Get cs \<lparr>grd_key = k\<rparr> c)) = rp_sent rp'"
    unfolding Controller_Get_def g(1)
    by (auto simp: p split: sum.split intro!: st_bind_snd [where P = "\<lambda>x. sent x = rp_sent rp'"])
  then show ?thesis using g(2,3) by simp
qed

lemma HandlersProxy_Get_sent:
  assumes "calm c" "ct_jobs c = []" "GetNodes (zk_of c) = Inr nodes" "get_Source (gr_source request) = SOURCE_NODE"
  shows "\<exists>new. sent (snd (HandlersProxy_GetHandler cs request c)) = sent c @ new \<and>
    delivered nodes (node_read (get_string (gr_key request))) new"
proof -
  let ?k = "get_string (gr_key request)"
  note p = calm_polled [OF assms(1)]
  from Controller_Get_sent [of "polled c" nodes cs ?k] p(1) assms(2,3) obtain new where
    n: "sent (snd (Controller_Get cs \<lparr>grd_key = ?k\<rparr> (polled c))) = sent c @ new" "delivered nodes (node_read ?k) new" by auto
  have "sent (snd (HandlersProxy_GetHandler cs request c)) = sent (snd (Controller_Get cs \<lparr>grd_key = ?k\<rparr> (polled c)))"
    unfolding HandlersProxy_GetHandler_def WithErrorHandlingMiddleware_def WithIsExpiredMiddleware_def
      WithIsMasterMiddleware_Get_def GetHandler_def
    using calm_connected [OF p(2)] assms(4)
    by (auto simp: read_flag_def Let_def
        intro!: st_bind_snd [where P = "\<lambda>x. sent x = sent (snd (Controller_Get cs \<lparr>grd_key = ?k\<rparr> (polled c)))"])
  with n show ?thesis by auto
qed

text \<open>Each request that the node makes is answered by a handler in the same way.\<close>

lemma reads_go_round:
  assumes "calm c" "ct_jobs c = []" "GetNodes (zk_of c) = Inr nodes" "get_Source (gr_source request) = SOURCE_NODE"
  shows "\<exists>new. sent (snd (HandlersProxy_GetHandler cs request c)) = sent c @ new \<and>
    delivered nodes (node_read (get_string (gr_key request))) new \<and>
    (\<forall>host. \<exists>q. node_read (get_string (gr_key request)) host = (host, ''/iu9db.Db/Get'', QGet q) \<and>
      get_Source (gr_source q) = SOURCE_NODE \<and> get_string (gr_key q) = get_string (gr_key request))"
  using HandlersProxy_Get_sent [OF assms] by (auto simp: node_read_def get_Source_def)

end
