(* ===== verification/Read_Timeouts.thy ===== *)
theory Read_Timeouts
  imports Complex_Main Server
begin

text \<open>
  Reads in a cluster whose nodes answer each other. A node that is asked by another asks all nodes again
  before it answers, so no answer comes before the deadline of the caller: every call of a read times
  out, and the client waits for all of them to be told what the one node knows.
\<close>

section \<open>Calls that all fail\<close>

text \<open>
  \<open>call_result oc b new i\<close>: what the caller makes of the \<open>i\<close>-th of the calls \<open>new\<close>, if \<open>b\<close> calls were made
  before them and \<open>oc\<close> are the outcomes.
\<close>

definition call_result :: "(nat \<Rightarrow> string \<Rightarrow> rpc_request \<Rightarrow> rpc_outcome) \<Rightarrow> nat \<Rightarrow> (string \<times> string \<times> rpc_request) list \<Rightarrow>
    nat \<Rightarrow> GetReply res" where
  "call_result oc b new i = outcome_result (oc (b + i) (fst (new ! i)) (snd (snd (new ! i))))"

definition all_fail :: "(nat \<Rightarrow> string \<Rightarrow> rpc_request \<Rightarrow> rpc_outcome) \<Rightarrow> nat \<Rightarrow> (string \<times> string \<times> rpc_request) list \<Rightarrow> bool" where
  "all_fail oc b new \<longleftrightarrow> (\<forall>i < length new. \<not> has_value (call_result oc b new i))"

lemma all_fail_append: "all_fail oc b (xs @ ys) \<longleftrightarrow> all_fail oc b xs \<and> all_fail oc (b + length xs) ys"
proof
  assume l: "all_fail oc b (xs @ ys)"
  have "\<not> has_value (call_result oc b xs i)" if "i < length xs" for i
    using l that unfolding all_fail_def by (metis call_result_def length_append nth_append trans_less_add1)
  moreover have "\<not> has_value (call_result oc (b + length xs) ys i)" if "i < length ys" for i
  proof -
    have "\<not> has_value (call_result oc b (xs @ ys) (length xs + i))" using l that by (simp add: all_fail_def)
    then show ?thesis by (simp add: call_result_def add.assoc)
  qed
  ultimately show "all_fail oc b xs \<and> all_fail oc (b + length xs) ys" by (simp add: all_fail_def)
next
  assume r: "all_fail oc b xs \<and> all_fail oc (b + length xs) ys"
  show "all_fail oc b (xs @ ys)"
    unfolding all_fail_def
  proof (intro allI impI)
    fix i assume i: "i < length (xs @ ys)"
    show "\<not> has_value (call_result oc b (xs @ ys) i)"
    proof (cases "i < length xs")
      case True
      then show ?thesis using r by (simp add: all_fail_def call_result_def nth_append)
    next
      case False
      then have "\<not> has_value (call_result oc (b + length xs) ys (i - length xs))" using r i by (simp add: all_fail_def)
      then show ?thesis using False by (simp add: call_result_def nth_append)
    qed
  qed
qed

text \<open>The five attempts at one node, and the seconds waited after each.\<close>

lemma backoff_all_fail:
  assumes "MakeRequestWithBackoff type request host rp = (res, rp1)" "rp_sent rp1 = rp_sent rp @ new"
    "all_fail (rp_outcome rp) (length (rp_sent rp)) new"
  shows "\<not> has_value res" "rp1 = rp\<lparr>rp_sent := rp_sent rp @ replicate 5 (host, RequestType_ToString type, request),
    rp_waited := rp_waited rp @ [1, 2, 4, 8, 16]\<rparr>"
proof -
  let ?item = "(host, RequestType_ToString type, request)"
  have none: "\<forall>i < 5. \<not> has_value (attempt rp host request i)"
  proof (rule ccontr)
    assume "\<not> (\<forall>i < 5. \<not> has_value (attempt rp host request i))"
    then have "\<exists>k. k < 5 \<and> has_value (attempt rp host request k)" by blast
    then obtain k where k: "k < 5" "has_value (attempt rp host request k)"
      "\<forall>i < k. \<not> (i < 5 \<and> has_value (attempt rp host request i))"
      using exists_least_iff [of "\<lambda>k. k < 5 \<and> has_value (attempt rp host request k)"] by auto
    then obtain reply where reply: "attempt rp host request k = Inr reply" by (auto simp: has_value_iff)
    have "\<forall>i < k. \<not> has_value (attempt rp host request i)" using k(1,3) by auto
    from backoff_loop_reply [OF k(1) this reply] assms(1,2) have "new = replicate (Suc k) ?item"
      unfolding MakeRequestWithBackoff_def by auto
    then have "\<not> has_value (call_result (rp_outcome rp) (length (rp_sent rp)) (replicate (Suc k) ?item) k)"
      using assms(3) by (simp add: all_fail_def del: replicate_Suc)
    then show False using k(2) by (simp add: call_result_def attempt_def nth_append del: replicate_Suc)
  qed
  from backoff_loop_failure [OF none] assms(1) have
    "(res, rp1) = (attempt rp host request 4, rp\<lparr>rp_sent := rp_sent rp @ replicate 5 ?item,
       rp_waited := rp_waited rp @ map (\<lambda>i. 2 ^ i) [0..<5]\<rparr>)"
    unfolding MakeRequestWithBackoff_def by simp
  moreover have "map (\<lambda>i. 2 ^ i) [0..<5] = [1, 2, 4, 8, 16 :: nat]" by (simp add: upt_rec)
  ultimately show "\<not> has_value res" "rp1 = rp\<lparr>rp_sent := rp_sent rp @ replicate 5 ?item,
    rp_waited := rp_waited rp @ [1, 2, 4, 8, 16]\<rparr>" using none by simp_all
qed

definition five_calls :: "string \<Rightarrow> string list \<Rightarrow> (string \<times> string \<times> rpc_request) list" where
  "five_calls k nodes = concat (map (\<lambda>host. replicate 5 (node_read k host)) nodes)"

lemma newest_all_fail:
  assumes "newest_of_nodes \<lparr>grd_key = k\<rparr> nodes (Inl e) rp = (res, rp')" "rp_sent rp' = rp_sent rp @ new"
    "all_fail (rp_outcome rp) (length (rp_sent rp)) new"
  shows "res = Ret (Inl e) \<and> new = five_calls k nodes \<and>
    rp_waited rp' = rp_waited rp @ concat (replicate (length nodes) [1, 2, 4, 8, 16])"
  using assms
proof (induction nodes arbitrary: rp new)
  case (Cons node nodes)
  let ?rp = "rp\<lparr>rp_clients := (if node \<in> set (rp_clients rp) then rp_clients rp else rp_clients rp @ [node])\<rparr>"
  let ?q = "QGet \<lparr>gr_key = Some k, gr_source = Some SOURCE_NODE, gr_is_master = None\<rparr>"
  obtain r rp1 where m: "MakeRequestWithBackoff rGet ?q node ?rp = (r, rp1)" by (metis surj_pair)
  obtain n w where n: "rp1 = ?rp\<lparr>rp_sent := rp_sent rp @ replicate n (node, RequestType_ToString rGet, ?q), rp_waited := w\<rparr>"
    using backoff_sent [of rGet ?q node ?rp] m by auto
  obtain v where g: "ReplicaClient_Get node \<lparr>grd_key = k\<rparr> ?rp = (Ret v, rp1)"
    "\<not> has_value r \<Longrightarrow> \<not> has_value v"
    using m by (cases r) (auto simp: ReplicaClient_Get_def Let_def)
  let ?one = "replicate n (node, RequestType_ToString rGet, ?q)"
  obtain res1 rp2 rest where rest: "newest_of_nodes \<lparr>grd_key = k\<rparr> nodes (better (Inl e) v) rp1 = (Ret res1, rp2)"
    "rp_sent rp2 = rp_sent rp1 @ rest"
    using newest_of_nodes_delivered by blast
  have run: "newest_of_nodes \<lparr>grd_key = k\<rparr> (node # nodes) (Inl e) rp =
      newest_of_nodes \<lparr>grd_key = k\<rparr> nodes (better (Inl e) v) rp1"
    using g(1) by (simp add: do_request_eq better_def)
  have new: "new = ?one @ rest" using Cons.prems(1,2) run rest n by simp
  then have f: "all_fail (rp_outcome ?rp) (length (rp_sent ?rp)) ?one" "all_fail (rp_outcome rp) (length (rp_sent rp) + n) rest"
    using Cons.prems(3) all_fail_append [of "rp_outcome rp" "length (rp_sent rp)" ?one rest] by simp_all
  have "rp_sent rp1 = rp_sent ?rp @ ?one" using n by simp
  note five = backoff_all_fail [OF m this f(1)]
  from g(2) [OF five(1)] have "better (Inl e) v = Inl e" by (cases v) (simp_all add: better_def)
  then have "newest_of_nodes \<lparr>grd_key = k\<rparr> nodes (Inl e) rp1 = (res, rp')" using run Cons.prems(1) by simp
  from Cons.IH [OF this, of rest] have ih: "res = Ret (Inl e)" "rest = five_calls k nodes"
    "rp_waited rp' = rp_waited rp1 @ concat (replicate (length nodes) [1, 2, 4, 8, 16])"
    using rest run Cons.prems(1) f(2) n five(2) by auto
  have "rp_sent rp1 = rp_sent rp @ replicate 5 (node, RequestType_ToString rGet, ?q)" using five(2) by simp
  then have "?one = replicate 5 (node_read k node)" using n by (simp add: node_read_def)
  then show ?case using ih new five(2) by (simp add: five_calls_def)
qed (simp add: five_calls_def)

section \<open>What a read does to the network state\<close>

text \<open>Whatever the middlewares ask, the calls and waits of a read are those of \<open>GetNewestFromReplicas\<close>.\<close>

definition network :: "controller \<Rightarrow> (string \<times> string \<times> rpc_request) list \<times> nat list" where
  "network c = (rp_sent (ct_rep c), rp_waited (ct_rep c))"

lemma network_simps [simp]:
  "network (polled c) = network c" "network (snd (on_system f c)) = network c"
  "network (c\<lparr>ct_rep := rp\<rparr>) = (rp_sent rp, rp_waited rp)"
  by (auto simp: network_def polled_def on_system_def split: exec.split)

lemma Controller_Get_network:
  assumes "ct_jobs c = []" "GetNewestFromReplicas data (ct_rep c) = (Ret res, rp')"
  shows "network (snd (Controller_Get cs data c)) = (rp_sent rp', rp_waited rp')"
proof -
  let ?c = "c\<lparr>ct_rep := rp'\<rparr>"
  have p: "poll cs ?c = (Ret (), polled ?c)" by (rule sent_idle_poll) (simp add: assms(1))
  then show ?thesis
    unfolding Controller_Get_def assms(2)
    by (auto simp: p split: sum.split intro!: st_bind_snd [where P = "\<lambda>x. network x = (rp_sent rp', rp_waited rp')"])
qed

lemma HandlersProxy_Get_network:
  assumes "calm c" "ct_jobs c = []" "may_read request c"
    "GetNewestFromReplicas \<lparr>grd_key = get_string (gr_key request)\<rparr> (ct_rep c) = (Ret res, rp')"
  shows "network (snd (HandlersProxy_GetHandler cs request c)) = (rp_sent rp', rp_waited rp')"
proof -
  let ?P = "\<lambda>x. network x = (rp_sent rp', rp_waited rp')"
  note p = calm_polled [OF assms(1)]
  note p2 = calm_polled [OF p(2)]
  have 1: "?P (snd (Controller_Get cs \<lparr>grd_key = get_string (gr_key request)\<rparr> (polled c)))"
    by (rule Controller_Get_network [OF _ assms(4) [folded p(3)]]) (simp add: assms(2))
  have 2: "?P (snd (Controller_Get cs \<lparr>grd_key = get_string (gr_key request)\<rparr> (polled (polled c))))"
    by (rule Controller_Get_network [OF _ assms(4) [folded p(3), folded p2(3)]]) (simp add: assms(2))
  have x: "\<not> IsConnectionExpired (zk_of (polled c))" using calm_connected [OF p(2)] .
  show ?thesis
    unfolding HandlersProxy_GetHandler_def WithErrorHandlingMiddleware_def WithIsExpiredMiddleware_def
      WithIsMasterMiddleware_Get_def GetHandler_def
    using 1 2 x assms(3) p(1) p2(1)
    by (auto simp: read_flag_def Let_def may_read_def intro!: st_bind_snd [where P = ?P])
qed

section \<open>Reads in time\<close>

text \<open>
  Time is measured in seconds. \<open>answers_read cs request r t\<close>: some node answers the request of a read with \<open>r\<close>,
  \<open>t\<close> seconds or less after it arrived. The node is in order: its session is alive, it knows a list of nodes
  that is not empty, and no job is pending. Each call that it makes on the way ends with what the node that it
  calls answers, if that happens before the deadline, and fails at the deadline otherwise. Nodes may
  answer as fast as they like; no call is lost.
\<close>

definition call_end :: "(GetRequest \<Rightarrow> GetReply rpc_end \<Rightarrow> real \<Rightarrow> bool) \<Rightarrow> rpc_request \<Rightarrow> rpc_outcome \<Rightarrow> real \<Rightarrow> bool" where
  "call_end ans q out d \<longleftrightarrow> 0 \<le> d \<and>
     (if d < real request_deadline then \<exists>g e t. q = QGet g \<and> t \<le> d \<and> ans g e t \<and> (case e of
          Finish reply \<Rightarrow> out = RpcReply reply
        | FinishWithError status message \<Rightarrow> \<exists>details. out = RpcFailed message details)
      else \<exists>message details. out = RpcFailed message details)"

definition read_run :: "(GetRequest \<Rightarrow> GetReply rpc_end \<Rightarrow> real \<Rightarrow> bool) \<Rightarrow> codecs \<Rightarrow> controller \<Rightarrow> string list \<Rightarrow>
    GetRequest \<Rightarrow> GetReply rpc_end \<Rightarrow> real \<Rightarrow> bool" where
  "read_run ans cs c nodes request r t \<longleftrightarrow>
     calm c \<and> ct_jobs c = [] \<and> GetNodes (zk_of c) = Inr nodes \<and> nodes \<noteq> [] \<and> may_read request c \<and>
     fst (HandlersProxy_GetHandler cs request c) = Ret r \<and>
     (\<exists>new waits dur. network (snd (HandlersProxy_GetHandler cs request c)) = (sent c @ new, rp_waited (ct_rep c) @ waits) \<and>
       (\<forall>i < length new. call_end ans (snd (snd (new ! i)))
          (rp_outcome (ct_rep c) (length (sent c) + i) (fst (new ! i)) (snd (snd (new ! i)))) (dur i)) \<and>
       (\<Sum>i < length new. dur i) + real (sum_list waits) \<le> t)"

lemma call_end_mono: "(\<And>g e t. A g e t \<longrightarrow> B g e t) \<Longrightarrow> call_end A q out d \<longrightarrow> call_end B q out d"
  unfolding call_end_def by (simp split: if_split) blast

lemma read_run_mono [mono]: "(\<And>g e t. A g e t \<longrightarrow> B g e t) \<Longrightarrow> read_run A cs c nodes q r t \<longrightarrow> read_run B cs c nodes q r t"
  unfolding read_run_def using call_end_mono [of A B] by blast

inductive answers_read :: "codecs \<Rightarrow> GetRequest \<Rightarrow> GetReply rpc_end \<Rightarrow> real \<Rightarrow> bool" for cs where
  answer: "read_run (answers_read cs) cs c nodes request r t \<Longrightarrow> answers_read cs request r t"

text \<open>What a node sends out for a read of another node is never empty, and is again a read of a node.\<close>

lemma read_calls:
  assumes "calm c" "ct_jobs c = []" "GetNodes (zk_of c) = Inr nodes" "may_read request c"
    "network (snd (HandlersProxy_GetHandler cs request c)) = (sent c @ new, waits)"
  shows "delivered nodes (node_read (get_string (gr_key request))) new"
proof -
  let ?e = "Inl (MakeError kUnknown ''failed to retrieve value from replicas'')"
  from newest_of_nodes_delivered [of "get_string (gr_key request)" nodes ?e "ct_rep c"] assms(3) obtain res rp' new' where
    g: "GetNewestFromReplicas \<lparr>grd_key = get_string (gr_key request)\<rparr> (ct_rep c) = (Ret res, rp')"
      "rp_sent rp' = sent c @ new'" "delivered nodes (node_read (get_string (gr_key request))) new'"
    by (auto simp: GetNewestFromReplicas_def)
  from HandlersProxy_Get_network [OF assms(1,2,4) g(1), of cs] assms(5) g(2,3) show ?thesis by simp
qed

lemma delivered_reads:
  "delivered nodes (node_read k) new \<Longrightarrow> i < length new \<Longrightarrow> \<exists>host. new ! i = node_read k host"
proof (induction nodes arbitrary: new i)
  case (Cons node nodes)
  then obtain n rest where r: "new = replicate n (node_read k node) @ rest" "delivered nodes (node_read k) rest" by auto
  then show ?case
    using Cons.IH [OF r(2), of "i - n"] Cons.prems(2) by (cases "i < n") (auto simp: nth_append)
qed simp

lemma delivered_nonempty: "delivered nodes item new \<Longrightarrow> nodes \<noteq> [] \<Longrightarrow> new \<noteq> []"
  by (cases nodes) auto

text \<open>If answers take as long as the deadline, every call of a read runs into it.\<close>

lemma read_run_fails:
  assumes run: "read_run A cs c nodes request r t"
    and late: "\<And>g e t. A g e t \<Longrightarrow> get_Source (gr_source g) = SOURCE_NODE \<Longrightarrow> real request_deadline \<le> t"
  obtains new waits dur where "network (snd (HandlersProxy_GetHandler cs request c)) = (sent c @ new, rp_waited (ct_rep c) @ waits)"
    "delivered nodes (node_read (get_string (gr_key request))) new"
    "\<forall>i < length new. real request_deadline \<le> dur i"
    "all_fail (rp_outcome (ct_rep c)) (length (sent c)) new" "(\<Sum>i < length new. dur i) + real (sum_list waits) \<le> t"
proof -
  from run obtain new waits dur where
    n: "network (snd (HandlersProxy_GetHandler cs request c)) = (sent c @ new, rp_waited (ct_rep c) @ waits)"
    and e: "\<And>i. i < length new \<Longrightarrow> call_end A (snd (snd (new ! i)))
      (rp_outcome (ct_rep c) (length (sent c) + i) (fst (new ! i)) (snd (snd (new ! i)))) (dur i)"
    and t: "(\<Sum>i < length new. dur i) + real (sum_list waits) \<le> t" unfolding read_run_def by blast
  have d: "delivered nodes (node_read (get_string (gr_key request))) new"
    by (rule read_calls [OF _ _ _ _ n]) (use run in \<open>simp_all add: read_run_def\<close>)
  have dur: "real request_deadline \<le> dur i" if i: "i < length new" for i
  proof (rule ccontr)
    assume "\<not> real request_deadline \<le> dur i"
    then obtain g e t where g: "snd (snd (new ! i)) = QGet g" "t \<le> dur i" "A g e t"
      using e [OF i] unfolding call_end_def by auto
    from delivered_reads [OF d i] g(1) have "get_Source (gr_source g) = SOURCE_NODE"
      by (auto simp: node_read_def get_Source_def)
    from late [OF g(3) this] g(2) show False using \<open>\<not> real request_deadline \<le> dur i\<close> by simp
  qed
  have "all_fail (rp_outcome (ct_rep c)) (length (sent c)) new"
    unfolding all_fail_def
  proof (intro allI impI)
    fix i assume i: "i < length new"
    from e [OF i] dur [OF i] show "\<not> has_value (call_result (rp_outcome (ct_rep c)) (length (sent c)) new i)"
      by (auto simp: call_end_def call_result_def outcome_result_def)
  qed
  then show ?thesis using that n d dur t by blast
qed

lemma sum_durations:
  assumes "\<forall>i < n. b \<le> dur i" shows "real n * b \<le> (\<Sum>i < n. dur i :: real)"
  using sum_mono [of "{..<n}" "\<lambda>_. b" dur] assms by simp

lemma answers_read_late:
  "answers_read cs request r t \<Longrightarrow> get_Source (gr_source request) = SOURCE_NODE \<Longrightarrow> real request_deadline \<le> t"
proof (induction rule: answers_read.induct)
  case (answer c nodes request r t)
  let ?A = "\<lambda>g e t. answers_read cs g e t \<and> (get_Source (gr_source g) = SOURCE_NODE \<longrightarrow> real request_deadline \<le> t)"
  from answer(1) have run: "read_run ?A cs c nodes request r t" by simp
  obtain new waits dur where n: "delivered nodes (node_read (get_string (gr_key request))) new"
    "\<forall>i < length new. real request_deadline \<le> dur i" "(\<Sum>i < length new. dur i) + real (sum_list waits) \<le> t"
    by (rule read_run_fails [OF run]) auto
  have "nodes \<noteq> []" using run by (simp add: read_run_def)
  then have "1 \<le> length new" using delivered_nonempty [OF n(1)] by (cases new) auto
  then have "real request_deadline \<le> real (length new) * real request_deadline"
    by (simp add: mult_le_cancel_right1)
  also have "\<dots> \<le> (\<Sum>i < length new. dur i)" using sum_durations n(2) by blast
  finally show ?case using n(3) by linarith
qed

section \<open>What a read learns from the other nodes\<close>

lemma read_run_result:
  assumes "read_run (answers_read cs) cs c nodes request r t" "sys_inv cs (ct_sys c)" "k = get_string (gr_key request)"
  shows "r = read_end k (local_answer cs (ct_sys c) k)"
    "network (snd (HandlersProxy_GetHandler cs request c)) =
      (sent c @ five_calls k nodes, rp_waited (ct_rep c) @ concat (replicate (length nodes) [1, 2, 4, 8, 16]))"
    "real (length nodes) * 56 \<le> t"
proof -
  have c: "calm c" "ct_jobs c = []" "GetNodes (zk_of c) = Inr nodes" "may_read request c"
    "fst (HandlersProxy_GetHandler cs request c) = Ret r" using assms(1) by (simp_all add: read_run_def)
  obtain new waits dur where n: "network (snd (HandlersProxy_GetHandler cs request c)) = (sent c @ new, rp_waited (ct_rep c) @ waits)"
    and "delivered nodes (node_read (get_string (gr_key request))) new"
    and d: "\<forall>i < length new. real request_deadline \<le> dur i"
    and af: "all_fail (rp_outcome (ct_rep c)) (length (sent c)) new" and tm: "(\<Sum>i < length new. dur i) + real (sum_list waits) \<le> t"
    by (rule read_run_fails [OF assms(1) answers_read_late])
  let ?m = "MakeError kUnknown ''failed to retrieve value from replicas''"
  obtain res rp' where g: "GetNewestFromReplicas \<lparr>grd_key = k\<rparr> (ct_rep c) = (res, rp')"
    "newest_of_nodes \<lparr>grd_key = k\<rparr> nodes (Inl ?m) (ct_rep c) = (res, rp')"
    using c(3) by (auto simp: GetNewestFromReplicas_def) (metis surj_pair)
  obtain v where v: "res = Ret v" using newest_of_nodes_delivered [of k nodes "Inl ?m" "ct_rep c"] g(2) by auto
  have net: "network (snd (HandlersProxy_GetHandler cs request c)) = (rp_sent rp', rp_waited rp')"
    by (rule HandlersProxy_Get_network [OF c(1,2,4)]) (use g(1) v assms(3) in simp)
  note f = newest_all_fail [OF g(2) _ af]
  have res: "res = Ret (Inl ?m)" "new = five_calls k nodes"
    "rp_waited rp' = rp_waited (ct_rep c) @ concat (replicate (length nodes) [1, 2, 4, 8, 16])" using f n net by auto
  show "r = read_end k (local_answer cs (ct_sys c) k)"
    using HandlersProxy_Get_alone [OF c(1) assms(2) c(2) assms(3) _ c(4)] c(5) g(1) res(1) by simp
  show "network (snd (HandlersProxy_GetHandler cs request c)) =
      (sent c @ five_calls k nodes, rp_waited (ct_rep c) @ concat (replicate (length nodes) [1, 2, 4, 8, 16]))"
    using n net res(2,3) by simp
  have l: "length new = 5 * length nodes" unfolding res(2) five_calls_def by (induction nodes) simp_all
  have w: "waits = concat (replicate (length nodes) [1, 2, 4, 8, 16])" using n net res(3) by simp
  have "sum_list waits = 31 * length nodes" unfolding w by (induction nodes) simp_all
  then show "real (length nodes) * 56 \<le> t"
    using sum_durations [of "length new" "real request_deadline" dur, OF d] tm l by (simp add: request_deadline_def)
qed

text \<open>The bound is met: a read whose calls all run into the deadline takes no longer.\<close>

lemma read_run_exists:
  assumes "calm c" "ct_jobs c = []" "GetNodes (zk_of c) = Inr nodes" "nodes \<noteq> []" "may_read request c"
    "sys_inv cs (ct_sys c)" "k = get_string (gr_key request)"
    "\<And>n host q. rp_outcome (ct_rep c) n host q = RpcFailed message details"
  shows "read_run A cs c nodes request (read_end k (local_answer cs (ct_sys c) k)) (real (length nodes) * 56)"
proof -
  let ?m = "MakeError kUnknown ''failed to retrieve value from replicas''"
  from newest_of_nodes_delivered [of k nodes "Inl ?m" "ct_rep c"] obtain res rp' new where
    g: "newest_of_nodes \<lparr>grd_key = k\<rparr> nodes (Inl ?m) (ct_rep c) = (Ret res, rp')" "rp_sent rp' = sent c @ new" by blast
  have "all_fail (rp_outcome (ct_rep c)) (length (sent c)) new"
    by (simp add: all_fail_def call_result_def outcome_result_def assms(8))
  from newest_all_fail [OF g this] have r: "res = Inl ?m" "new = five_calls k nodes"
    "rp_waited rp' = rp_waited (ct_rep c) @ concat (replicate (length nodes) [1, 2, 4, 8, 16])" by simp_all
  let ?waits = "concat (replicate (length nodes) [1, 2, 4, 8, 16]) :: nat list"
  have n: "GetNewestFromReplicas \<lparr>grd_key = k\<rparr> (ct_rep c) = (Ret (Inl ?m), rp')"
    using g(1) r(1) assms(3) by (simp add: GetNewestFromReplicas_def)
  have net: "network (snd (HandlersProxy_GetHandler cs request c)) = (sent c @ new, rp_waited (ct_rep c) @ ?waits)"
    using HandlersProxy_Get_network [OF assms(1,2,5)] n g(2) r(3) assms(7) by simp
  have "fst (HandlersProxy_GetHandler cs request c) = Ret (read_end k (local_answer cs (ct_sys c) k))"
    by (rule HandlersProxy_Get_alone [OF assms(1,6,2,7) _ assms(5)]) (simp add: n)
  moreover have "sum_list ?waits = 31 * length nodes" by (induction nodes) simp_all
  moreover have "length new = 5 * length nodes" unfolding r(2) five_calls_def by (induction nodes) simp_all
  ultimately show ?thesis
    unfolding read_run_def using assms(1-5) net
    by (intro conjI exI [of _ new] exI [of _ ?waits] exI [of _ "\<lambda>_. 5"]) (simp_all add: call_end_def assms(8) request_deadline_def)
qed

end
