(* ===== verification/Disk_Faults.thy ===== *)
theory Disk_Faults
  imports Storage_System Compaction
begin

text \<open>
  Requests on a disk that fails. The theorems of the other theories assume that no operation of the
  system fails; here any may: a failed write leaves any part of its bytes behind, and a failed read of a
  table entry throws and ends the server. What the program makes of it: the log may lack the last
  acknowledged operation, or hold one that was refused, and a cut metadata file loses every table.
\<close>

section \<open>The same disk without its faults\<close>

definition undisturbed :: "fs \<Rightarrow> fs" where
  "undisturbed fs = fs\<lparr>fs_fault := \<lambda>_. None, fs_read_fault := \<lambda>_ _ _. False\<rparr>"

definition undisturbed_sys :: "system \<Rightarrow> system" where
  "undisturbed_sys s = s\<lparr>ss_fs := undisturbed (ss_fs s)\<rparr>"

lemma undisturbed_simps [simp]:
  "fs_dir (undisturbed fs) = fs_dir fs" "fs_data (undisturbed fs) = fs_data fs"
  by (simp_all add: undisturbed_def)

lemma undisturbed_names [simp]:
  "GetDataDir (undisturbed fs) = GetDataDir fs" "format_path (undisturbed fs) = format_path fs"
  "read_file (undisturbed fs) p = read_file fs p" "table_files (undisturbed fs) = table_files fs"
  "meta_path (undisturbed fs) = meta_path fs" "wal_files (undisturbed fs) = wal_files fs"
proof -
  show d: "GetDataDir (undisturbed fs) = GetDataDir fs" by (simp add: undisturbed_def GetDataDir_def)
  then show "format_path (undisturbed fs) = format_path fs" by (simp add: format_path_def fun_eq_iff)
  then have "is_table (undisturbed fs) = is_table fs" by (simp add: is_table_def fun_eq_iff undisturbed_def)
  then show "table_files (undisturbed fs) = table_files fs" by (simp add: table_files_def)
  show "read_file (undisturbed fs) p = read_file fs p" by (simp add: read_file_def)
  show "meta_path (undisturbed fs) = meta_path fs" by (simp add: meta_path_def d)
  show "wal_files (undisturbed fs) = wal_files fs" by (simp add: wal_files_def undisturbed_def GetDataDir_def)
qed

lemma undisturbed_entry [simp]: "entry_at cs (undisturbed fs) = entry_at cs fs"
  by (simp add: ReadEntryAt_def entry_at_def undisturbed_def fun_eq_iff Let_def split: option.split)

lemma undisturbed_entries [simp]: "ps_entries cs (undisturbed fs) = ps_entries cs fs"
  by (simp add: ps_entries_def fun_eq_iff)

lemma undisturbed_tables [simp]:
  "tables_view cs (undisturbed fs) ps = tables_view cs fs ps"
  "wal_state cs (undisturbed fs) w es tail = wal_state cs fs w es tail"
  by (simp_all add: tables_view_def wal_state_def)

lemma undisturbed_sys_simps [simp]:
  "ss_fs (undisturbed_sys s) = undisturbed (ss_fs s)" "ss_mem (undisturbed_sys s) = ss_mem s"
  "ss_wal (undisturbed_sys s) = ss_wal s" "ss_tables (undisturbed_sys s) = ss_tables s"
  "sys_tables cs (undisturbed_sys s) = sys_tables cs s"
  by (simp_all add: undisturbed_sys_def sys_tables_def)

lemma touches_undisturbed: "touches i fs fs' \<Longrightarrow> touches i (undisturbed fs) (undisturbed fs')"
  by (cases fs) (auto simp: touches_def undisturbed_def)

section \<open>Writing to the log\<close>

text \<open>
  One write: the entry is in the file and the stream stays good; or a part of the entry is there and
  the stream is bad, whether or not the write was reported.
\<close>

definition write_failed :: Error where
  "write_failed = MakeError kUnknown ''failed to write log entry''"

text \<open>Writing and flushing is one flush, before or after the answer is known.\<close>

lemma WriteEntry_flush:
  assumes "\<not> os_bad (wal_f w)" "os_buf (wal_f w) = []" "d_ser (c_wal cs) e \<noteq> []"
  shows "WALWriterImpl_WriteEntry cs e w fs =
    (let (f, fs') = os_flush ((wal_f w)\<lparr>os_buf := d_ser (c_wal cs) e\<rparr>) (tick fs) in
     (if os_bad f \<and> fs_spill fs (fs_clock fs) then Inl write_failed else Inr (), w\<lparr>wal_f := f\<rparr>, fs'))"
  using assms by (auto simp: WALWriterImpl_WriteEntry_def os_write_def os_flush_def write_failed_def Let_def)

lemma os_flush_touches:
  assumes "os_flush s fs = (s', fs')"
  shows "touches (os_ino s) fs fs'" "os_ino s' = os_ino s"
proof -
  have "touches (os_ino s) fs ((tick fs)\<lparr>fs_data := (fs_data fs)(os_ino s := c)\<rparr>)" for c
    by (rule touchesI [where c = c and n = "Suc (fs_clock fs)"]) (cases fs, simp add: tick_def)
  then show "touches (os_ino s) fs fs'" "os_ino s' = os_ino s"
    using assms by (auto simp: os_flush_def Let_def split: if_splits)
qed

lemma os_flush_result:
  assumes "os_flush s fs = (s', fs')" "\<not> os_bad s" "os_buf s \<noteq> []"
  shows "faulty fs = None \<Longrightarrow> s' = s\<lparr>os_pos := os_pos s + length (os_buf s), os_buf := []\<rparr>"
    "faulty fs = None \<Longrightarrow> fs_data fs' (os_ino s) = write_at (os_pos s) (os_buf s) (fs_data fs (os_ino s))"
    "faulty fs = Some k \<Longrightarrow> os_bad s'"
    "faulty fs = Some k \<Longrightarrow>
      fs_data fs' (os_ino s) = write_at (os_pos s) (take k (os_buf s)) (fs_data fs (os_ino s))"
  using assms by (auto simp: os_flush_def Let_def)

lemma WriteEntry_any:
  assumes "codecs_ok cs" "wal_state cs fs w es []"
  obtains r w' fs' where "WALWriterImpl_WriteEntry cs e w fs = (r, w', fs')" "wal_path w' = wal_path w"
    "touches (os_ino (wal_f w)) fs fs'" "os_ino (wal_f w') = os_ino (wal_f w)"
    "r = Inr () \<and> wal_state cs fs' w' (es @ [e]) [] \<or> r \<in> {Inr (), Inl write_failed} \<and> os_bad (wal_f w') \<and>
      (\<exists>k. fs_data fs' (os_ino (wal_f w)) = ser_all (c_wal cs) es @ take k (d_ser (c_wal cs) e))"
proof -
  let ?i = "os_ino (wal_f w)" and ?b = "d_ser (c_wal cs) e" and ?es = "ser_all (c_wal cs) es"
  let ?f = "(wal_f w)\<lparr>os_buf := ?b\<rparr>"
  note st = assms(2) [unfolded wal_state_def]
  have b: "?b \<noteq> []" by (rule delimited_ser_nonempty [OF codecs_okD(1) [OF assms(1)]])
  obtain f fs' where fl: "os_flush ?f (tick fs) = (f, fs')" by (metis surj_pair)
  have at: "write_at (length ?es) bs ?es = ?es @ bs" for bs by (simp add: write_at_def)
  have t: "touches ?i (tick fs) fs'" "os_ino f = ?i" using os_flush_touches [OF fl] by simp_all
  then have t': "touches ?i fs fs'" using touches_trans touches_tick by blast
  have c: "\<not> os_bad ?f" "os_buf ?f \<noteq> []" "fs_data (tick fs) = fs_data fs" using st b by (simp_all add: tick_def)
  note res = os_flush_result [OF fl c(1,2)]
  have run: "WALWriterImpl_WriteEntry cs e w fs = (if os_bad f \<and> fs_spill fs (fs_clock fs) then Inl write_failed
      else Inr (), w\<lparr>wal_f := f\<rparr>, fs')"
    using WriteEntry_flush [of w cs e fs] st b fl by simp
  show ?thesis
  proof (cases "faulty (tick fs)")
    case None
    then have "wal_state cs fs' (w\<lparr>wal_f := f\<rparr>) (es @ [e]) []" "\<not> os_bad f"
      using res(1,2) st c(3) touches_same(2) [OF t'] by (simp_all add: wal_state_def at)
    then show ?thesis using that run t(2) t' by simp
  next
    case (Some k)
    then have "os_bad f" "fs_data fs' ?i = ?es @ take k ?b"
      using res(3,4) st c(3) by (simp_all add: at)
    then have part: "\<exists>k. fs_data fs' ?i = ?es @ take k ?b" by blast
    show ?thesis by (rule that [OF run _ t']) (use \<open>os_bad f\<close> part t(2) in \<open>simp_all split: if_split\<close>)
  qed
qed

text \<open>Without a write-through the failure of the flush is reported as success.\<close>

lemma flush_failure_unreported:
  assumes "codecs_ok cs" "wal_state cs fs w es []" "\<not> fs_spill fs (fs_clock fs)" "faulty (tick fs) = Some k"
  shows "\<exists>w' fs'. WALWriterImpl_WriteEntry cs e w fs = (Inr (), w', fs') \<and> os_bad (wal_f w') \<and>
    fs_data fs' (os_ino (wal_f w)) = ser_all (c_wal cs) es @ take k (d_ser (c_wal cs) e)"
proof -
  let ?f = "(wal_f w)\<lparr>os_buf := d_ser (c_wal cs) e\<rparr>"
  note st = assms(2) [unfolded wal_state_def]
  have b: "d_ser (c_wal cs) e \<noteq> []" by (rule delimited_ser_nonempty [OF codecs_okD(1) [OF assms(1)]])
  obtain f fs' where fl: "os_flush ?f (tick fs) = (f, fs')" by (metis surj_pair)
  have "\<not> os_bad ?f" "os_buf ?f \<noteq> []" using st b by simp_all
  note res = os_flush_result(3,4) [OF fl this assms(4)]
  show ?thesis
    using WriteEntry_flush [of w cs e fs] fl res st b assms(3) by (simp add: write_at_def tick_def)
qed

text \<open>Once the stream is bad, nothing is written and every write is refused.\<close>

lemma WriteEntry_bad:
  "os_bad (wal_f w) \<Longrightarrow> WALWriterImpl_WriteEntry cs e w fs = (Inl write_failed, w, fs)"
  by (simp add: WALWriterImpl_WriteEntry_def os_write_def os_flush_def write_failed_def)

text \<open>What the reader finds in a file that ends with a part of an entry.\<close>

lemma wal_ops_part:
  assumes "codecs_ok cs" "fs_ok fs" "read_file fs p = Some (ser_all (c_wal cs) es @ take k (d_ser (c_wal cs) e))"
  shows "wal_ops cs fs p \<in> {concat (map operations_of es), concat (map operations_of es) @ operations_of e}"
    "\<exists>es tail. read_file fs p = Some (ser_all (c_wal cs) es @ tail) \<and>
       (d_parse (c_wal cs) tail = Eof \<or> d_parse (c_wal cs) tail = Bad)"
proof -
  let ?b = "d_ser (c_wal cs) e"
  note d = codecs_okD(1) [OF assms(1)]
  have "wal_ops cs fs p \<in> {concat (map operations_of es), concat (map operations_of es) @ operations_of e} \<and>
    (\<exists>es tail. read_file fs p = Some (ser_all (c_wal cs) es @ tail) \<and>
       (d_parse (c_wal cs) tail = Eof \<or> d_parse (c_wal cs) tail = Bad))"
  proof (cases "k < length ?b")
    case True
    then have "?b \<noteq> take k ?b" by (metis length_take min.absorb4 nless_le)
    then have p: "strict_prefix (take k ?b) ?b" by (metis strict_prefix_def take_is_prefix)
    have "d_parse (c_wal cs) (take k ?b) = Eof \<or> d_parse (c_wal cs) (take k ?b) = Bad"
      using delimited_parse_torn [OF d _ p] delimited_parse_Nil [OF d] by (cases "take k ?b = []") auto
    then show ?thesis using ReadWAL_torn [OF assms(1,2) p assms(3)] assms(3) by (auto simp: wal_ops_def)
  next
    case False
    then have r: "read_file fs p = Some (ser_all (c_wal cs) (es @ [e]))" using assms(3) by simp
    then have "\<exists>es tail. read_file fs p = Some (ser_all (c_wal cs) es @ tail) \<and> d_parse (c_wal cs) tail = Eof"
      using delimited_parse_Nil [OF d] by (metis append_Nil2)
    then show ?thesis using wal_ops_entries [OF assms(1,2) r] by auto
  qed
  then show "wal_ops cs fs p \<in> {concat (map operations_of es), concat (map operations_of es) @ operations_of e}"
    "\<exists>es tail. read_file fs p = Some (ser_all (c_wal cs) es @ tail) \<and>
       (d_parse (c_wal cs) tail = Eof \<or> d_parse (c_wal cs) tail = Bad)" by blast+
qed

section \<open>Reading tables\<close>

text \<open>A lookup in tables gives what it gives on the undisturbed disk, or a read fails and it throws.\<close>

definition read_or_throw :: "fs \<Rightarrow> 'a exec \<Rightarrow> 'a exec \<Rightarrow> bool" where
  "read_or_throw fs a b \<longleftrightarrow> a = b \<or> \<not> reads_ok fs \<and> a = Throw"

lemma read_or_throw_refl [simp, intro]: "read_or_throw fs a a"
  by (simp add: read_or_throw_def)

lemma read_or_throw_bind:
  "read_or_throw fs a b \<Longrightarrow> (\<And>x. a = Ret x \<Longrightarrow> read_or_throw fs (f x) (g x)) \<Longrightarrow>
   read_or_throw fs (exec_bind a f) (exec_bind b g)"
  by (cases a) (auto simp: read_or_throw_def)

lemma read_entry_or_throw:
  "read_or_throw fs (value_or_throw (ReadEntryAt cs fs st off)) (value_or_throw (ReadEntryAt cs (undisturbed fs) st off))"
proof -
  have "reads_ok (undisturbed fs)" by (simp add: reads_ok_def undisturbed_def)
  then have "ReadEntryAt cs (undisturbed fs) st off = entry_at cs fs st off" by (simp add: ReadEntryAt_ok)
  then show ?thesis
    using ReadEntryAt_cases [of cs fs st off] by (auto simp: read_or_throw_def value_or_throw_def)
qed

lemma lower_bound_or_throw:
  "(\<And>x. read_or_throw fs (p x) (q x)) \<Longrightarrow> read_or_throw fs (lower_bound p xs a n) (lower_bound q xs a n)"
proof (induction p xs a n rule: lower_bound.induct)
  case (1 p xs first len)
  show ?case
  proof (cases "len = 0")
    case False
    have "read_or_throw fs (exec_bind (p (xs ! (first + len div 2))) (\<lambda>b.
        if b then lower_bound p xs (Suc (first + len div 2)) (len - len div 2 - 1) else lower_bound p xs first (len div 2)))
      (exec_bind (q (xs ! (first + len div 2))) (\<lambda>b.
        if b then lower_bound q xs (Suc (first + len div 2)) (len - len div 2 - 1) else lower_bound q xs first (len div 2)))"
    proof (rule read_or_throw_bind [OF "1.prems"])
      fix b assume "p (xs ! (first + len div 2)) = Ret b"
      then show "read_or_throw fs
        (if b then lower_bound p xs (Suc (first + len div 2)) (len - len div 2 - 1) else lower_bound p xs first (len div 2))
        (if b then lower_bound q xs (Suc (first + len div 2)) (len - len div 2 - 1) else lower_bound q xs first (len div 2))"
        using "1.IH" [OF False refl refl] "1.prems" by (cases b) simp_all
    qed
    then show ?thesis
      using False by (simp add: lower_bound.simps [of p xs first len] lower_bound.simps [of q xs first len] Let_def)
  qed (simp add: lower_bound.simps [of p xs first 0] lower_bound.simps [of q xs first 0])
qed

lemma PersistentStorage_Get_or_throw:
  "read_or_throw fs (PersistentStorage_Get cs fs st k) (PersistentStorage_Get cs (undisturbed fs) st k)"
  unfolding PersistentStorage_Get_def Let_def
  by (intro read_or_throw_bind lower_bound_or_throw) (auto intro!: read_or_throw_bind read_entry_or_throw)

lemma search_storages_or_throw:
  "read_or_throw fs (search_storages cs fs sts k) (search_storages cs (undisturbed fs) sts k)"
  by (induction sts) (auto intro!: read_or_throw_bind PersistentStorage_Get_or_throw split: sum.split)

section \<open>Requests\<close>

text \<open>A request as a write to the log and one to memory, wherever the tables are whole.\<close>

definition readable :: "codecs \<Rightarrow> system \<Rightarrow> bool" where
  "readable cs s \<longleftrightarrow> sw_inv (ss_mem s) \<and>
     (\<forall>st \<in> set (collection (ss_tables s)). ps_ok cs (undisturbed (ss_fs s)) st)"

definition request_entry :: "request \<Rightarrow> WEntry" where
  "request_entry r = (case r of
       RInsert p \<Rightarrow> WInsertOp \<lparr>wi_key = Some (kw_key p), wi_value = Some (kw_value p), wi_version = Some (kw_version p)\<rparr>
     | RRemove k v \<Rightarrow> WRemoveOp \<lparr>wr_key = Some k, wr_version = Some v\<rparr>)"

definition request_put :: "request \<Rightarrow> SwappableMemoryStorage \<Rightarrow> SwappableMemoryStorage exec" where
  "request_put r m = (case r of RInsert p \<Rightarrow> Swappable_Insert p m | RRemove k v \<Rightarrow> Swappable_Remove k v m)"

lemma operations_of_request_entry [simp]: "operations_of (request_entry r) = [request_op r]"
  by (cases r) (simp_all add: request_entry_def request_op_def operations_of_def insert_op_def remove_op_def)

lemma request_put_view:
  assumes "sw_inv m"
  obtains m' where "request_put r m = Ret m'" "sw_inv m'"
    "sw_view m' = (sw_view m)(request_key r \<mapsto> op_effect (request_op r))" "sw_idle m' = sw_idle m"
proof (cases r)
  case (RInsert p)
  from sw.insert_law [OF assms, of p] obtain m' where m: "Swappable_Insert p m = Ret m'" "sw_inv m'"
    "sw_view m' = (sw_view m)(kw_key p \<mapsto> \<lparr>val_value = Some (kw_value p), val_version = kw_version p\<rparr>)" by blast
  show ?thesis
    by (rule that [of m']) (use RInsert m sw.insert_mode [OF assms m(1)] in
      \<open>simp_all add: request_put_def request_key_def request_op_def op_effect_def insert_op_def\<close>)
next
  case (RRemove k v)
  from sw.remove_law [OF assms, of k v] obtain m' where m: "Swappable_Remove k v m = Ret m'" "sw_inv m'"
    "sw_view m' = (sw_view m)(k \<mapsto> \<lparr>val_value = None, val_version = v\<rparr>)" by blast
  show ?thesis
    by (rule that [of m']) (use RRemove m sw.remove_mode [OF assms m(1)] in
      \<open>simp_all add: request_put_def request_key_def request_op_def op_effect_def remove_op_def\<close>)
qed

lemma StorageSystem_Get_readable:
  assumes "readable cs s"
  shows "read_or_throw (ss_fs s) (StorageSystem_Get cs k s)
    (Ret (lookup_result k (sw_view (ss_mem s) k) (sys_tables cs s k), s))"
proof -
  have i: "sw_inv (ss_mem s)" "\<forall>st \<in> set (collection (ss_tables s)). ps_ok cs (undisturbed (ss_fs s)) st"
    using assms by (simp_all add: readable_def)
  have "read_or_throw (ss_fs s) (Collection_Get cs (ss_fs s) (ss_tables s) k)
      (Collection_Get cs (undisturbed (ss_fs s)) (ss_tables s) k)"
    unfolding Collection_Get_def by (rule search_storages_or_throw)
  then show ?thesis
    unfolding StorageSystem_Get_def Swappable_Get_view [OF i(1)] sys_tables_def
    by (auto simp: read_or_throw_def lookup_result_def Collection_Get_find [OF i(2)] tables_find entry_value_def
        split: option.splits)
qed

lemma serve_readable:
  assumes "readable cs s"
  shows "read_or_throw (ss_fs s) (serve cs r s) (if omits r (sw_view (ss_mem s)) (sys_tables cs s) then Ret (Inr (), s)
    else (case Wal_WriteEntry cs (request_entry r) (ss_wal s, ss_fs s) of
        (Inl e, w, fs) \<Rightarrow> Ret (Inl e, s\<lparr>ss_wal := w, ss_fs := fs\<rparr>)
      | (Inr _, w, fs) \<Rightarrow> exec_bind (request_put r (ss_mem s)) (\<lambda>m.
          Ret (Inr (), s\<lparr>ss_wal := w, ss_fs := fs, ss_mem := m\<rparr>))))"
  using StorageSystem_Get_readable [OF assms, of "request_key r"] unfolding read_or_throw_def
  by (cases r) (auto simp: serve_def StorageSystem_Insert_def StorageSystem_Remove_def
      omits_def request_key_def request_version_def request_entry_def
      request_put_def Wal_Insert_def Wal_Remove_def split: prod.split sum.split)

text \<open>
  The server goes on after a request that failed; an exception ends it, and the requests after it are not
  answered. The clock moves on between requests, so that the reads of each may fail on their own.
\<close>

definition at_clock :: "nat \<Rightarrow> system \<Rightarrow> system" where
  "at_clock c s = s\<lparr>ss_fs := (ss_fs s)\<lparr>fs_clock := c\<rparr>\<rparr>"

definition later :: "system \<Rightarrow> system" where
  "later s = at_clock (Suc (fs_clock (ss_fs s))) s"

fun serve_each :: "codecs \<Rightarrow> request list \<Rightarrow> system \<Rightarrow> (unit res list \<times> system) exec" where
  "serve_each cs [] s = Ret ([], s)"
| "serve_each cs (r # rs) s = (case serve cs r s of
       Ret (res, s1) \<Rightarrow> exec_bind (serve_each cs rs (later s1)) (\<lambda>(ress, s2). Ret (res # ress, s2))
     | Throw \<Rightarrow> Ret ([], s)
     | Undef \<Rightarrow> Undef
     | Hang \<Rightarrow> Hang)"

lemma undisturbed_clock: "undisturbed (fs\<lparr>fs_clock := c\<rparr>) = (undisturbed fs)\<lparr>fs_clock := c\<rparr>"
  by (simp add: undisturbed_def)

lemma clock_tables [simp]:
  "tables_view cs (fs\<lparr>fs_clock := c\<rparr>) ps = tables_view cs fs ps"
  "is_log cs (fs\<lparr>fs_clock := c\<rparr>) p = is_log cs fs p" "reads_ok (fs\<lparr>fs_clock := c\<rparr>) = reads_ok fs"
  "order_ok (fs\<lparr>fs_clock := c\<rparr>) = order_ok fs"
  by (simp_all add: tables_view_def is_log_def reads_ok_def read_file_def GetDataDir_def order_ok_def)

lemma at_clock_simps [simp]:
  "ss_fs (at_clock c s) = (ss_fs s)\<lparr>fs_clock := c\<rparr>" "ss_mem (at_clock c s) = ss_mem s" "ss_wal (at_clock c s) = ss_wal s"
  "ss_tables (at_clock c s) = ss_tables s" "sys_tables cs (at_clock c s) = sys_tables cs s"
  "undisturbed_sys (at_clock c s) = at_clock c (undisturbed_sys s)" "readable cs (at_clock c s) = readable cs s"
  "same_logs s0 (at_clock c s) = same_logs s0 s" "at_clock c (at_clock d s) = at_clock c s"
  by (simp_all add: at_clock_def sys_tables_def undisturbed_sys_def undisturbed_clock readable_def same_logs_def)

lemma at_clock_self [simp]: "at_clock (fs_clock (ss_fs s)) s = s"
  by (simp add: at_clock_def)

lemma at_clock_log:
  assumes "codecs_ok cs" "fs_ok (undisturbed (ss_fs s))" "is_log cs (undisturbed (ss_fs s)) (Wal_GetPath (ss_wal s))"
  shows "sys_log cs (undisturbed_sys (at_clock c s)) = sys_log cs (undisturbed_sys s)"
  using wal_ops_clock [OF assms] by (simp add: sys_log_def wal_logged_def undisturbed_clock)

lemma at_clock_inv: "sys_inv cs (undisturbed_sys s) \<Longrightarrow> sys_inv cs (undisturbed_sys (at_clock c s))"
  by (auto simp: sys_inv_def wal_inv_def wal_state_def GetDataDir_def)

definition answers_to :: "request list \<Rightarrow> (string \<Rightarrow> Value option) \<Rightarrow> (string \<Rightarrow> Value option) \<Rightarrow> unit res list" where
  "answers_to rs mem tab = map (\<lambda>r. if omits r mem tab then Inr () else Inl write_failed) rs"

definition log_broken :: "system \<Rightarrow> bool" where
  "log_broken s \<longleftrightarrow> os_bad (wal_f (sww_writer (ss_wal s)))"

text \<open>With a bad stream, requests change nothing; only what the version guard drops is acknowledged.\<close>

lemma serve_each_broken:
  assumes "readable cs s" "log_broken s"
  shows "\<exists>k c. k \<le> length rs \<and>
    serve_each cs rs s = Ret (answers_to (take k rs) (sw_view (ss_mem s)) (sys_tables cs s), at_clock c s) \<and>
    (k < length rs \<longrightarrow> serve cs (rs ! k) (at_clock c s) = Throw \<and> \<not> reads_ok (ss_fs s))"
  using assms
proof (induction rs arbitrary: s)
  case Nil
  show ?case by (intro exI [of _ 0] exI [of _ "fs_clock (ss_fs s)"]) (simp add: answers_to_def)
next
  case (Cons r rs)
  let ?a = "if omits r (sw_view (ss_mem s)) (sys_tables cs s) then Inr () else Inl write_failed"
  have "read_or_throw (ss_fs s) (serve cs r s) (Ret (?a, s))"
    using serve_readable [OF Cons.prems(1), of r] WriteEntry_bad Cons.prems(2)
    by (simp add: Wal_WriteEntry_def log_broken_def split: if_splits)
  then consider (ok) "serve cs r s = Ret (?a, s)" | (threw) "serve cs r s = Throw" "\<not> reads_ok (ss_fs s)"
    by (auto simp: read_or_throw_def)
  then show ?case
  proof cases
    case ok
    have "readable cs (later s)" "log_broken (later s)" using Cons.prems by (simp_all add: later_def log_broken_def)
    from Cons.IH [OF this] obtain k c where "k \<le> length rs"
      "serve_each cs rs (later s) = Ret (answers_to (take k rs) (sw_view (ss_mem s)) (sys_tables cs s), at_clock c s)"
      "k < length rs \<longrightarrow> serve cs (rs ! k) (at_clock c s) = Throw \<and> \<not> reads_ok (ss_fs s)" by (auto simp: later_def)
    with ok show ?thesis by (intro exI [of _ "Suc k"] exI [of _ c]) (simp add: answers_to_def)
  next
    case threw
    then show ?thesis
      by (rule_tac x = 0 in exI, rule_tac x = "fs_clock (ss_fs s)" in exI) (simp add: answers_to_def)
  qed
qed

lemma sys_inv_readable: "sys_inv cs (undisturbed_sys s) \<Longrightarrow> readable cs s"
  using sys_invD(3,4) [of cs "undisturbed_sys s"] by (simp add: readable_def coll_inv_def)

text \<open>
  One request from a state whose log is whole: either it goes as on an undisturbed system, or the log
  breaks, the request has had its effect on memory or has not, and its entry is in the log or is not. Or a
  read fails; the read comes before every write, so nothing has changed then.
\<close>

definition broke_at :: "codecs \<Rightarrow> request \<Rightarrow> system \<Rightarrow> unit res \<Rightarrow> system \<Rightarrow> bool" where
  "broke_at cs r s res s' \<longleftrightarrow> \<not> omits r (sw_view (ss_mem s)) (sys_tables cs s) \<and> log_broken s' \<and> readable cs s' \<and>
     same_logs s s' \<and> reads_ok (ss_fs s') = reads_ok (ss_fs s) \<and> coll_inv cs (undisturbed (ss_fs s')) (collection (ss_tables s')) \<and> fs_ok (undisturbed (ss_fs s')) \<and>
     is_log cs (undisturbed (ss_fs s')) (Wal_GetPath (ss_wal s)) \<and> sys_tables cs s' = sys_tables cs s \<and>
     sys_log cs (undisturbed_sys s') \<in> {sys_log cs (undisturbed_sys s), sys_log cs (undisturbed_sys s) @ [request_op r]} \<and>
     (res = Inr () \<and> sw_view (ss_mem s') = (sw_view (ss_mem s))(request_key r \<mapsto> op_effect (request_op r)) \<or>
      res = Inl write_failed \<and> ss_mem s' = ss_mem s)"

lemma serve_any:
  assumes "sys_inv cs (undisturbed_sys s)"
  obtains (whole) s' where "serve cs r s = Ret (Inr (), s')" "sys_inv cs (undisturbed_sys s')"
      "sw_view (ss_mem s') = replay (accepted [r] (sw_view (ss_mem s)) (sys_tables cs s)) (sw_view (ss_mem s))"
      "sys_tables cs s' = sys_tables cs s" "same_logs s s'"
      "sys_log cs (undisturbed_sys s') =
        sys_log cs (undisturbed_sys s) @ accepted [r] (sw_view (ss_mem s)) (sys_tables cs s)"
      "reads_ok (ss_fs s') = reads_ok (ss_fs s)"
    | (broken) res s' where "serve cs r s = Ret (res, s')" "broke_at cs r s res s'"
    | (threw) "serve cs r s = Throw" "\<not> reads_ok (ss_fs s)"
proof (cases "serve cs r s = Throw \<and> \<not> reads_ok (ss_fs s)")
  case True
  then show ?thesis using threw by blast
next
  case normal: False
  note i = sys_invD [OF assms] and rd = sys_inv_readable [OF assms]
  have run: "serve cs r s = (if omits r (sw_view (ss_mem s)) (sys_tables cs s) then Ret (Inr (), s)
    else (case Wal_WriteEntry cs (request_entry r) (ss_wal s, ss_fs s) of
        (Inl e, w, fs) \<Rightarrow> Ret (Inl e, s\<lparr>ss_wal := w, ss_fs := fs\<rparr>)
      | (Inr _, w, fs) \<Rightarrow> exec_bind (request_put r (ss_mem s)) (\<lambda>m.
          Ret (Inr (), s\<lparr>ss_wal := w, ss_fs := fs, ss_mem := m\<rparr>))))"
    using serve_readable [OF rd, of r] normal unfolding read_or_throw_def by blast
  show ?thesis
  proof (cases "omits r (sw_view (ss_mem s)) (sys_tables cs s)")
    case True
    then show ?thesis by (intro whole [of s]) (simp_all add: run assms)
  next
    case False
    let ?w = "sww_writer (ss_wal s)" and ?e = "request_entry r"
    from i(5) obtain es where st: "wal_state cs (ss_fs s) ?w es []" by (auto simp: wal_inv_def)
    obtain res w fs where w: "WALWriterImpl_WriteEntry cs ?e ?w (ss_fs s) = (res, w, fs)" "wal_path w = wal_path ?w"
      "touches (os_ino (wal_f ?w)) (ss_fs s) fs" "os_ino (wal_f w) = os_ino (wal_f ?w)"
      and out: "res = Inr () \<and> wal_state cs fs w (es @ [?e]) [] \<or> res \<in> {Inr (), Inl write_failed} \<and>
        os_bad (wal_f w) \<and> (\<exists>k. fs_data fs (os_ino (wal_f ?w)) = ser_all (c_wal cs) es @ take k (d_ser (c_wal cs) ?e))"
      by (rule WriteEntry_any [OF i(1) st])
    let ?p = "Wal_GetPath (ss_wal s)"
    have p: "?p = wal_path ?w" "map_of (fs_dir (ss_fs s)) ?p = Some (os_ino (wal_f ?w))"
      using st by (simp_all add: wal_state_def Wal_GetPath_def WALWriterImpl_GetPath_def)
    note t = touches_same [OF w(3)] and t' = touches_undisturbed [OF w(3)]
    have ok: "fs_ok (undisturbed fs)" using touches_same(1) [OF t'] i(2) by simp
    have "agree_on (- {?p}) (undisturbed (ss_fs s)) (undisturbed fs)"
      using agree_on_touches [OF _ t'] i(2) p(2) by simp
    note frame = sys_log_frame [OF assms, simplified, OF this]
    have "sw_inv (ss_mem s)" using i(3) by simp
    then obtain m where m: "request_put r (ss_mem s) = Ret m" "sw_inv m"
      "sw_view m = (sw_view (ss_mem s))(request_key r \<mapsto> op_effect (request_op r))"
      and idle: "sw_idle m = sw_idle (ss_mem s)" by (rule request_put_view)
    let ?new = "\<lambda>mem. s\<lparr>ss_wal := (ss_wal s)\<lparr>sww_writer := w\<rparr>, ss_fs := fs, ss_mem := mem\<rparr>"
    have run': "serve cs r s = (case res of Inl e \<Rightarrow> Ret (Inl e, ?new (ss_mem s)) | Inr _ \<Rightarrow> Ret (Inr (), ?new m))"
      using False w(1) m(1) by (simp add: run Wal_WriteEntry_def split: sum.split)
    have path: "Wal_GetPath ((ss_wal s)\<lparr>sww_writer := w\<rparr>) = ?p"
      using w(2) p(1) by (simp add: Wal_GetPath_def WALWriterImpl_GetPath_def)
    have same: "same_logs s (?new mem) \<and> reads_ok (ss_fs (?new mem)) = reads_ok (ss_fs s)" if "sw_idle mem = sw_idle (ss_mem s)" for mem
      using that path t(2,4,8,10,13) by (simp add: same_logs_def wal_files_def order_ok_def reads_ok_def)
    have log: "sys_log cs (undisturbed_sys s) = concat (map operations_of es)"
      using wal_state_ops [OF i(1,2)] st p(1) by (simp add: sys_log_def wal_logged_def)
    from out show ?thesis
    proof
      assume o: "res = Inr () \<and> wal_state cs fs w (es @ [?e]) []"
      have "wal_inv cs ((ss_wal s)\<lparr>sww_writer := w\<rparr>, undisturbed fs)" using o ok i(1) by (auto simp: wal_inv_def)
      then have inv: "sys_inv cs (undisturbed_sys (?new m))"
        using m(2) frame assms path t(10) by (simp add: sys_inv_def)
      have "sys_log cs (undisturbed_sys (?new m)) = sys_log cs (undisturbed_sys s) @ [request_op r]"
        using wal_state_ops [OF i(1) ok, of w "es @ [?e]"] o path w(2) p(1) log by (simp add: sys_log_def wal_logged_def)
      then show ?thesis
        using run' o inv m(3) frame(2) same [OF idle] False by (intro whole [of "?new m"]) (simp_all add: sys_tables_def)
    next
      assume o: "res \<in> {Inr (), Inl write_failed} \<and> os_bad (wal_f w) \<and>
        (\<exists>k. fs_data fs (os_ino (wal_f ?w)) = ser_all (c_wal cs) es @ take k (d_ser (c_wal cs) ?e))"
      then obtain k where rf: "read_file (undisturbed fs) ?p = Some (ser_all (c_wal cs) es @ take k (d_ser (c_wal cs) ?e))"
        using p(2) t(2) by (auto simp: read_file_def)
      note part = wal_ops_part [OF i(1) ok rf]
      have lg: "is_log cs (undisturbed fs) ?p"
        using part(2) assms t(10) unfolding is_log_def sys_inv_def by simp
      have ops: "sys_log cs (undisturbed_sys (?new mem)) \<in>
          {sys_log cs (undisturbed_sys s), sys_log cs (undisturbed_sys s) @ [request_op r]}" for mem
        using part(1) log path by (simp add: sys_log_def wal_logged_def)
      have rd': "readable cs (?new mem)" if "sw_inv mem" for mem
        using that frame(1) by (simp add: readable_def coll_inv_def)
      have "broke_at cs r s res (case res of Inl _ \<Rightarrow> ?new (ss_mem s) | Inr _ \<Rightarrow> ?new m)"
        using False o ok lg ops [of m] ops [of "ss_mem s"] frame same [OF idle] same [of "ss_mem s"] rd' [OF m(2)] rd' [of "ss_mem s"] m(3) i(3)
        unfolding broke_at_def log_broken_def by (cases res) (simp_all add: sys_tables_def)
      then show ?thesis using run' by (intro broken [of res]) (cases res, simp_all)
    qed
  qed
qed

text \<open>
  A run: the first \<open>n\<close> requests have their effect on memory, the others have none. \<open>near_log\<close> is what the
  log may hold then: it may lack the last operation, or have the one that was refused.
\<close>

definition near_log :: "request list \<Rightarrow> nat \<Rightarrow> (string \<Rightarrow> Value option) \<Rightarrow> (string \<Rightarrow> Value option) \<Rightarrow> Operation list set" where
  "near_log rs n mem tab = (let ops = accepted (take n rs) mem tab in
     {ops, butlast ops} \<union> (if n < length rs then {ops @ [request_op (rs ! n)]} else {}))"

definition served_upto :: "codecs \<Rightarrow> request list \<Rightarrow> nat \<Rightarrow> system \<Rightarrow> unit res list \<Rightarrow> system \<Rightarrow> bool" where
  "served_upto cs rs n s ress s' \<longleftrightarrow> n \<le> length rs \<and>
     ress = replicate n (Inr ()) @ answers_to (drop n rs) (sw_view (ss_mem s')) (sys_tables cs s) \<and>
     sw_view (ss_mem s') = replay (accepted (take n rs) (sw_view (ss_mem s)) (sys_tables cs s)) (sw_view (ss_mem s)) \<and>
     sys_tables cs s' = sys_tables cs s \<and> same_logs s s' \<and>
     (\<exists>ops \<in> near_log rs n (sw_view (ss_mem s)) (sys_tables cs s).
       sys_log cs (undisturbed_sys s') = sys_log cs (undisturbed_sys s) @ ops) \<and>
     coll_inv cs (undisturbed (ss_fs s')) (collection (ss_tables s')) \<and> fs_ok (undisturbed (ss_fs s')) \<and>
     is_log cs (undisturbed (ss_fs s')) (Wal_GetPath (ss_wal s'))"

lemma accepted_Cons: "accepted (r # rs) mem tab =
  accepted [r] mem tab @ accepted rs (replay (accepted [r] mem tab) mem) tab"
  by simp

lemma near_log_Suc:
  "ops \<in> near_log rs n (replay (accepted [r] mem tab) mem) tab \<Longrightarrow>
   accepted [r] mem tab @ ops \<in> near_log (r # rs) (Suc n) mem tab"
  by (auto simp: near_log_def Let_def butlast_append split: if_splits)

lemma served_upto_Cons:
  assumes "served_upto cs rs n s1 ress s'" "sys_tables cs s1 = sys_tables cs s" "same_logs s s1"
    "sw_view (ss_mem s1) = replay (accepted [r] (sw_view (ss_mem s)) (sys_tables cs s)) (sw_view (ss_mem s))"
    "sys_log cs (undisturbed_sys s1) =
      sys_log cs (undisturbed_sys s) @ accepted [r] (sw_view (ss_mem s)) (sys_tables cs s)"
  shows "served_upto cs (r # rs) (Suc n) s (Inr () # ress) s'"
proof -
  note u = assms(1) [unfolded served_upto_def]
  from u obtain ops where ops: "ops \<in> near_log rs n (sw_view (ss_mem s1)) (sys_tables cs s1)"
    "sys_log cs (undisturbed_sys s') = sys_log cs (undisturbed_sys s1) @ ops" by blast
  have "accepted [r] (sw_view (ss_mem s)) (sys_tables cs s) @ ops \<in>
      near_log (r # rs) (Suc n) (sw_view (ss_mem s)) (sys_tables cs s)"
    using ops(1) assms(2,4) near_log_Suc by metis
  moreover have "sys_log cs (undisturbed_sys s') = sys_log cs (undisturbed_sys s) @
      (accepted [r] (sw_view (ss_mem s)) (sys_tables cs s) @ ops)" using ops(2) assms(5) by simp
  ultimately have "\<exists>ops \<in> near_log (r # rs) (Suc n) (sw_view (ss_mem s)) (sys_tables cs s).
      sys_log cs (undisturbed_sys s') = sys_log cs (undisturbed_sys s) @ ops" by blast
  moreover have "sw_view (ss_mem s') = replay (accepted (take (Suc n) (r # rs)) (sw_view (ss_mem s)) (sys_tables cs s))
      (sw_view (ss_mem s))" using u assms(2,4) by (simp add: replay_append)
  ultimately show ?thesis
    using u assms(2,3) same_logs_trans [of s s1 s'] by (simp add: served_upto_def)
qed

lemma broke_at_clock:
  assumes "broke_at cs r s res s1" "codecs_ok cs"
  shows "broke_at cs r s res (at_clock c s1)"
proof -
  note b = assms(1) [unfolded broke_at_def]
  have "Wal_GetPath (ss_wal s1) = Wal_GetPath (ss_wal s)" using b by (simp add: same_logs_def)
  with b at_clock_log [OF assms(2), of s1 c] have
    "sys_log cs (undisturbed_sys (at_clock c s1)) = sys_log cs (undisturbed_sys s1)" by auto
  with b show ?thesis by (simp add: broke_at_def log_broken_def undisturbed_clock)
qed

lemma served_upto_broken:
  assumes "broke_at cs r s res s1"
  shows "served_upto cs (r # rs) (if res = Inr () then 1 else 0) s (res # answers_to rs (sw_view (ss_mem s1)) (sys_tables cs s)) s1"
proof -
  note b = assms [unfolded broke_at_def]
  let ?n = "if res = Inr () then 1 else (0::nat)"
  have "[] \<in> near_log (r # rs) ?n (sw_view (ss_mem s)) (sys_tables cs s)"
    "[request_op r] \<in> near_log (r # rs) ?n (sw_view (ss_mem s)) (sys_tables cs s)"
    using b by (cases rs, simp_all add: near_log_def Let_def)+
  moreover have "sys_log cs (undisturbed_sys s1) = sys_log cs (undisturbed_sys s) @ [] \<or>
    sys_log cs (undisturbed_sys s1) = sys_log cs (undisturbed_sys s) @ [request_op r]" using b by simp
  ultimately have "\<exists>ops \<in> near_log (r # rs) ?n (sw_view (ss_mem s)) (sys_tables cs s).
    sys_log cs (undisturbed_sys s1) = sys_log cs (undisturbed_sys s) @ ops" by blast
  moreover have "Wal_GetPath (ss_wal s1) = Wal_GetPath (ss_wal s)" using b by (simp add: same_logs_def)
  ultimately show ?thesis using b unfolding served_upto_def by (auto simp: answers_to_def)
qed

text \<open>The requests up to the first one whose read fails, if there is one.\<close>

lemma serve_each_any:
  "sys_inv cs (undisturbed_sys s) \<Longrightarrow>
   \<exists>m n ress s'. m \<le> length rs \<and> serve_each cs rs s = Ret (ress, s') \<and> served_upto cs (take m rs) n s ress s' \<and>
     (m < length rs \<longrightarrow> serve cs (rs ! m) s' = Throw \<and> \<not> reads_ok (ss_fs s))"
proof (induction rs arbitrary: s)
  case Nil
  then show ?case
    using sys_log_is_log(1) [OF Nil] sys_invD(2,4) [OF Nil]
    by (intro exI [of _ 0] exI [of _ "[]"] exI [of _ s]) (simp add: served_upto_def near_log_def answers_to_def)
next
  case (Cons r rs)
  from Cons.prems show ?case
  proof (cases rule: serve_any [of cs s r])
    case (whole s1)
    have "is_log cs (undisturbed (ss_fs s1)) (Wal_GetPath (ss_wal s1))" "fs_ok (undisturbed (ss_fs s1))" "codecs_ok cs"
      using sys_log_is_log(1) [OF whole(2)] sys_invD(1,2) [OF whole(2)] by simp_all
    note lg = at_clock_log [OF this(3,2,1)]
    from Cons.IH [OF at_clock_inv [OF whole(2)], of "Suc (fs_clock (ss_fs s1))"] obtain m n ress s' where
      run: "m \<le> length rs" "serve_each cs rs (later s1) = Ret (ress, s')"
      "served_upto cs (take m rs) n (later s1) ress s'"
      "m < length rs \<longrightarrow> serve cs (rs ! m) s' = Throw \<and> \<not> reads_ok (ss_fs s)"
      using whole(7) by (auto simp: later_def)
    have "served_upto cs (r # take m rs) (Suc n) s (Inr () # ress) s'"
      by (rule served_upto_Cons [OF run(3)]) (use whole lg in \<open>simp_all add: later_def\<close>)
    then show ?thesis
      using run(1,2,4) whole(1)
      by (intro exI [of _ "Suc m"] exI [of _ "Suc n"] exI [of _ "Inr () # ress"] exI [of _ s']) simp
  next
    case (broken res s1)
    note b = broken(2) [unfolded broke_at_def]
    have "readable cs (later s1)" "log_broken (later s1)" using b by (simp_all add: later_def log_broken_def)
    from serve_each_broken [OF this, of rs] obtain k c where k: "k \<le> length rs"
      "serve_each cs rs (later s1) = Ret (answers_to (take k rs) (sw_view (ss_mem s1)) (sys_tables cs s), at_clock c s1)"
      "k < length rs \<longrightarrow> serve cs (rs ! k) (at_clock c s1) = Throw \<and> \<not> reads_ok (ss_fs s)"
      using b by (auto simp: later_def)
    note u = served_upto_broken [OF broke_at_clock [OF broken(2) sys_invD(1) [OF Cons.prems]], of "take k rs" c]
    show ?thesis
      using k broken(1) u
      by (intro exI [of _ "Suc k"] exI [of _ "if res = Inr () then 1 else 0"]
          exI [of _ "res # answers_to (take k rs) (sw_view (ss_mem s1)) (sys_tables cs s)"] exI [of _ "at_clock c s1"]) simp
  next
    case threw
    then show ?thesis
      using sys_log_is_log(1) [OF Cons.prems] sys_invD(2,4) [OF Cons.prems]
      by (intro exI [of _ 0] exI [of _ "[]"] exI [of _ s]) (simp add: served_upto_def near_log_def answers_to_def)
  qed
qed

section \<open>Restart on what is left\<close>

lemma served_upto_restart:
  assumes "served_upto cs rs n s ress s'" "sys_inv cs (undisturbed_sys s)" "durable cs (undisturbed_sys s)"
    "sw_idle (ss_mem s)" "order_ok (ss_fs s)" "wal_files (ss_fs s) = [Wal_GetPath (ss_wal s)]"
    "log_fits cs (sys_log cs (undisturbed_sys s'))"
  shows "\<exists>ops \<in> near_log rs n (sw_view (ss_mem s)) (sys_tables cs s).
    if sys_log cs (undisturbed_sys s) @ ops = [] then fst (InitializeStorages cs m (undisturbed (ss_fs s'))) = Undef
    else \<exists>so fs. InitializeStorages cs m (undisturbed (ss_fs s')) = (Ret (Inr so), fs) \<and>
      tables_view cs fs (collection (so_coll so)) ++ sw_view (so_mem so) =
        replay ops (sys_tables cs s ++ sw_view (ss_mem s))"
proof -
  note u = assms(1) [unfolded served_upto_def same_logs_def] and cs = sys_invD(1) [OF assms(2)]
  let ?fs = "undisturbed (ss_fs s')"
  from u obtain ops where ops: "ops \<in> near_log rs n (sw_view (ss_mem s)) (sys_tables cs s)"
    "sys_log cs (undisturbed_sys s') = sys_log cs (undisturbed_sys s) @ ops" by blast
  have w: "wal_files ?fs = [Wal_GetPath (ss_wal s')]" using u assms(6) by simp
  have l: "wal_ops cs ?fs (Wal_GetPath (ss_wal s')) = sys_log cs (undisturbed_sys s')"
    by (simp add: sys_log_def wal_logged_def)
  have isl: "is_log cs ?fs (Wal_GetPath (ss_wal s'))" and ok: "fs_ok ?fs"
    and coll: "coll_inv cs ?fs (collection (ss_tables s'))" using u by auto
  show ?thesis
  proof (rule bexI [OF _ ops(1)], cases "sys_log cs (undisturbed_sys s) @ ops = []")
    case True
    then have "fst (InitializeStorages cs m ?fs) = Undef"
      using InitializeStorages_empty_log [OF cs ok coll w isl] l ops(2) by simp
    with True show "if sys_log cs (undisturbed_sys s) @ ops = [] then fst (InitializeStorages cs m ?fs) = Undef
      else \<exists>so fs. InitializeStorages cs m ?fs = (Ret (Inr so), fs) \<and>
        tables_view cs fs (collection (so_coll so)) ++ sw_view (so_mem so) =
          replay ops (sys_tables cs s ++ sw_view (ss_mem s))" by simp
  next
    case False
    then have "\<forall>f \<in> set (wal_files ?fs). is_log cs ?fs f \<and> log_ok cs (wal_ops cs ?fs f)"
      using isl w l assms(7) ops(2) by (simp add: log_ok_def)
    moreover have "order_ok ?fs" using u assms(5) by (simp add: order_ok_def undisturbed_def GetDataDir_def)
    ultimately obtain so fs where r: "InitializeStorages cs m ?fs = (Ret (Inr so), fs)"
      "recovered cs m ?fs (collection (ss_tables s')) so fs"
      using InitializeStorages_recovered [OF cs] u by blast
    have wf: "\<forall>op \<in> set (sys_log cs (undisturbed_sys s')). op_wf op"
      by (rule ReadWAL_is_log [OF cs ok isl]) (simp add: l)
    note rp = Apply_MapStorage_replayed [OF wf]
    have v: "replay (sys_log cs (undisturbed_sys s')) Map.empty = replay ops (sw_view (ss_mem s))"
      using assms(3,4) ops(2) by (simp add: durable_def replay_append)
    have "tables_view cs fs (collection (so_coll so)) ++ sw_view (so_mem so) =
      sys_tables cs s ++ replay (sys_log cs (undisturbed_sys s')) Map.empty"
      using r(2) w l rp(3) sw_view_new_from [OF rp(2)] u
      by (auto simp: recovered_def Let_def sys_tables_def)
    with False r(1) v show "if sys_log cs (undisturbed_sys s) @ ops = [] then fst (InitializeStorages cs m ?fs) = Undef
      else \<exists>so fs. InitializeStorages cs m ?fs = (Ret (Inr so), fs) \<and>
        tables_view cs fs (collection (so_coll so)) ++ sw_view (so_mem so) =
          replay ops (sys_tables cs s ++ sw_view (ss_mem s))" by (auto simp: replay_map_add)
  qed
qed

section \<open>A cut metadata file\<close>

lemma undisturbed_ok: "fs_ok fs \<Longrightarrow> undisturbed (fs\<lparr>fs_fault := f\<rparr>) = fs"
  by (cases fs) (simp add: undisturbed_def fs_ok_def no_faults_def reads_ok_def fun_eq_iff)

lemma undisturbed_sys_ok: "sys_inv cs s \<Longrightarrow> undisturbed_sys (s\<lparr>ss_fs := (ss_fs s)\<lparr>fs_fault := f\<rparr>\<rparr>) = s"
  using undisturbed_ok [OF sys_invD(2)] by (simp add: undisturbed_sys_def)

lemma CreateBinaryFile_undisturbed:
  assumes "fs_fault fs (fs_clock fs) = None" "CreateBinaryFile p mode fs = (r, fs')"
  shows "CreateBinaryFile p mode (undisturbed fs) = (r, undisturbed fs')" "fs_clock fs' = Suc (fs_clock fs)"
    "fs_fault fs' = fs_fault fs" "fs_spill fs' = fs_spill fs"
  using assms by (auto simp: CreateBinaryFile_def Let_def faulty_def undisturbed_def tick_def split: option.splits if_splits)

text \<open>A file is created or emptied, and the write into it is cut after \<open>k\<close> bytes.\<close>

lemma create_cut:
  assumes ok: "fs_ok (undisturbed fs)" and q: "parent_path q \<in> set (fs_dirs fs)" "not_future (undisturbed fs) q"
    and mode: "mode \<noteq> om_in" and bs: "bs \<noteq> []"
    and fault: "fs_fault fs (fs_clock fs) = None" "fs_fault fs (fs_clock fs + 2) = Some k"
  shows "\<exists>f fs2 f1 fs3 f2 fs4. CreateBinaryFile q mode fs = (Inr f, fs2) \<and>
    os_write bs f fs2 = (\<not> fs_spill fs (fs_clock fs + 1), f1, fs3) \<and> os_flush f1 fs3 = (f2, fs4) \<and>
    wrote q (take k bs) (undisturbed fs) (undisturbed fs4)"
proof -
  have q': "parent_path q \<in> set (fs_dirs (undisturbed fs))" using q(1) by (simp add: undisturbed_def)
  obtain r fs2 where c: "CreateBinaryFile q mode fs = (r, fs2)" by (metis surj_pair)
  note u = CreateBinaryFile_undisturbed [OF fault(1) c]
  obtain i where i: "r = Inr (new_ofstream i)" "fs_ok (undisturbed fs2)" "fs_data fs2 i = []"
    "map_of (fs_dir fs2) q = Some i" "agree_on (- {q}) (undisturbed fs) (undisturbed fs2)"
    "fs_uuid_pos (undisturbed fs2) = fs_uuid_pos (undisturbed fs)"
    using create_empty [OF ok q' q(2) mode] u(1) by (metis prod.inject undisturbed_simps)
  let ?f = "(new_ofstream i)\<lparr>os_buf := bs\<rparr>"
  obtain f2 fs4 where fl: "os_flush ?f (tick fs2) = (f2, fs4)" by (metis surj_pair)
  have fa: "faulty (tick fs2) = Some k" using fault(2) u(2,3) by (simp add: faulty_def tick_def)
  have new: "os_ino ?f = i" "os_pos ?f = 0" "os_buf ?f = bs" "\<not> os_bad ?f" "\<not> os_bad (new_ofstream i)"
    "os_buf (new_ofstream i) = []" by (simp_all add: new_ofstream_def)
  note res = os_flush_result(3,4) [OF fl _ _ fa, unfolded new]
  have bad: "os_bad f2" "fs_data fs4 i = take k bs"
    using res bs i(3) new by (simp_all add: write_at_def tick_def)
  have t: "touches i fs2 fs4" using touches_trans [OF touches_tick] os_flush_touches(1) [OF fl] new(1) by simp
  note t' = touches_undisturbed [OF t]
  have "agree_on (- {q}) (undisturbed fs) (undisturbed fs4)"
    using agree_on_trans [OF i(5) agree_on_touches [OF i(2) t']] i(4) by simp
  moreover have "read_file (undisturbed fs4) q = Some (take k bs)"
    using bad(2) i(4) touches_same(2) [OF t] by (simp add: read_file_def)
  ultimately have w: "wrote q (take k bs) (undisturbed fs) (undisturbed fs4)"
    using i(2,6) touches_same(1,7) [OF t'] by (simp add: wrote_def)
  have sp: "fs_spill fs2 (fs_clock fs2) = fs_spill fs (fs_clock fs + 1)" using u(2,4) by simp
  show ?thesis
  proof (cases "fs_spill fs (fs_clock fs + 1)")
    case True
    then have "os_write bs (new_ofstream i) fs2 = (False, f2, fs4)"
      using fl bad(1) new sp by (simp add: os_write_def)
    moreover have "os_flush f2 fs4 = (f2, fs4)" using bad(1) by (simp add: os_flush_def)
    ultimately show ?thesis using True c i(1) w by auto
  next
    case False
    then have "os_write bs (new_ofstream i) fs2 = (True, ?f, tick fs2)"
      using new sp by (simp add: os_write_def)
    then show ?thesis using False c i(1) w fl by auto
  qed
qed

text \<open>
  Adding a table while the disk fails in the write of the metadata: the old metadata is gone. Unless the
  stream writes through, the failure is not even reported.
\<close>

lemma undisturbed_tick: "undisturbed (tick fs) = tick (undisturbed fs)"
  by (simp add: undisturbed_def tick_def)

lemma undisturbed_dirs: "fs_kdir (undisturbed fs) = fs_kdir fs" "fs_dirs (undisturbed fs) = fs_dirs fs"
  "fs_uuid (undisturbed fs) = fs_uuid fs" "fs_uuid_pos (undisturbed fs) = fs_uuid_pos fs"
  by (simp_all add: undisturbed_def)

lemma undisturbed_disk_entries [simp]: "disk_entries cs (undisturbed fs) = disk_entries cs fs"
  by (simp add: disk_entries_def)

lemma AppendMetadata_cut:
  fixes cs fs st
  defines "bs \<equiv> w_ser (c_meta cs) \<lparr>md_entry = disk_entries cs fs @ [\<lparr>me_filename = Some (filename (ps_path st))\<rparr>]\<rparr>"
  assumes ok: "fs_ok (undisturbed fs)" and bs: "bs \<noteq> []"
    and fault: "fs_fault fs (fs_clock fs) = None" "fs_fault fs (fs_clock fs + 1) = None"
      "fs_fault fs (fs_clock fs + 3) = Some k"
  shows "\<exists>fs'. AppendMetadata cs st kMetadata fs =
      (if fs_spill fs (fs_clock fs + 2) then Inl (MakeError kUnknown ''failed to write metadata'') else Inr (), fs') \<and>
    wrote (meta_path fs) (take k bs) (undisturbed fs) (undisturbed fs')"
proof -
  have r: "\<exists>r. ReadMetadata cs kMetadata fs = (r, tick fs) \<and>
    (case r of Inl _ \<Rightarrow> [] | Inr m \<Rightarrow> md_entry m) = disk_entries cs fs"
    using fault(1) unfolding ReadMetadata_def meta_path_def [symmetric]
    by (auto simp: OpenBinaryFile_def Let_def disk_entries_def read_file_def faulty_def split: option.splits)
  then obtain r where r: "ReadMetadata cs kMetadata fs = (r, tick fs)"
    "(case r of Inl _ \<Rightarrow> [] | Inr m \<Rightarrow> md_entry m) = disk_entries cs fs" by blast
  have q: "path_append (GetDataDir (tick fs)) kMetadata = meta_path fs" by (simp add: meta_path_def GetDataDir_def tick_def)
  have par: "parent_path (meta_path fs) \<in> set (fs_dirs (tick fs))"
    using meta_path_parent [OF ok] ok by (simp add: fs_ok_def datadir_ok_def tick_def undisturbed_dirs)
  have nf: "not_future (undisturbed (tick fs)) (meta_path fs)"
    using meta_not_future [OF ok, of "[]"]
    by (simp add: not_future_def format_path_def GetDataDir_def tick_def undisturbed_dirs)
  have ok': "fs_ok (undisturbed (tick fs))" using ok by (simp add: undisturbed_tick)
  obtain f fs2 f1 fs3 f2 fs4 where w: "CreateBinaryFile (meta_path fs) om_trunc (tick fs) = (Inr f, fs2)"
    "os_write bs f fs2 = (\<not> fs_spill fs (fs_clock fs + 2), f1, fs3)" "os_flush f1 fs3 = (f2, fs4)"
    "wrote (meta_path fs) (take k bs) (undisturbed (tick fs)) (undisturbed fs4)"
    using create_cut [OF ok' par nf, of om_trunc bs k] bs fault(2,3)
    by (auto simp: tick_def eval_nat_numeral)
  have m: "(case r of Inl x \<Rightarrow> \<lparr>md_entry = []\<rparr> | Inr m \<Rightarrow> m)\<lparr>md_entry :=
      md_entry (case r of Inl x \<Rightarrow> \<lparr>md_entry = []\<rparr> | Inr m \<Rightarrow> m) @ [e]\<rparr> =
    \<lparr>md_entry = disk_entries cs fs @ [e]\<rparr>" for e
    using r(2) by (cases r) auto
  have "wrote (meta_path fs) (take k bs) (undisturbed fs) (undisturbed fs4)"
    using w(4) agree_on_trans [OF agree_on_tick, of _ "undisturbed fs" "undisturbed fs4"]
    by (simp add: wrote_def undisturbed_tick)
  then show ?thesis
    using w(1-3) r(1) q m unfolding bs_def by (simp add: AppendMetadata_def PersistentStorage_Path_def Let_def)
qed

lemma Collection_Add_cut:
  fixes cs fs st
  defines "bs \<equiv> w_ser (c_meta cs) \<lparr>md_entry = disk_entries cs fs @ [\<lparr>me_filename = Some (filename (ps_path st))\<rparr>]\<rparr>"
  assumes "codecs_ok cs" "fs_ok (undisturbed fs)"
    and fault: "fs_fault fs (fs_clock fs) = None" "fs_fault fs (fs_clock fs + 1) = None"
      "fs_fault fs (fs_clock fs + 3) = Some k"
    and lost: "w_parse (c_meta cs) (take k bs) \<in> {None, Some \<lparr>md_entry = []\<rparr>}"
  shows "\<exists>fs1. Collection_Add cs st c fs = (if fs_spill fs (fs_clock fs + 2)
      then (Inl (MakeError kUnknown ''failed to write metadata''), c, fs1)
      else (Inr (), c\<lparr>collection := collection c @ [st]\<rparr>, fs1)) \<and>
    fs_ok (undisturbed fs1) \<and> coll_inv cs (undisturbed fs1) [] \<and>
    agree_on (- {meta_path fs}) (undisturbed fs) (undisturbed fs1)"
proof -
  have "bs \<noteq> []"
  proof
    assume b: "bs = []"
    have "w_parse (c_meta cs) bs = Some \<lparr>md_entry = disk_entries cs fs @ [\<lparr>me_filename = Some (filename (ps_path st))\<rparr>]\<rparr>"
      unfolding bs_def by (rule whole_parse_ser [OF codecs_okD(4) [OF assms(2)]])
    then show False using lost b by simp
  qed
  from AppendMetadata_cut [OF assms(3) this [unfolded bs_def] fault] obtain fs1 where
    a: "AppendMetadata cs st kMetadata fs =
      (if fs_spill fs (fs_clock fs + 2) then Inl (MakeError kUnknown ''failed to write metadata'') else Inr (), fs1)"
    "wrote (meta_path fs) (take k bs) (undisturbed fs) (undisturbed fs1)" unfolding bs_def by blast
  then have w: "fs_ok (undisturbed fs1)" "agree_on (- {meta_path fs}) (undisturbed fs) (undisturbed fs1)"
    "read_file (undisturbed fs1) (meta_path fs) = Some (take k bs)" by (auto simp: wrote_def)
  have "meta_path fs1 = meta_path fs" using meta_path_env [OF agree_on_env [OF w(2)]] by simp
  then have "disk_entries cs (undisturbed fs1) = []"
    using w(3) lost by (auto simp: disk_entries_def)
  then have "coll_inv cs (undisturbed fs1) []" by (simp add: coll_inv_def List.map_filter_def)
  then show ?thesis using a(1) w by (simp add: Collection_Add_def)
qed

text \<open>Nothing brings the tables back: the next start sees none, and the next table is then the only one.\<close>

lemma cut_metadata_loses_tables:
  assumes "codecs_ok cs" "fs_ok fs1" "coll_inv cs fs1 []" "distinct (map se_key data)"
    "length (table_bytes cs (sort data)) < 2 ^ 64"
  shows "\<exists>fs2 st fs3 fs4 n. new_PersistentStorageCollection cs fs1 = (\<lparr>collection = []\<rparr>, fs2) \<and>
    NewPersistentStorage cs data fs2 = (Inr st, fs3) \<and>
    Collection_Add cs st \<lparr>collection = []\<rparr> fs3 = (Inr (), \<lparr>collection = [st]\<rparr>, fs4) \<and>
    new_PersistentStorageCollection cs fs4 = (\<lparr>collection = [st]\<rparr>, fs4\<lparr>fs_clock := n\<rparr>) \<and>
    tables_view cs fs4 [st] = entries_view data"
proof -
  from new_PersistentStorageCollection_restart [OF assms(2,3)] obtain m where
    n: "new_PersistentStorageCollection cs fs1 = (\<lparr>collection = []\<rparr>, fs1\<lparr>fs_clock := m\<rparr>)" by blast
  let ?fs2 = "fs1\<lparr>fs_clock := m\<rparr>"
  have "agree_on (insert (meta_path fs1) (table_files fs1)) fs1 ?fs2" by (simp add: agree_on_def same_env_def)
  then have "coll_inv cs ?fs2 []" by (rule coll_inv_agree [OF assms(3)])
  with persist_table [OF assms(1) _ _ assms(4,5), of ?fs2 "\<lparr>collection = []\<rparr>"] assms(2) obtain st fs3 fs4 where
    "NewPersistentStorage cs data ?fs2 = (Inr st, fs3)"
    "Collection_Add cs st \<lparr>collection = []\<rparr> fs3 = (Inr (), \<lparr>collection = [st]\<rparr>, fs4)"
    "persisted cs ?fs2 [] data st fs4" by auto
  then show ?thesis
    using n new_PersistentStorageCollection_restart [of fs4 cs "[st]"]
    by (fastforce simp: persisted_def tables_view_def entries_view_def)
qed

end
