(* ===== verification/Swappable_Safety.thy ===== *)
theory Swappable_Safety
  imports Swappable
begin

text \<open>
  Memory safety of \<open>SwappableMemoryStorage\<close> for calls that run one after the other: what is on the
  heap, which calls are legal, and that nothing leaks.
\<close>

text \<open>The heap holds the objects of the storage and nothing else.\<close>

definition sw_exact :: "SwappableMemoryStorage \<Rightarrow> bool" where
  "sw_exact s \<longleftrightarrow> dom (h_own (sw_heap s)) = {a. reader_first s = Some a \<or> reader_second s = Some a} \<and>
     dom (h_ref (sw_heap s)) = {a. writer s = Some a} \<and>
     dom (h_maps (sw_heap s)) = {p. \<exists>c \<in> ran (h_own (sw_heap s)). orc_ptr c = Some p}"

datatype sw_call = CallGet string | CallInsert KwPair | CallRemove string u64 | CallSize
  | CallCollect | CallRemoveCollected

text \<open>A call, of whose results only the state is kept.\<close>

fun sw_perform :: "sw_call \<Rightarrow> SwappableMemoryStorage \<Rightarrow> SwappableMemoryStorage exec" where
  "sw_perform (CallGet k) s = exec_bind (Swappable_Get k s) (\<lambda>(_, s1). Ret s1)"
| "sw_perform (CallInsert p) s = Swappable_Insert p s"
| "sw_perform (CallRemove k v) s = Swappable_Remove k v s"
| "sw_perform CallSize s = exec_bind (Swappable_Size s) (\<lambda>(_, s1). Ret s1)"
| "sw_perform CallCollect s = exec_bind (SwappableCollect s) (\<lambda>(_, s1). Ret s1)"
| "sw_perform CallRemoveCollected s = RemoveCollected s"

text \<open>The protocol of the calls: what was collected is removed once, after it was collected.\<close>

fun call_mode :: "sw_call \<Rightarrow> bool \<Rightarrow> bool" where
  "call_mode CallCollect c = True"
| "call_mode CallRemoveCollected c = False"
| "call_mode _ c = c"

inductive sw_calls :: "SwappableMemoryStorage \<Rightarrow> bool \<Rightarrow> SwappableMemoryStorage \<Rightarrow> bool \<Rightarrow> bool"
  for s0 :: SwappableMemoryStorage and c0 :: bool where
  calls_start: "sw_calls s0 c0 s0 c0"
| calls_step: "sw_calls s0 c0 s c \<Longrightarrow> call = CallRemoveCollected \<longrightarrow> c \<Longrightarrow> sw_perform call s = Ret s' \<Longrightarrow>
    sw_calls s0 c0 s' (call_mode call c)"

definition sw_typed :: "bool \<Rightarrow> SwappableMemoryStorage \<Rightarrow> bool" where
  "sw_typed c s \<longleftrightarrow> sw_exact s \<and> (\<exists>ma mb. sw_rep s c ma mb)"

lemma new_Swappable_heap: "new_Swappable_from m = \<lparr>sw_heap = \<lparr>
    h_maps = [0 \<mapsto> m, 1 \<mapsto> new_MapStorage], h_own = [2 \<mapsto> ORC_new 1, 3 \<mapsto> ORC_new 0],
    h_ref = [4 \<mapsto> RC_new (Some 0)], h_next = 5\<rparr>, reader_first = Some 2, reader_second = Some 3, writer = Some 4\<rparr>"
  "new_Swappable = \<lparr>sw_heap = \<lparr>h_maps = [0 \<mapsto> new_MapStorage, 2 \<mapsto> new_MapStorage],
    h_own = [1 \<mapsto> ORC_new 0, 3 \<mapsto> ORC_new 2], h_ref = [4 \<mapsto> RC_new (Some 2)], h_next = 5\<rparr>,
    reader_first = Some 1, reader_second = Some 3, writer = Some 4\<rparr>"
  by (simp_all add: new_Swappable_def new_Swappable_from_def alloc_map_def alloc_own_new_def alloc_own_def
      alloc_ref_def empty_heap_def ORC_GetUnderlying_def ORC_new_def eval_nat_numeral)

lemma owned_two:
  assumes "a \<noteq> b"
  shows "{p. \<exists>c \<in> ran [a \<mapsto> ORC_new pa, b \<mapsto> ORC_new pb]. orc_ptr c = Some p} = {pa, pb}"
proof -
  have "ran [a \<mapsto> ORC_new pa, b \<mapsto> ORC_new pb] = {ORC_new pa, ORC_new pb}" using assms by auto
  then show ?thesis by (auto simp: ORC_new_def)
qed

lemma sw_typed_new: "sw_typed False new_Swappable"
proof -
  note owned_two [of "1 :: nat" 3 0 2]
  then have "sw_exact new_Swappable" unfolding sw_exact_def new_Swappable_heap by auto
  then show ?thesis using rep_new by (auto simp: sw_typed_def)
qed

lemma sw_typed_new_from: "ms_inv m \<Longrightarrow> sw_typed False (new_Swappable_from m)"
proof -
  assume m: "ms_inv m"
  note owned_two [of "2 :: nat" 3 1 0]
  then have "sw_exact (new_Swappable_from m)" unfolding sw_exact_def new_Swappable_heap by auto
  then show ?thesis using rep_new_from [OF m] by (auto simp: sw_typed_def)
qed

lemma sw_exact_write:
  assumes "sw_rep s c ma mb" "sw_exact s"
    "exec_bind (with_writer (writer s) f (sw_heap s)) (\<lambda>(r, h1). Ret (r, s\<lparr>sw_heap := h1\<rparr>)) = Ret (r, s')"
  shows "sw_exact s'"
proof -
  from assms(1) obtain w q where w: "writer s = Some w" "h_ref (sw_heap s) w = Some (RC_new (Some q))"
    "h_maps (sw_heap s) q = Some (if c then ma else mb)" unfolding sw_rep_def by (cases c) auto
  from assms(3) have "s' = s\<lparr>sw_heap := (sw_heap s)\<lparr>h_maps := (h_maps (sw_heap s))(q \<mapsto> snd (f (if c then ma else mb)))\<rparr>\<rparr>"
    by (simp add: with_writer_eq [OF w])
  moreover have "q \<in> dom (h_maps (sw_heap s))" using w(3) by blast
  ultimately show ?thesis using assms(2) by (simp add: sw_exact_def insert_absorb)
qed

lemma sw_exact_Collect:
  assumes "sw_rep s c ma mb" "sw_exact s" "SwappableCollect s = Ret (es, s')"
  shows "sw_exact s'"
proof -
  from assms(1) obtain a b w pa pb q where
    p: "reader_first s = Some a" "reader_second s = Some b" "writer s = Some w" "w < h_next (sw_heap s)"
    and o: "h_own (sw_heap s) a = Some (ORC_new pa)" "h_own (sw_heap s) b = Some (ORC_new pb)"
      "h_ref (sw_heap s) w = Some (RC_new (Some q))" "h_maps (sw_heap s) pb = Some mb"
    unfolding sw_rep_def by blast
  let ?n = "h_next (sw_heap s)"
  from assms(3) [symmetric] have "s' = s\<lparr>sw_heap := (sw_heap s)\<lparr>h_ref := (h_ref (sw_heap s))(?n \<mapsto> RC_new (Some pa), w := None),
      h_next := Suc ?n\<rparr>, writer := Some ?n\<rparr>"
    using p o by (simp add: SwappableCollect_def deref_def alloc_ref_def delete_ref_def counter_defs
        MapStorage_GetUnderlying_def Let_def)
  then show ?thesis using assms(2) p by (auto simp: sw_exact_def)
qed

lemma sw_exact_RemoveCollected:
  assumes "sw_rep s True ma mb" "sw_exact s" "RemoveCollected s = Ret s'"
  shows "sw_exact s'"
proof -
  from assms(1) obtain a b pa pb where
    p: "reader_first s = Some a" "reader_second s = Some b" "a \<noteq> b" "pa \<noteq> pb"
      "a < h_next (sw_heap s)" "b < h_next (sw_heap s)" "pa < h_next (sw_heap s)" "pb < h_next (sw_heap s)"
    and o: "h_own (sw_heap s) a = Some (ORC_new pa)" "h_own (sw_heap s) b = Some (ORC_new pb)"
      "h_maps (sw_heap s) pa = Some ma" "h_maps (sw_heap s) pb = Some mb"
    unfolding sw_rep_def by blast
  let ?n = "h_next (sw_heap s)"
  from assms(3) [symmetric] have s': "s' = s\<lparr>sw_heap := (sw_heap s)\<lparr>h_maps := (h_maps (sw_heap s))(pb := None, ?n \<mapsto> new_MapStorage),
      h_own := (h_own (sw_heap s))(b := None, Suc ?n \<mapsto> ORC_new ?n), h_next := Suc (Suc ?n)\<rparr>,
      reader_second := Some a, reader_first := Some (Suc ?n)\<rparr>"
    using p o by (simp add: RemoveCollected_def delete_own_def deref_def counter_defs alloc_own_new_def
        alloc_map_def alloc_own_def Let_def)
  have "dom (h_own (sw_heap s)) = {a, b}" using assms(2) p by (auto simp: sw_exact_def)
  then have own: "h_own (sw_heap s) = [a \<mapsto> ORC_new pa, b \<mapsto> ORC_new pb]" using o(1,2) p(3)
    by (intro ext) (auto dest: sym)
  have "dom (h_maps (sw_heap s)) = {pa, pb}"
    using assms(2) unfolding sw_exact_def own owned_two [OF p(3)] by blast
  then have "dom (h_maps (sw_heap s')) = {pa, ?n}" using p(4) s' by auto
  moreover have "h_own (sw_heap s') = [a \<mapsto> ORC_new pa, Suc ?n \<mapsto> ORC_new ?n]"
    using s' own p(3,5) by (auto simp: fun_eq_iff)
  then have "dom (h_own (sw_heap s')) = {a, Suc ?n}"
    "{p. \<exists>c \<in> ran (h_own (sw_heap s')). orc_ptr c = Some p} = {pa, ?n}"
    using p(5) owned_two [of a "Suc ?n" pa ?n] by auto
  ultimately show ?thesis using assms(2) s' by (auto simp: sw_exact_def)
qed

text \<open>Every legal call returns and leaves the heap exact.\<close>

lemma sw_typed_perform:
  assumes "sw_typed c s" "call = CallRemoveCollected \<longrightarrow> c"
  shows "\<exists>s'. sw_perform call s = Ret s' \<and> sw_typed (call_mode call c) s'"
proof -
  from assms(1) obtain ma mb where r: "sw_rep s c ma mb" and e: "sw_exact s" by (auto simp: sw_typed_def)
  show ?thesis
  proof (cases call)
    case (CallGet k)
    then show ?thesis using Swappable_Get_view [of s k] rep_inv [OF r] assms(1) by simp
  next
    case (CallInsert p)
    from rep_Insert [OF r, of p] obtain s' where i: "Swappable_Insert p s = Ret s'" "\<exists>ma mb. sw_rep s' c ma mb" by blast
    then have "exec_bind (with_writer (writer s) (\<lambda>m. ((), MapStorage_Insert p m)) (sw_heap s))
        (\<lambda>(r, h1). Ret (r, s\<lparr>sw_heap := h1\<rparr>)) = Ret ((), s')"
      by (auto simp: Swappable_Insert_def exec_bind_Ret_iff)
    from sw_exact_write [OF r e this] i CallInsert show ?thesis by (simp add: sw_typed_def)
  next
    case (CallRemove k v)
    from rep_Remove [OF r, of k v] obtain s' where i: "Swappable_Remove k v s = Ret s'" "\<exists>ma mb. sw_rep s' c ma mb" by blast
    then have "exec_bind (with_writer (writer s) (\<lambda>m. ((), MapStorage_Remove k v m)) (sw_heap s))
        (\<lambda>(r, h1). Ret (r, s\<lparr>sw_heap := h1\<rparr>)) = Ret ((), s')"
      by (auto simp: Swappable_Remove_def exec_bind_Ret_iff)
    from sw_exact_write [OF r e this] i CallRemove show ?thesis by (simp add: sw_typed_def)
  next
    case CallSize
    from rep_Size [OF r] obtain n s' where i: "Swappable_Size s = Ret (n, s')" "\<exists>ma mb. sw_rep s' c ma mb" by blast
    from sw_exact_write [OF r e i(1) [unfolded Swappable_Size_def]] i CallSize show ?thesis by (simp add: sw_typed_def)
  next
    case CallCollect
    from rep_Collect [OF r] obtain es s' where i: "SwappableCollect s = Ret (es, s')" "\<exists>ma mb. sw_rep s' True ma mb" by blast
    from sw_exact_Collect [OF r e i(1)] i CallCollect show ?thesis by (simp add: sw_typed_def)
  next
    case CallRemoveCollected
    with assms(2) r have r: "sw_rep s True ma mb" by simp
    from rep_RemoveCollected [OF r] obtain s' where i: "RemoveCollected s = Ret s'" "\<exists>ma mb. sw_rep s' False ma mb" by blast
    from sw_exact_RemoveCollected [OF r e i(1)] i CallRemoveCollected show ?thesis by (simp add: sw_typed_def)
  qed
qed

lemma sw_calls_typed: "sw_calls s0 c0 s c \<Longrightarrow> sw_typed c0 s0 \<Longrightarrow> sw_typed c s"
proof (induction rule: sw_calls.induct)
  case (calls_step s c call s')
  from sw_typed_perform [OF calls_step.IH [OF calls_step.prems] calls_step.hyps(2)] calls_step.hyps(3) show ?case by auto
qed

text \<open>The destructor frees everything.\<close>

lemma sw_typed_destroy:
  assumes "sw_typed c s"
  shows "\<exists>h. Swappable_destroy s = Ret h \<and> h_own h = Map.empty \<and> h_ref h = Map.empty \<and> h_maps h = Map.empty"
proof -
  from assms obtain a b w pa pb q where
    p: "reader_first s = Some a" "reader_second s = Some b" "writer s = Some w" "a \<noteq> b"
    and o: "h_own (sw_heap s) a = Some (ORC_new pa)" "h_own (sw_heap s) b = Some (ORC_new pb)"
      "h_ref (sw_heap s) w = Some (RC_new (Some q))" and e: "sw_exact s"
    unfolding sw_typed_def sw_rep_def by blast
  have "dom (h_own (sw_heap s)) = {a, b}" "dom (h_ref (sw_heap s)) = {w}" using e p by (auto simp: sw_exact_def)
  then have own: "h_own (sw_heap s) = [a \<mapsto> ORC_new pa, b \<mapsto> ORC_new pb]" "h_ref (sw_heap s) = [w \<mapsto> RC_new (Some q)]"
    using o p(4) by (intro ext; auto dest: sym)+
  have maps: "dom (h_maps (sw_heap s)) = {pa, pb}" using e unfolding sw_exact_def own owned_two [OF p(4)] by blast
  have "(h_maps (sw_heap s))(pa := None, pb := None) = Map.empty" using maps by (intro ext) auto
  moreover have "[a \<mapsto> ORC_new pa, b \<mapsto> ORC_new pb](a := None, b := None) = Map.empty" by (intro ext) auto
  ultimately show ?thesis
    using p own by (simp add: Swappable_destroy_def delete_own_def delete_ref_def deref_def counter_defs Let_def)
qed

text \<open>Removing outside a collection deletes the map that the writer refers to.\<close>

lemma RemoveCollected_dangles:
  assumes "sw_typed False s"
  shows "\<exists>s'. RemoveCollected s = Ret s' \<and> Swappable_Insert p s' = Undef"
proof -
  from assms obtain ma mb a b w pa pb where
    p: "reader_first s = Some a" "reader_second s = Some b" "writer s = Some w" "a \<noteq> b" "pa \<noteq> pb"
      "pb < h_next (sw_heap s)"
    and o: "h_own (sw_heap s) a = Some (ORC_new pa)" "h_own (sw_heap s) b = Some (ORC_new pb)"
      "h_maps (sw_heap s) pb = Some mb" "h_ref (sw_heap s) w = Some (RC_new (Some pb))"
    unfolding sw_typed_def sw_rep_def by auto
  then show ?thesis
    by (simp add: RemoveCollected_def delete_own_def deref_def counter_defs alloc_own_new_def alloc_map_def
        alloc_own_def Let_def Swappable_Insert_def with_writer_def)
qed

end
