(* ===== verification/Swappable_Threads.thy ===== *)
theory Swappable_Threads
  imports Storage_System Swappable_Safety
begin

text \<open>
  Threads on one \<open>SwappableMemoryStorage\<close>: the accesses to its atomic members, its counters and its
  maps are steps of their own, in any order. The sequential operations of \<^theory_text>\<open>Swappable\<close> are the runs of
  one thread. A step that uses a deleted object is undefined; a step that waits for a counter hangs
  as long as it is not zero.
\<close>

section \<open>Steps of the calls\<close>

text \<open>
  A write: the writer pointer is loaded, a user added to the counter, the map written, the user
  taken back. A lookup does the same on the first reader and, if it finds nothing, on the second.
\<close>

datatype call_pc =
    PutStart request
  | PutLoaded request nat
  | PutAdded request nat "nat option"
  | PutWritten nat
  | PutDone
  | GetStart string bool
  | GetLoaded string bool nat
  | GetAdded string bool nat "nat option"
  | GetRead string bool nat "Value res"
  | GetDone string "Value res"

definition put :: "request \<Rightarrow> MapStorage \<Rightarrow> MapStorage" where
  "put r m = (case r of RInsert p \<Rightarrow> MapStorage_Insert p m | RRemove k v \<Rightarrow> MapStorage_Remove k v m)"

definition add_ref :: "nat \<Rightarrow> heap \<Rightarrow> (nat option \<times> heap) exec" where
  "add_ref w h = exec_bind (deref (h_ref h) (Some w)) (\<lambda>(a, c).
     let (p, c1) = RC_Add c in Ret (p, h\<lparr>h_ref := (h_ref h)(a \<mapsto> c1)\<rparr>))"

definition remove_ref :: "nat \<Rightarrow> heap \<Rightarrow> heap exec" where
  "remove_ref w h = exec_bind (deref (h_ref h) (Some w)) (\<lambda>(a, c). Ret (h\<lparr>h_ref := (h_ref h)(a \<mapsto> RC_Remove c)\<rparr>))"

definition add_own :: "nat \<Rightarrow> heap \<Rightarrow> (nat option \<times> heap) exec" where
  "add_own b h = exec_bind (deref (h_own h) (Some b)) (\<lambda>(a, c).
     let (p, c1) = ORC_Add c in Ret (p, h\<lparr>h_own := (h_own h)(a \<mapsto> c1)\<rparr>))"

definition remove_own :: "nat \<Rightarrow> heap \<Rightarrow> heap exec" where
  "remove_own b h = exec_bind (deref (h_own h) (Some b)) (\<lambda>(a, c). Ret (h\<lparr>h_own := (h_own h)(a \<mapsto> ORC_Remove c)\<rparr>))"

definition write_map :: "request \<Rightarrow> nat option \<Rightarrow> heap \<Rightarrow> heap exec" where
  "write_map r mp h = exec_bind (deref (h_maps h) mp) (\<lambda>(p, m). Ret (h\<lparr>h_maps := (h_maps h)(p \<mapsto> put r m)\<rparr>))"

fun call_next :: "call_pc \<Rightarrow> SwappableMemoryStorage \<Rightarrow> (call_pc \<times> heap) exec" where
  "call_next (PutStart r) s = (case writer s of None \<Rightarrow> Undef | Some w \<Rightarrow> Ret (PutLoaded r w, sw_heap s))"
| "call_next (PutLoaded r w) s = exec_bind (add_ref w (sw_heap s)) (\<lambda>(mp, h). Ret (PutAdded r w mp, h))"
| "call_next (PutAdded r w mp) s = exec_bind (write_map r mp (sw_heap s)) (\<lambda>h. Ret (PutWritten w, h))"
| "call_next (PutWritten w) s = exec_bind (remove_ref w (sw_heap s)) (\<lambda>h. Ret (PutDone, h))"
| "call_next PutDone s = Ret (PutDone, sw_heap s)"
| "call_next (GetStart k second) s = (case (if second then reader_second s else reader_first s) of
     None \<Rightarrow> Undef | Some a \<Rightarrow> Ret (GetLoaded k second a, sw_heap s))"
| "call_next (GetLoaded k second a) s = exec_bind (add_own a (sw_heap s)) (\<lambda>(mp, h). Ret (GetAdded k second a mp, h))"
| "call_next (GetAdded k second a mp) s = exec_bind (deref (h_maps (sw_heap s)) mp)
     (\<lambda>(_, m). Ret (GetRead k second a (MapStorage_Get k m), sw_heap s))"
| "call_next (GetRead k second a res) s = exec_bind (remove_own a (sw_heap s))
     (\<lambda>h. Ret (if second \<or> has_value res then GetDone k res else GetStart k True, h))"
| "call_next (GetDone k res) s = Ret (GetDone k res, sw_heap s)"

text \<open>
  With \<open>fused\<close>, loading the pointer and adding a user are one step. The code has two: this is the
  variant in which they cannot be separated.
\<close>

fun starts :: "call_pc \<Rightarrow> bool" where
  "starts (PutStart r) = True"
| "starts (GetStart k second) = True"
| "starts _ = False"

definition call_step :: "bool \<Rightarrow> call_pc \<Rightarrow> SwappableMemoryStorage \<Rightarrow> (call_pc \<times> heap) exec" where
  "call_step fused pc s =
     (if fused \<and> starts pc then exec_bind (call_next pc s) (\<lambda>(pc1, h). call_next pc1 (s\<lparr>sw_heap := h\<rparr>))
      else call_next pc s)"

section \<open>Steps of the job\<close>

text \<open>The numbered steps of \<open>Collect\<close> and \<open>RemoveCollected\<close>; only one job runs at a time.\<close>

datatype job_pc =
    JobIdle
  | JobSwapped nat
  | JobDeleted
  | JobCopied "StorageEntry list"
  | JobReplaced "StorageEntry list" "nat option"
  | JobFreed "StorageEntry list"

fun job_step :: "job_pc \<Rightarrow> SwappableMemoryStorage \<Rightarrow> (job_pc \<times> SwappableMemoryStorage) exec" where
  "job_step JobIdle s = exec_bind (deref (h_own (sw_heap s)) (reader_first s)) (\<lambda>(_, c).
     let (w, h) = alloc_ref (ORC_GetUnderlying c) (sw_heap s) in
     case writer s of None \<Rightarrow> Undef | Some old \<Rightarrow> Ret (JobSwapped old, s\<lparr>sw_heap := h, writer := Some w\<rparr>))"
| "job_step (JobSwapped old) s = exec_bind (delete_ref (Some old) (sw_heap s)) (\<lambda>h. Ret (JobDeleted, s\<lparr>sw_heap := h\<rparr>))"
| "job_step JobDeleted s = exec_bind (deref (h_own (sw_heap s)) (reader_second s)) (\<lambda>(_, c).
     exec_bind (deref (h_maps (sw_heap s)) (ORC_GetUnderlying c)) (\<lambda>(_, m).
       Ret (JobCopied (ToEntries (MapStorage_GetUnderlying m)), s)))"
| "job_step (JobCopied es) s = Ret (JobReplaced es (reader_second s), s\<lparr>reader_second := reader_first s\<rparr>)"
| "job_step (JobReplaced es old) s = exec_bind (delete_own old (sw_heap s)) (\<lambda>h. Ret (JobFreed es, s\<lparr>sw_heap := h\<rparr>))"
| "job_step (JobFreed es) s = (let (a, h) = alloc_own_new (sw_heap s) in
     Ret (JobIdle, s\<lparr>sw_heap := h, reader_first := Some a\<rparr>))"

section \<open>The sequential operations are runs of one thread\<close>

lemma put_steps:
  "with_writer (writer s) (\<lambda>m. ((), put r m)) (sw_heap s) =
     exec_bind (call_next (PutStart r) s) (\<lambda>(pc, h). exec_bind (call_next pc (s\<lparr>sw_heap := h\<rparr>))
       (\<lambda>(pc, h). exec_bind (call_next pc (s\<lparr>sw_heap := h\<rparr>)) (\<lambda>(pc, h). exec_bind (call_next pc (s\<lparr>sw_heap := h\<rparr>))
         (\<lambda>(pc, h). Ret ((), h)))))"
proof (cases "writer s")
  case (Some w)
  show ?thesis
  proof (cases "h_ref (sw_heap s) w")
    case (Some c)
    note w = \<open>writer s = Some w\<close> Some
    show ?thesis
    proof (cases "rc_ptr c")
      case (Some p)
      then show ?thesis using w
        by (cases "h_maps (sw_heap s) p")
          (simp_all add: with_writer_def add_ref_def remove_ref_def write_map_def deref_def RC_Add_def)
    qed (use w in \<open>simp add: with_writer_def add_ref_def write_map_def deref_def RC_Add_def\<close>)
  qed (use Some in \<open>simp add: with_writer_def add_ref_def deref_def\<close>)
qed (simp add: with_writer_def deref_def)

lemma collect_steps:
  assumes "writer s \<noteq> None"
  shows "exec_bind (job_step JobIdle s) (\<lambda>(pc, s). exec_bind (job_step pc s) (\<lambda>(pc, s). job_step pc s)) =
    exec_bind (SwappableCollect s) (\<lambda>(es, s). Ret (JobCopied es, s))"
  using assms
proof (cases "reader_first s")
  case (Some a)
  show ?thesis
  proof (cases "h_own (sw_heap s) a")
    case (Some c)
    note a = \<open>reader_first s = Some a\<close> Some
    obtain w h where r: "alloc_ref (ORC_GetUnderlying c) (sw_heap s) = (w, h)" by (metis surj_pair)
    show ?thesis using assms a r
      by (cases "delete_ref (writer s) h") (auto simp: SwappableCollect_def deref_def exec_bind_assoc case_prod_beta split: option.split)
  qed (use Some in \<open>simp add: SwappableCollect_def deref_def\<close>)
qed (simp add: SwappableCollect_def deref_def)

lemma remove_collected_steps:
  "exec_bind (job_step (JobCopied es) s) (\<lambda>(pc, s). exec_bind (job_step pc s) (\<lambda>(pc, s). job_step pc s)) =
    exec_bind (RemoveCollected s) (\<lambda>s. Ret (JobIdle, s))"
  by (cases "delete_own (reader_second s) (sw_heap s)") (simp_all add: RemoveCollected_def Let_def case_prod_beta)

section \<open>Interleavings\<close>

record race =
  rs_sw :: SwappableMemoryStorage
  rs_calls :: "call_pc list"
  rs_job :: job_pc

text \<open>Any thread that is not waiting makes its next step; one that is done may start another call.\<close>

inductive race_step :: "bool \<Rightarrow> race \<Rightarrow> race \<Rightarrow> bool" for fused :: bool where
  step_call: "i < length (rs_calls x) \<Longrightarrow> call_step fused (rs_calls x ! i) (rs_sw x) = Ret (pc, h) \<Longrightarrow>
    race_step fused x (x\<lparr>rs_sw := (rs_sw x)\<lparr>sw_heap := h\<rparr>, rs_calls := (rs_calls x)[i := pc]\<rparr>)"
| step_job: "job_step (rs_job x) (rs_sw x) = Ret (j, s) \<Longrightarrow> race_step fused x (x\<lparr>rs_sw := s, rs_job := j\<rparr>)"
| step_put: "i < length (rs_calls x) \<Longrightarrow> rs_calls x ! i = PutDone \<or> rs_calls x ! i = GetDone k res \<Longrightarrow>
    race_step fused x (x\<lparr>rs_calls := (rs_calls x)[i := PutStart r]\<rparr>)"
| step_get: "i < length (rs_calls x) \<Longrightarrow> rs_calls x ! i = PutDone \<or> rs_calls x ! i = GetDone k res \<Longrightarrow>
    race_step fused x (x\<lparr>rs_calls := (rs_calls x)[i := GetStart k' False]\<rparr>)"

inductive race_reach :: "bool \<Rightarrow> race \<Rightarrow> race \<Rightarrow> bool" for fused :: bool and x0 :: race where
  race_refl: "race_reach fused x0 x0"
| race_more: "race_reach fused x0 x \<Longrightarrow> race_step fused x x' \<Longrightarrow> race_reach fused x0 x'"

definition race_start :: "nat \<Rightarrow> SwappableMemoryStorage \<Rightarrow> race" where
  "race_start n s = \<lparr>rs_sw = s, rs_calls = replicate n PutDone, rs_job = JobIdle\<rparr>"

text \<open>Some thread would make an undefined step.\<close>

definition race_undefined :: "bool \<Rightarrow> race \<Rightarrow> bool" where
  "race_undefined fused x \<longleftrightarrow> (\<exists>pc \<in> set (rs_calls x). call_step fused pc (rs_sw x) = Undef) \<or>
     job_step (rs_job x) (rs_sw x) = Undef"

section \<open>Who holds a counter\<close>

fun holds_ref :: "nat \<Rightarrow> call_pc \<Rightarrow> bool" where
  "holds_ref w (PutAdded r w' mp) = (w' = w)"
| "holds_ref w (PutWritten w') = (w' = w)"
| "holds_ref w _ = False"

fun holds_own :: "nat \<Rightarrow> call_pc \<Rightarrow> bool" where
  "holds_own a (GetAdded k second a' mp) = (a' = a)"
| "holds_own a (GetRead k second a' res) = (a' = a)"
| "holds_own a _ = False"

text \<open>As many of the calls as the counter counts.\<close>

definition users :: "(call_pc \<Rightarrow> bool) \<Rightarrow> call_pc list \<Rightarrow> u32" where
  "users P calls = of_nat (length (filter P calls))"

lemma users_update:
  assumes "i < length calls"
  shows "users P (calls[i := pc]) = users P calls - of_bool (P (calls ! i)) + of_bool (P pc)"
proof -
  have c: "calls = take i calls @ calls ! i # drop (Suc i) calls" using assms by (rule id_take_nth_drop)
  have "users P calls = users P (take i calls @ calls ! i # drop (Suc i) calls)" using c by simp
  moreover have "users P (calls[i := pc]) = users P (take i calls @ pc # drop (Suc i) calls)"
    using assms by (simp add: upd_conv_take_nth_drop)
  ultimately show ?thesis by (simp add: users_def)
qed

lemma users_zero: "length calls < 2 ^ 32 \<Longrightarrow> users P calls = 0 \<longleftrightarrow> (\<forall>pc \<in> set calls. \<not> P pc)"
proof -
  assume "length calls < 2 ^ 32"
  then have "length (filter P calls) < 2 ^ 32" using length_filter_le order.strict_trans1 by blast
  then have "users P calls = 0 \<longleftrightarrow> length (filter P calls) = 0"
    unfolding users_def by (auto simp: word_of_nat_eq_0_iff dest: dvd_imp_le)
  then show ?thesis by (simp add: filter_empty_conv)
qed

section \<open>The invariant of the fused variant\<close>

text \<open>
  \<open>own\<close> and \<open>ref\<close> say which map each live counter refers to. At every point of the job there are
  exactly the counters that it has not deleted; once the old writer is gone, nobody can write the
  map that is collected.
\<close>

fun race_shape :: "job_pc \<Rightarrow> SwappableMemoryStorage \<Rightarrow> nat \<Rightarrow> nat \<Rightarrow> nat \<Rightarrow> nat \<Rightarrow> nat \<Rightarrow>
    (nat \<Rightarrow> nat option) \<Rightarrow> (nat \<Rightarrow> nat option) \<Rightarrow> bool" where
  "race_shape JobIdle s a b w pa pb own ref \<longleftrightarrow>
     reader_second s = Some b \<and> own = [a \<mapsto> pa, b \<mapsto> pb] \<and> ref = [w \<mapsto> pb]"
| "race_shape (JobSwapped old) s a b w pa pb own ref \<longleftrightarrow>
     reader_second s = Some b \<and> own = [a \<mapsto> pa, b \<mapsto> pb] \<and> old \<noteq> w \<and> ref = [w \<mapsto> pa, old \<mapsto> pb]"
| "race_shape JobDeleted s a b w pa pb own ref \<longleftrightarrow>
     reader_second s = Some b \<and> own = [a \<mapsto> pa, b \<mapsto> pb] \<and> ref = [w \<mapsto> pa]"
| "race_shape (JobCopied es) s a b w pa pb own ref \<longleftrightarrow>
     reader_second s = Some b \<and> own = [a \<mapsto> pa, b \<mapsto> pb] \<and> ref = [w \<mapsto> pa] \<and>
     map_option (\<lambda>m. ToEntries (ms_map m)) (h_maps (sw_heap s) pb) = Some es"
| "race_shape (JobReplaced es old) s a b w pa pb own ref \<longleftrightarrow>
     reader_second s = Some a \<and> old = Some b \<and> own = [a \<mapsto> pa, b \<mapsto> pb] \<and> ref = [w \<mapsto> pa] \<and>
     map_option (\<lambda>m. ToEntries (ms_map m)) (h_maps (sw_heap s) pb) = Some es"
| "race_shape (JobFreed es) s a b w pa pb own ref \<longleftrightarrow>
     reader_second s = Some a \<and> own = [a \<mapsto> pa] \<and> ref = [w \<mapsto> pa]"

fun pc_ok :: "(nat \<Rightarrow> nat option) \<Rightarrow> (nat \<Rightarrow> nat option) \<Rightarrow> call_pc \<Rightarrow> bool" where
  "pc_ok own ref (PutLoaded r w) = False"
| "pc_ok own ref (PutAdded r w mp) = (mp \<noteq> None \<and> ref w = mp)"
| "pc_ok own ref (PutWritten w) = (ref w \<noteq> None)"
| "pc_ok own ref (GetLoaded k second a) = False"
| "pc_ok own ref (GetAdded k second a mp) = (mp \<noteq> None \<and> own a = mp)"
| "pc_ok own ref (GetRead k second a res) = (own a \<noteq> None)"
| "pc_ok own ref _ = True"

definition heap_shape :: "(nat \<Rightarrow> nat option) \<Rightarrow> (nat \<Rightarrow> nat option) \<Rightarrow> call_pc list \<Rightarrow> heap \<Rightarrow> bool" where
  "heap_shape own ref calls h \<longleftrightarrow>
     (\<forall>a. h_own h a = map_option (\<lambda>p. \<lparr>orc_ptr = Some p, orc_count = users (holds_own a) calls\<rparr>) (own a)) \<and>
     (\<forall>w. h_ref h w = map_option (\<lambda>p. \<lparr>rc_ptr = Some p, rc_count = users (holds_ref w) calls\<rparr>) (ref w)) \<and>
     (\<forall>p \<in> ran own. \<exists>m. h_maps h p = Some m \<and> ms_inv m) \<and>
     (\<forall>x \<in> dom own \<union> dom ref \<union> ran own. x < h_next h)"

definition race_inv :: "race \<Rightarrow> bool" where
  "race_inv x \<longleftrightarrow> length (rs_calls x) < 2 ^ 32 \<and> (\<exists>a b w pa pb own ref. a \<noteq> b \<and> pa \<noteq> pb \<and>
     reader_first (rs_sw x) = Some a \<and> writer (rs_sw x) = Some w \<and>
     race_shape (rs_job x) (rs_sw x) a b w pa pb own ref \<and>
     heap_shape own ref (rs_calls x) (sw_heap (rs_sw x)) \<and> (\<forall>pc \<in> set (rs_calls x). pc_ok own ref pc))"

lemma ms_inv_put: "ms_inv m \<Longrightarrow> ms_inv (put r m)"
  by (cases r) (simp_all add: put_def)

lemma heap_shapeD:
  assumes "heap_shape own ref calls h"
  shows "own a = Some p \<Longrightarrow> h_own h a = Some \<lparr>orc_ptr = Some p, orc_count = users (holds_own a) calls\<rparr>"
    "own a = None \<Longrightarrow> h_own h a = None"
    "ref w = Some p \<Longrightarrow> h_ref h w = Some \<lparr>rc_ptr = Some p, rc_count = users (holds_ref w) calls\<rparr>"
    "ref w = None \<Longrightarrow> h_ref h w = None"
    "p \<in> ran own \<Longrightarrow> \<exists>m. h_maps h p = Some m \<and> ms_inv m"
  using assms by (auto simp: heap_shape_def)

text \<open>Taking and giving back a counter moves one call from one state to another.\<close>

lemma heap_shape_ref:
  assumes "heap_shape own ref calls h" "i < length calls" "ref w = Some p"
    "\<And>v. holds_ref v (calls ! i) = (old \<and> v = w)" "\<And>v. holds_ref v pc = (new \<and> v = w)"
    "\<And>v. holds_own v (calls ! i) = holds_own v pc"
    "n = users (holds_ref w) calls - of_bool old + of_bool new"
  shows "heap_shape own ref (calls[i := pc]) (h\<lparr>h_ref := (h_ref h)(w \<mapsto> \<lparr>rc_ptr = Some p, rc_count = n\<rparr>)\<rparr>)"
  using assms by (auto simp: heap_shape_def users_update)

lemma heap_shape_own:
  assumes "heap_shape own ref calls h" "i < length calls" "own b = Some p"
    "\<And>v. holds_own v (calls ! i) = (old \<and> v = b)" "\<And>v. holds_own v pc = (new \<and> v = b)"
    "\<And>v. holds_ref v (calls ! i) = holds_ref v pc"
    "n = users (holds_own b) calls - of_bool old + of_bool new"
  shows "heap_shape own ref (calls[i := pc]) (h\<lparr>h_own := (h_own h)(b \<mapsto> \<lparr>orc_ptr = Some p, orc_count = n\<rparr>)\<rparr>)"
  using assms by (auto simp: heap_shape_def users_update)

lemma heap_shape_same:
  assumes "heap_shape own ref calls h" "i < length calls"
    "\<And>v. holds_own v (calls ! i) = holds_own v pc" "\<And>v. holds_ref v (calls ! i) = holds_ref v pc"
  shows "heap_shape own ref (calls[i := pc]) h"
  using assms by (simp add: heap_shape_def users_update)

lemma heap_shape_write:
  "heap_shape own ref calls h \<Longrightarrow> ms_inv m \<Longrightarrow> heap_shape own ref calls (h\<lparr>h_maps := (h_maps h)(p \<mapsto> m)\<rparr>)"
  by (auto simp: heap_shape_def)

lemma call_step_fused:
  assumes h: "heap_shape own ref calls (sw_heap s)" and i: "i < length calls" and ok: "pc_ok own ref (calls ! i)"
    and ptr: "reader_first s = Some a" "reader_second s = Some b" "writer s = Some w"
      "own a = Some pa" "own b = Some pb" "ref w = Some pw" "ran ref \<subseteq> ran own"
  shows "\<exists>pc h'. call_step True (calls ! i) s = Ret (pc, h') \<and> heap_shape own ref (calls[i := pc]) h' \<and>
    pc_ok own ref pc \<and> (\<forall>p. p \<notin> ran ref \<longrightarrow> h_maps h' p = h_maps (sw_heap s) p)"
proof (cases "calls ! i")
  case (PutStart r)
  note d = heap_shapeD(3) [OF h ptr(6)]
  let ?pc = "PutAdded r w (Some pw)"
  have "heap_shape own ref (calls[i := ?pc]) ((sw_heap s)\<lparr>h_ref := (h_ref (sw_heap s))
      (w \<mapsto> \<lparr>rc_ptr = Some pw, rc_count = users (holds_ref w) calls + 1\<rparr>)\<rparr>)"
    by (rule heap_shape_ref [OF h i ptr(6), where old = False and new = True]) (auto simp: PutStart)
  then show ?thesis using PutStart ptr d by (simp add: call_step_def add_ref_def deref_def RC_Add_def)
next
  case (PutAdded r v mp)
  then obtain p where p: "mp = Some p" "ref v = Some p" using ok by auto
  then have "p \<in> ran ref" by (auto simp: ran_def)
  then obtain m where m: "h_maps (sw_heap s) p = Some m" "ms_inv m" using heap_shapeD(5) [OF h] ptr(7) by blast
  have "heap_shape own ref (calls[i := PutWritten v]) (sw_heap s)"
    by (rule heap_shape_same [OF h i]) (auto simp: PutAdded)
  from heap_shape_write [OF this ms_inv_put [OF m(2)]] show ?thesis
    using PutAdded p m(1) \<open>p \<in> ran ref\<close> by (auto simp: call_step_def write_map_def deref_def)
next
  case (PutWritten v)
  then obtain p where p: "ref v = Some p" using ok by auto
  note d = heap_shapeD(3) [OF h p]
  have "heap_shape own ref (calls[i := PutDone]) ((sw_heap s)\<lparr>h_ref := (h_ref (sw_heap s))
      (v \<mapsto> \<lparr>rc_ptr = Some p, rc_count = users (holds_ref v) calls - 1\<rparr>)\<rparr>)"
    by (rule heap_shape_ref [OF h i p, where old = True and new = False]) (auto simp: PutWritten)
  then show ?thesis using PutWritten d by (simp add: call_step_def remove_ref_def deref_def RC_Remove_def)
next
  case (GetStart k second)
  obtain c pc where c: "(if second then reader_second s else reader_first s) = Some c" "own c = Some pc"
    using ptr by (cases second) auto
  note d = heap_shapeD(1) [OF h c(2)]
  let ?pc = "GetAdded k second c (Some pc)"
  have "heap_shape own ref (calls[i := ?pc]) ((sw_heap s)\<lparr>h_own := (h_own (sw_heap s))
      (c \<mapsto> \<lparr>orc_ptr = Some pc, orc_count = users (holds_own c) calls + 1\<rparr>)\<rparr>)"
    by (rule heap_shape_own [OF h i c(2), where old = False and new = True]) (auto simp: GetStart)
  then show ?thesis using GetStart c d by (simp add: call_step_def add_own_def deref_def ORC_Add_def)
next
  case (GetAdded k second c mp)
  then obtain p where p: "mp = Some p" "own c = Some p" using ok by auto
  then obtain m where m: "h_maps (sw_heap s) p = Some m" using heap_shapeD(5) [OF h] by (blast intro: ranI)
  have "heap_shape own ref (calls[i := GetRead k second c (MapStorage_Get k m)]) (sw_heap s)"
    by (rule heap_shape_same [OF h i]) (auto simp: GetAdded)
  then show ?thesis using GetAdded p m by (simp add: call_step_def deref_def)
next
  case (GetRead k second c res)
  then obtain p where p: "own c = Some p" using ok by auto
  note d = heap_shapeD(1) [OF h p]
  let ?pc = "if second \<or> has_value res then GetDone k res else GetStart k True"
  have "heap_shape own ref (calls[i := ?pc]) ((sw_heap s)\<lparr>h_own := (h_own (sw_heap s))
      (c \<mapsto> \<lparr>orc_ptr = Some p, orc_count = users (holds_own c) calls - 1\<rparr>)\<rparr>)"
    by (rule heap_shape_own [OF h i p, where old = True and new = False]) (auto simp: GetRead)
  then show ?thesis using GetRead d by (auto simp: call_step_def remove_own_def deref_def ORC_Remove_def)
qed (use ok i h in \<open>auto simp: call_step_def intro!: heap_shape_same\<close>)

lemma race_invI:
  assumes "a \<noteq> b" "pa \<noteq> pb" "reader_first (rs_sw x) = Some a" "writer (rs_sw x) = Some w"
    "race_shape (rs_job x) (rs_sw x) a b w pa pb own ref" "heap_shape own ref (rs_calls x) (sw_heap (rs_sw x))"
    "\<forall>pc \<in> set (rs_calls x). pc_ok own ref pc" "length (rs_calls x) < 2 ^ 32"
  shows "race_inv x"
  unfolding race_inv_def using assms by blast

text \<open>The threads keep the invariant, wherever the job is.\<close>

lemma race_shape_ptr:
  assumes "race_shape j s a b w pa pb own ref" "a \<noteq> b" "pa \<noteq> pb"
  shows "\<exists>c pc pw. reader_second s = Some c \<and> own a = Some pa \<and> own c = Some pc \<and> ref w = Some pw" "ran ref \<subseteq> ran own"
    "j = JobCopied es \<or> j = JobReplaced es old \<Longrightarrow> pb \<notin> ran ref"
  using assms by (cases j; auto split: if_splits)+

lemma race_shape_heap:
  "race_shape j s a b w pa pb own ref \<Longrightarrow> (\<And>es old. j = JobCopied es \<or> j = JobReplaced es old \<Longrightarrow>
     h_maps h pb = h_maps (sw_heap s) pb) \<Longrightarrow> race_shape j (s\<lparr>sw_heap := h\<rparr>) a b w pa pb own ref"
  by (cases j) auto

lemma race_inv_call:
  assumes "race_inv x" "i < length (rs_calls x)"
  shows "\<exists>pc h. call_step True (rs_calls x ! i) (rs_sw x) = Ret (pc, h) \<and>
    race_inv (x\<lparr>rs_sw := (rs_sw x)\<lparr>sw_heap := h\<rparr>, rs_calls := (rs_calls x)[i := pc]\<rparr>)"
proof -
  from assms(1) obtain a b w pa pb own ref where
    ne: "a \<noteq> b" "pa \<noteq> pb" and p: "reader_first (rs_sw x) = Some a" "writer (rs_sw x) = Some w"
    and sh: "race_shape (rs_job x) (rs_sw x) a b w pa pb own ref" and h: "heap_shape own ref (rs_calls x) (sw_heap (rs_sw x))"
    and ok: "\<forall>pc \<in> set (rs_calls x). pc_ok own ref pc" and l: "length (rs_calls x) < 2 ^ 32"
    unfolding race_inv_def by blast
  from race_shape_ptr(1) [OF sh ne] obtain c pc' pw where
    q: "reader_second (rs_sw x) = Some c" "own a = Some pa" "own c = Some pc'" "ref w = Some pw" by blast
  have "pc_ok own ref (rs_calls x ! i)" using ok assms(2) by simp
  from call_step_fused [OF h assms(2) this p(1) q(1) p(2) q(2-4) race_shape_ptr(2) [OF sh ne]] obtain pc h' where
    n: "call_step True (rs_calls x ! i) (rs_sw x) = Ret (pc, h')" "heap_shape own ref ((rs_calls x)[i := pc]) h'"
      "pc_ok own ref pc" "\<forall>p. p \<notin> ran ref \<longrightarrow> h_maps h' p = h_maps (sw_heap (rs_sw x)) p" by blast
  have "race_shape (rs_job x) ((rs_sw x)\<lparr>sw_heap := h'\<rparr>) a b w pa pb own ref"
    by (rule race_shape_heap [OF sh]) (use race_shape_ptr(3) [OF sh ne] n(4) in blast)
  moreover have "\<forall>pc \<in> set ((rs_calls x)[i := pc]). pc_ok own ref pc"
    using ok n(3) set_update_subset_insert by fastforce
  ultimately have "race_inv (x\<lparr>rs_sw := (rs_sw x)\<lparr>sw_heap := h'\<rparr>, rs_calls := (rs_calls x)[i := pc]\<rparr>)"
    using l p n(2) by (intro race_invI [OF ne, where own = own and ref = ref]) simp_all
  with n(1) show ?thesis by blast
qed

lemma race_inv_again:
  assumes "race_inv x" "i < length (rs_calls x)" "rs_calls x ! i = PutDone \<or> rs_calls x ! i = GetDone k res"
    "starts pc"
  shows "race_inv (x\<lparr>rs_calls := (rs_calls x)[i := pc]\<rparr>)"
proof -
  from assms(1) obtain a b w pa pb own ref where
    r: "a \<noteq> b" "pa \<noteq> pb" "reader_first (rs_sw x) = Some a" "writer (rs_sw x) = Some w"
      "race_shape (rs_job x) (rs_sw x) a b w pa pb own ref" "heap_shape own ref (rs_calls x) (sw_heap (rs_sw x))"
      "\<forall>pc \<in> set (rs_calls x). pc_ok own ref pc" "length (rs_calls x) < 2 ^ 32"
    unfolding race_inv_def by blast
  have "heap_shape own ref ((rs_calls x)[i := pc]) (sw_heap (rs_sw x))"
    by (rule heap_shape_same [OF r(6) assms(2)]) (use assms(3,4) in \<open>cases pc; auto\<close>)+
  moreover have "pc_ok own ref pc" using assms(4) by (cases pc) auto
  then have "\<forall>pc \<in> set ((rs_calls x)[i := pc]). pc_ok own ref pc"
    using r(7) set_update_subset_insert by fastforce
  ultimately show ?thesis using r(3-5,8) by (intro race_invI [OF r(1,2), where own = own and ref = ref]) simp_all
qed

text \<open>
  The job keeps it too. Where it waits, a thread holds the counter that it waits for; when it goes on,
  no thread does.
\<close>

definition job_good :: "race \<Rightarrow> bool" where
  "job_good x \<longleftrightarrow> (case job_step (rs_job x) (rs_sw x) of
       Ret (j, s) \<Rightarrow> race_inv (x\<lparr>rs_sw := s, rs_job := j\<rparr>)
     | Hang \<Rightarrow> \<exists>pc \<in> set (rs_calls x). \<exists>v. holds_ref v pc \<or> holds_own v pc
     | _ \<Rightarrow> False)"

lemma users_fresh: "\<forall>pc \<in> set calls. \<not> P pc \<Longrightarrow> users P calls = 0"
  by (simp add: users_def)

lemma pc_ok_holds:
  "pc_ok own ref pc \<Longrightarrow> holds_ref v pc \<Longrightarrow> v \<in> dom ref" "pc_ok own ref pc \<Longrightarrow> holds_own v pc \<Longrightarrow> v \<in> dom own"
  by (cases pc; auto)+

lemma pc_ok_grow: "pc_ok own ref pc \<Longrightarrow> own \<subseteq>\<^sub>m own' \<Longrightarrow> ref \<subseteq>\<^sub>m ref' \<Longrightarrow> pc_ok own' ref' pc"
  by (cases pc) (auto simp: map_le_def dom_def)

lemma pc_ok_delete:
  "pc_ok own ref pc \<Longrightarrow> \<not> holds_ref v pc \<Longrightarrow> pc_ok own (ref(v := None)) pc"
  "pc_ok own ref pc \<Longrightarrow> \<not> holds_own v pc \<Longrightarrow> pc_ok (own(v := None)) ref pc"
  by (cases pc; auto)+

lemma heap_shape_new_ref:
  assumes "heap_shape own ref calls h" "\<forall>pc \<in> set calls. pc_ok own ref pc" "p \<in> ran own"
  shows "heap_shape own (ref(h_next h \<mapsto> p)) calls
    (h\<lparr>h_ref := (h_ref h)(h_next h \<mapsto> \<lparr>rc_ptr = Some p, rc_count = 0\<rparr>), h_next := Suc (h_next h)\<rparr>)"
    "\<forall>pc \<in> set calls. pc_ok own (ref(h_next h \<mapsto> p)) pc" "h_next h \<notin> dom ref"
proof -
  show f: "h_next h \<notin> dom ref" using assms(1) by (auto simp: heap_shape_def)
  then have "\<forall>pc \<in> set calls. \<not> holds_ref (h_next h) pc" using assms(2) pc_ok_holds(1) by blast
  from users_fresh [OF this] show "heap_shape own (ref(h_next h \<mapsto> p)) calls
      (h\<lparr>h_ref := (h_ref h)(h_next h \<mapsto> \<lparr>rc_ptr = Some p, rc_count = 0\<rparr>), h_next := Suc (h_next h)\<rparr>)"
    using assms(1,3) by (auto simp: heap_shape_def less_Suc_eq)
  have "ref \<subseteq>\<^sub>m ref(h_next h \<mapsto> p)" using f by (simp add: map_le_def dom_def)
  then show "\<forall>pc \<in> set calls. pc_ok own (ref(h_next h \<mapsto> p)) pc" using assms(2) pc_ok_grow by fastforce
qed

lemma job_idle: "race_inv x \<Longrightarrow> rs_job x = JobIdle \<Longrightarrow> job_good x"
proof -
  assume "race_inv x" "rs_job x = JobIdle"
  then obtain a b w pa pb own ref where
    r: "a \<noteq> b" "pa \<noteq> pb" "reader_first (rs_sw x) = Some a" "writer (rs_sw x) = Some w" "reader_second (rs_sw x) = Some b"
      "own = [a \<mapsto> pa, b \<mapsto> pb]" "ref = [w \<mapsto> pb]" "heap_shape own ref (rs_calls x) (sw_heap (rs_sw x))"
      "\<forall>pc \<in> set (rs_calls x). pc_ok own ref pc" "length (rs_calls x) < 2 ^ 32"
    unfolding race_inv_def by auto
  let ?h = "sw_heap (rs_sw x)"
  have "own a = Some pa" "pa \<in> ran own" using r(1,6) by auto
  note o = heap_shapeD(1) [OF r(8) this(1)] and n = heap_shape_new_ref [OF r(8,9) this(2)]
  have w: "w \<noteq> h_next ?h" using n(3) r(7) by auto
  have "job_step JobIdle (rs_sw x) = Ret (JobSwapped w, (rs_sw x)\<lparr>sw_heap := ?h\<lparr>h_ref := (h_ref ?h)(h_next ?h \<mapsto>
      \<lparr>rc_ptr = Some pa, rc_count = 0\<rparr>), h_next := Suc (h_next ?h)\<rparr>, writer := Some (h_next ?h)\<rparr>)"
    using r(3,4) o by (simp add: deref_def alloc_ref_def ORC_GetUnderlying_def RC_new_def)
  moreover have "ref(h_next ?h \<mapsto> pa) = [h_next ?h \<mapsto> pa, w \<mapsto> pb]" using r(7) w by (auto simp: fun_eq_iff)
  ultimately show ?thesis using \<open>rs_job x = JobIdle\<close> n r w unfolding job_good_def
    by (simp, intro race_invI [OF r(1,2), where own = own and ref = "ref(h_next ?h \<mapsto> pa)"]) simp_all
qed

lemma job_swapped: "race_inv x \<Longrightarrow> rs_job x = JobSwapped old \<Longrightarrow> job_good x"
proof -
  assume "race_inv x" "rs_job x = JobSwapped old"
  then obtain a b w pa pb own ref where
    r: "a \<noteq> b" "pa \<noteq> pb" "reader_first (rs_sw x) = Some a" "writer (rs_sw x) = Some w" "reader_second (rs_sw x) = Some b"
      "own = [a \<mapsto> pa, b \<mapsto> pb]" "old \<noteq> w" "ref = [w \<mapsto> pa, old \<mapsto> pb]" "heap_shape own ref (rs_calls x) (sw_heap (rs_sw x))"
      "\<forall>pc \<in> set (rs_calls x). pc_ok own ref pc" "length (rs_calls x) < 2 ^ 32"
    unfolding race_inv_def by auto
  let ?h = "sw_heap (rs_sw x)"
  have "ref old = Some pb" using r(8) by simp
  note o = heap_shapeD(3) [OF r(9) this]
  show ?thesis
  proof (cases "users (holds_ref old) (rs_calls x) = 0")
    case True
    then have n: "\<forall>pc \<in> set (rs_calls x). \<not> holds_ref old pc" using users_zero [OF r(11)] by blast
    have "job_step (JobSwapped old) (rs_sw x) = Ret (JobDeleted, (rs_sw x)\<lparr>sw_heap := ?h\<lparr>h_ref := (h_ref ?h)(old := None)\<rparr>\<rparr>)"
      using o True by (simp add: delete_ref_def deref_def RC_destroy_def RC_Wait_def)
    moreover have "heap_shape own (ref(old := None)) (rs_calls x) (?h\<lparr>h_ref := (h_ref ?h)(old := None)\<rparr>)"
      using r(9) by (auto simp: heap_shape_def)
    moreover have "\<forall>pc \<in> set (rs_calls x). pc_ok own (ref(old := None)) pc" using r(10) n pc_ok_delete(1) by blast
    moreover have "ref(old := None) = [w \<mapsto> pa]" using r(7,8) by (auto simp: fun_eq_iff)
    ultimately show ?thesis using \<open>rs_job x = JobSwapped old\<close> r unfolding job_good_def
      by (simp, intro race_invI [OF r(1,2), where own = own and ref = "ref(old := None)"]) simp_all
  next
    case False
    then have "job_step (JobSwapped old) (rs_sw x) = Hang"
      using o by (simp add: delete_ref_def deref_def RC_destroy_def RC_Wait_def)
    then show ?thesis using \<open>rs_job x = JobSwapped old\<close> False users_zero [OF r(11)] unfolding job_good_def by auto
  qed
qed

lemma job_deleted: "race_inv x \<Longrightarrow> rs_job x = JobDeleted \<Longrightarrow> job_good x"
proof -
  assume "race_inv x" "rs_job x = JobDeleted"
  then obtain a b w pa pb own ref where
    r: "a \<noteq> b" "pa \<noteq> pb" "reader_first (rs_sw x) = Some a" "writer (rs_sw x) = Some w" "reader_second (rs_sw x) = Some b"
      "own = [a \<mapsto> pa, b \<mapsto> pb]" "ref = [w \<mapsto> pa]" "heap_shape own ref (rs_calls x) (sw_heap (rs_sw x))"
      "\<forall>pc \<in> set (rs_calls x). pc_ok own ref pc" "length (rs_calls x) < 2 ^ 32"
    unfolding race_inv_def by auto
  have "own b = Some pb" "pb \<in> ran own" using r(1,6) by auto
  note o = heap_shapeD(1) [OF r(8) this(1)]
  obtain m where m: "h_maps (sw_heap (rs_sw x)) pb = Some m" using heap_shapeD(5) [OF r(8) \<open>pb \<in> ran own\<close>] by blast
  have "job_step JobDeleted (rs_sw x) = Ret (JobCopied (ToEntries (ms_map m)), rs_sw x)"
    using r(5) o m by (simp add: deref_def ORC_GetUnderlying_def MapStorage_GetUnderlying_def)
  then show ?thesis using \<open>rs_job x = JobDeleted\<close> r m unfolding job_good_def
    by (simp, intro race_invI [OF r(1,2), where own = own and ref = ref]) simp_all
qed

lemma job_copied: "race_inv x \<Longrightarrow> rs_job x = JobCopied es \<Longrightarrow> job_good x"
proof -
  assume "race_inv x" "rs_job x = JobCopied es"
  then obtain a b w pa pb own ref where
    r: "a \<noteq> b" "pa \<noteq> pb" "reader_first (rs_sw x) = Some a" "writer (rs_sw x) = Some w" "reader_second (rs_sw x) = Some b"
      "own = [a \<mapsto> pa, b \<mapsto> pb]" "ref = [w \<mapsto> pa]" "heap_shape own ref (rs_calls x) (sw_heap (rs_sw x))"
      "\<forall>pc \<in> set (rs_calls x). pc_ok own ref pc" "length (rs_calls x) < 2 ^ 32"
      "map_option (\<lambda>m. ToEntries (ms_map m)) (h_maps (sw_heap (rs_sw x)) pb) = Some es"
    unfolding race_inv_def by auto
  then show ?thesis using \<open>rs_job x = JobCopied es\<close> unfolding job_good_def
    by (simp, intro race_invI [OF r(1,2), where own = own and ref = ref]) simp_all
qed

lemma job_replaced: "race_inv x \<Longrightarrow> rs_job x = JobReplaced es old \<Longrightarrow> job_good x"
proof -
  assume "race_inv x" "rs_job x = JobReplaced es old"
  then obtain a b w pa pb own ref where
    r: "a \<noteq> b" "pa \<noteq> pb" "reader_first (rs_sw x) = Some a" "writer (rs_sw x) = Some w" "reader_second (rs_sw x) = Some a"
      "own = [a \<mapsto> pa, b \<mapsto> pb]" "ref = [w \<mapsto> pa]" "heap_shape own ref (rs_calls x) (sw_heap (rs_sw x))"
      "\<forall>pc \<in> set (rs_calls x). pc_ok own ref pc" "length (rs_calls x) < 2 ^ 32" "old = Some b"
    unfolding race_inv_def by auto
  let ?h = "sw_heap (rs_sw x)"
  have "own b = Some pb" using r(6) by simp
  note o = heap_shapeD(1) [OF r(8) this]
  show ?thesis
  proof (cases "users (holds_own b) (rs_calls x) = 0")
    case True
    then have n: "\<forall>pc \<in> set (rs_calls x). \<not> holds_own b pc" using users_zero [OF r(10)] by blast
    let ?h' = "?h\<lparr>h_maps := (h_maps ?h)(pb := None), h_own := (h_own ?h)(b := None)\<rparr>"
    have "job_step (JobReplaced es old) (rs_sw x) = Ret (JobFreed es, (rs_sw x)\<lparr>sw_heap := ?h'\<rparr>)"
      using o True r(11) by (simp add: delete_own_def deref_def ORC_destroy_def ORC_Wait_def)
    moreover have own: "own(b := None) = [a \<mapsto> pa]" using r(1,6) by (auto simp: fun_eq_iff)
    have "heap_shape (own(b := None)) ref (rs_calls x) ?h'"
      using r(1,2,6,7,8) unfolding own by (auto simp: heap_shape_def)
    moreover have "\<forall>pc \<in> set (rs_calls x). pc_ok (own(b := None)) ref pc" using r(9) n pc_ok_delete(2) by blast
    ultimately show ?thesis using \<open>rs_job x = JobReplaced es old\<close> r own unfolding job_good_def
      by (simp, intro race_invI [OF r(1,2), where own = "own(b := None)" and ref = ref]) simp_all
  next
    case False
    then have "job_step (JobReplaced es old) (rs_sw x) = Hang"
      using o r(11) by (simp add: delete_own_def deref_def ORC_destroy_def ORC_Wait_def)
    then show ?thesis using \<open>rs_job x = JobReplaced es old\<close> False users_zero [OF r(10)] unfolding job_good_def by auto
  qed
qed

lemma job_freed: "race_inv x \<Longrightarrow> rs_job x = JobFreed es \<Longrightarrow> job_good x"
proof -
  assume "race_inv x" "rs_job x = JobFreed es"
  then obtain a b w pa pb own ref where
    r: "a \<noteq> b" "pa \<noteq> pb" "reader_first (rs_sw x) = Some a" "writer (rs_sw x) = Some w" "reader_second (rs_sw x) = Some a"
      "own = [a \<mapsto> pa]" "ref = [w \<mapsto> pa]" "heap_shape own ref (rs_calls x) (sw_heap (rs_sw x))"
      "\<forall>pc \<in> set (rs_calls x). pc_ok own ref pc" "length (rs_calls x) < 2 ^ 32"
    unfolding race_inv_def by auto
  let ?h = "sw_heap (rs_sw x)" and ?n = "h_next (sw_heap (rs_sw x))"
  let ?h' = "?h\<lparr>h_maps := (h_maps ?h)(?n \<mapsto> new_MapStorage), h_own := (h_own ?h)(Suc ?n \<mapsto> \<lparr>orc_ptr = Some ?n, orc_count = 0\<rparr>),
    h_next := Suc (Suc ?n)\<rparr>"
  have f: "a < ?n" "pa < ?n" "w < ?n" using r(6-8) by (auto simp: heap_shape_def)
  have own: "own(Suc ?n \<mapsto> ?n) = [Suc ?n \<mapsto> ?n, a \<mapsto> pa]" using f r(6) by (auto simp: fun_eq_iff)
  have "\<forall>pc \<in> set (rs_calls x). \<not> holds_own (Suc ?n) pc" using r(6,9) f pc_ok_holds(2) by fastforce
  from users_fresh [OF this] have "heap_shape (own(Suc ?n \<mapsto> ?n)) ref (rs_calls x) ?h'"
    using r(6-8) f by (auto simp: heap_shape_def ms_inv_def new_MapStorage_def split: if_splits)
  moreover have "own \<subseteq>\<^sub>m own(Suc ?n \<mapsto> ?n)" using r(6) f by (auto simp: map_le_def)
  then have "\<forall>pc \<in> set (rs_calls x). pc_ok (own(Suc ?n \<mapsto> ?n)) ref pc" using r(9) pc_ok_grow by fastforce
  moreover have "job_step (JobFreed es) (rs_sw x) =
      Ret (JobIdle, (rs_sw x)\<lparr>sw_heap := ?h', reader_first := Some (Suc ?n)\<rparr>)"
    by (simp add: alloc_own_new_def alloc_map_def alloc_own_def ORC_new_def)
  moreover have "Suc ?n \<noteq> a" "?n \<noteq> pa" using f by auto
  ultimately show ?thesis using \<open>rs_job x = JobFreed es\<close> r own unfolding job_good_def
    by (simp, intro race_invI [OF \<open>Suc ?n \<noteq> a\<close> \<open>?n \<noteq> pa\<close>, where own = "own(Suc ?n \<mapsto> ?n)" and ref = ref]) simp_all
qed

lemmas job_cases = job_idle job_swapped job_deleted job_copied job_replaced job_freed

lemma race_inv_job: "race_inv x \<Longrightarrow> job_good x"
  by (cases "rs_job x") (blast intro: job_cases)+

section \<open>Every interleaving of the fused variant\<close>

lemma race_inv_step: "race_step True x x' \<Longrightarrow> race_inv x \<Longrightarrow> race_inv x'"
proof (induction rule: race_step.induct)
  case (step_call i x pc h)
  from race_inv_call [OF step_call.prems step_call.hyps(1)] step_call.hyps(2) show ?case by auto
next
  case (step_job x j s)
  from race_inv_job [OF step_job.prems] step_job.hyps show ?case by (simp add: job_good_def)
qed (auto intro: race_inv_again)

lemma race_inv_reach: "race_reach True x0 x \<Longrightarrow> race_inv x0 \<Longrightarrow> race_inv x"
  by (induction rule: race_reach.induct) (auto intro: race_inv_step)

lemma race_inv_start:
  assumes "sw_rep s False ma mb" "n < 2 ^ 32"
    "h_own (sw_heap s) = [a \<mapsto> ORC_new pa, b \<mapsto> ORC_new pb]" "h_ref (sw_heap s) = [w \<mapsto> RC_new (Some pb)]"
    "reader_first s = Some a" "reader_second s = Some b" "writer s = Some w" "a \<noteq> b" "pa \<noteq> pb"
  shows "race_inv (race_start n s)"
proof (rule race_invI [OF assms(8,9)])
  have u: "users P (replicate n PutDone) = 0" if "\<not> P PutDone" for P using that by (simp add: users_def)
  show "heap_shape [a \<mapsto> pa, b \<mapsto> pb] [w \<mapsto> pb] (rs_calls (race_start n s)) (sw_heap (rs_sw (race_start n s)))"
    using assms by (auto simp: heap_shape_def race_start_def u ORC_new_def RC_new_def sw_rep_def ran_def)
qed (use assms in \<open>simp_all add: race_start_def\<close>)

lemma race_inv_safe:
  assumes "race_inv x"
  shows "\<not> race_undefined True x"
    "rs_job x = JobReplaced es old \<Longrightarrow> \<exists>b c m. old = Some b \<and> h_own (sw_heap (rs_sw x)) b = Some c \<and>
      (\<exists>p. orc_ptr c = Some p \<and> h_maps (sw_heap (rs_sw x)) p = Some m) \<and> entries_view es = ms_view m"
    "job_step (rs_job x) (rs_sw x) = Hang \<Longrightarrow> \<exists>pc \<in> set (rs_calls x). \<exists>v. holds_ref v pc \<or> holds_own v pc"
    "pc \<in> set (rs_calls x) \<Longrightarrow> \<exists>pc' h. call_step True pc (rs_sw x) = Ret (pc', h)"
proof -
  note j = race_inv_job [OF assms]
  show c: "\<exists>pc' h. call_step True pc (rs_sw x) = Ret (pc', h)" if "pc \<in> set (rs_calls x)" for pc
    using race_inv_call [OF assms] that by (metis in_set_conv_nth)
  show "\<not> race_undefined True x"
    using c j by (fastforce simp: race_undefined_def job_good_def)
  show "job_step (rs_job x) (rs_sw x) = Hang \<Longrightarrow> \<exists>pc \<in> set (rs_calls x). \<exists>v. holds_ref v pc \<or> holds_own v pc"
    using j by (simp add: job_good_def)
  assume "rs_job x = JobReplaced es old"
  with assms obtain a b pa pb ref m where
    r: "heap_shape [a \<mapsto> pa, b \<mapsto> pb] ref (rs_calls x) (sw_heap (rs_sw x))" "old = Some b"
      "h_maps (sw_heap (rs_sw x)) pb = Some m" "es = ToEntries (ms_map m)"
    unfolding race_inv_def by auto
  have o: "[a \<mapsto> pa, b \<mapsto> pb] b = Some pb" by simp
  then have "pb \<in> ran [a \<mapsto> pa, b \<mapsto> pb]" by (rule ranI)
  from heap_shapeD(5) [OF r(1) this] r(3) have "ms_inv m" by simp
  then have "entries_view es = ms_view m" using r(4) by (simp add: entries_view_ToEntries ms_inv_def ms_view_def)
  with heap_shapeD(1) [OF r(1) o] r(2,3) show "\<exists>b c m. old = Some b \<and> h_own (sw_heap (rs_sw x)) b = Some c \<and>
      (\<exists>p. orc_ptr c = Some p \<and> h_maps (sw_heap (rs_sw x)) p = Some m) \<and> entries_view es = ms_view m" by auto
qed

text \<open>The storage as its constructors leave it.\<close>

lemma race_inv_new: "n < 2 ^ 32 \<Longrightarrow> race_inv (race_start n new_Swappable)"
  by (rule race_inv_start [OF rep_new, of _ 1 0 3 2 4]) (simp_all add: new_Swappable_heap)

lemma race_inv_new_from: "ms_inv m \<Longrightarrow> n < 2 ^ 32 \<Longrightarrow> race_inv (race_start n (new_Swappable_from m))"
  by (rule race_inv_start [OF rep_new_from, of _ _ 2 1 3 0 4]) (simp_all add: new_Swappable_heap)

section \<open>The code's two steps\<close>

text \<open>
  A writer that has loaded the pointer and not yet added itself is not counted: the job deletes the
  counter under it.
\<close>

lemma race_load_then_delete:
  "\<exists>x. race_reach False (race_start 1 new_Swappable) x \<and> rs_calls x = [PutLoaded r 4] \<and> rs_job x = JobDeleted \<and>
     call_step False (PutLoaded r 4) (rs_sw x) = Undef"
proof -
  let ?x0 = "race_start 1 new_Swappable"
  let ?x1 = "?x0\<lparr>rs_calls := [PutStart r]\<rparr>"
  have "race_step False ?x0 (?x0\<lparr>rs_calls := (rs_calls ?x0)[0 := PutStart r]\<rparr>)"
    by (rule step_put) (simp_all add: race_start_def)
  then have r1: "race_reach False ?x0 ?x1" using race_more [OF race_refl] by (simp add: race_start_def)
  let ?x2 = "?x1\<lparr>rs_calls := [PutLoaded r 4]\<rparr>"
  have "call_step False (PutStart r) (rs_sw ?x1) = Ret (PutLoaded r 4, sw_heap new_Swappable)"
    by (simp add: call_step_def race_start_def new_Swappable_heap)
  with step_call [of 0 ?x1 False "PutLoaded r 4" "sw_heap new_Swappable"] have "race_step False ?x1 ?x2"
    by (simp add: race_start_def)
  then have r2: "race_reach False ?x0 ?x2" by (rule race_more [OF r1])
  obtain s3 where s3: "job_step JobIdle new_Swappable = Ret (JobSwapped 4, s3)" "h_ref (sw_heap s3) = [4 \<mapsto> RC_new (Some 2), 5 \<mapsto> RC_new (Some 0)]"
    by (simp add: new_Swappable_heap deref_def alloc_ref_def ORC_GetUnderlying_def ORC_new_def)
  let ?x3 = "?x2\<lparr>rs_sw := s3, rs_job := JobSwapped 4\<rparr>"
  from step_job [of ?x2 "JobSwapped 4" s3 False] s3(1) have "race_step False ?x2 ?x3" by (simp add: race_start_def)
  then have r3: "race_reach False ?x0 ?x3" by (rule race_more [OF r2])
  obtain s4 where s4: "job_step (JobSwapped 4) s3 = Ret (JobDeleted, s4)" "h_ref (sw_heap s4) 4 = None"
    using s3(2) by (simp add: delete_ref_def deref_def RC_destroy_def RC_Wait_def RC_new_def)
  let ?x4 = "?x3\<lparr>rs_sw := s4, rs_job := JobDeleted\<rparr>"
  from step_job [of ?x3 JobDeleted s4 False] s4(1) have "race_step False ?x3 ?x4" by simp
  then have "race_reach False ?x0 ?x4" by (rule race_more [OF r3])
  moreover have "call_step False (PutLoaded r 4) s4 = Undef"
    using s4(2) by (simp add: call_step_def add_ref_def deref_def)
  ultimately show ?thesis by (intro exI [of _ ?x4]) simp
qed

end
