(* ===== verification/Binary_Files.thy ===== *)
theory Binary_Files
  imports Filesystem
begin

text \<open>
  The templates of \<open>filesystem.hpp\<close> that read and write objects as their bytes. Nothing in the program
  calls them. The object representation of the type is a parameter; the streams are in the state in
  which \<open>OpenBinaryFile\<close> and \<open>CreateBinaryFile\<close> return them, with exceptions switched off again, so
  the \<open>catch\<close> blocks are never entered and every call reports success.
\<close>

record 't layout =
  l_size :: nat
  l_zero :: 't
  l_to :: "'t \<Rightarrow> bytes"
  l_of :: "bytes \<Rightarrow> 't"

definition layout_ok :: "'t layout \<Rightarrow> bool" where
  "layout_ok L \<longleftrightarrow> (\<forall>x. length (l_to L x) = l_size L \<and> l_of L (l_to L x) = x)"

record ifstream =
  is_ino :: nat
  is_pos :: nat
  is_failed :: bool

text \<open>\<open>istream::read\<close>: a short read sets the fail bit; a stream that has failed reads nothing.\<close>

definition is_read :: "nat \<Rightarrow> ifstream \<Rightarrow> fs \<Rightarrow> bytes \<times> ifstream" where
  "is_read n s fs =
     (if is_failed s then ([], s)
      else let bs = take n (drop (is_pos s) (fs_data fs (is_ino s))) in
        (bs, s\<lparr>is_pos := is_pos s + length bs, is_failed := length bs < n\<rparr>))"

text \<open>The object is not initialised: after a short read its value is indeterminate.\<close>

definition ReadFromFile :: "'t layout \<Rightarrow> ifstream \<Rightarrow> fs \<Rightarrow> 't res exec \<times> ifstream" where
  "ReadFromFile L s fs =
     (let (bs, s1) = is_read (l_size L) s fs in
      (if length bs < l_size L then Undef else Ret (Inr (l_of L bs)), s1))"

text \<open>The elements of the vector are zero before the read, and stay so where it does not reach.\<close>

definition ReadFromFile_vector :: "'t layout \<Rightarrow> nat \<Rightarrow> ifstream \<Rightarrow> fs \<Rightarrow> 't list res \<times> ifstream" where
  "ReadFromFile_vector L len s fs =
     (let (bs, s1) = is_read (len * l_size L) s fs;
          memory = bs @ drop (length bs) (concat (replicate len (l_to L (l_zero L)))) in
      (Inr (map (\<lambda>i. l_of L (take (l_size L) (drop (i * l_size L) memory))) [0..<len]), s1))"

definition WriteToFile :: "'t layout \<Rightarrow> ofstream \<Rightarrow> 't \<Rightarrow> fs \<Rightarrow> unit res \<times> ofstream \<times> fs" where
  "WriteToFile L f data fs = (let (_, f1, fs1) = os_write (l_to L data) f fs in (Inr (), f1, fs1))"

definition WriteToFile_vector :: "'t layout \<Rightarrow> ofstream \<Rightarrow> 't list \<Rightarrow> fs \<Rightarrow> unit res \<times> ofstream \<times> fs" where
  "WriteToFile_vector L f vec fs =
     (let (_, f1, fs1) = os_write (concat (map (l_to L) vec)) f fs in (Inr (), f1, fs1))"

section \<open>Round trip\<close>

lemma length_objects: "layout_ok L \<Longrightarrow> length (concat (map (l_to L) xs)) = length xs * l_size L"
  by (induction xs) (simp_all add: layout_ok_def)

lemma nth_object:
  assumes "layout_ok L" "i < length xs"
  shows "take (l_size L) (drop (i * l_size L) (concat (map (l_to L) xs) @ rest)) = l_to L (xs ! i)"
  using assms(2)
proof (induction xs arbitrary: i)
  case (Cons x xs)
  have l: "length (l_to L y) = l_size L" for y using assms(1) by (simp add: layout_ok_def)
  show ?case
  proof (cases i)
    case 0
    then show ?thesis using l by simp
  next
    case (Suc j)
    then show ?thesis using Cons l by simp
  qed
qed simp

lemma vector_round_trip:
  assumes "layout_ok L" "\<not> is_failed s" "is_pos s \<le> length (fs_data fs (is_ino s))"
    "drop (is_pos s) (fs_data fs (is_ino s)) = concat (map (l_to L) xs) @ rest"
  shows "ReadFromFile_vector L (length xs) s fs =
    (Inr xs, s\<lparr>is_pos := is_pos s + length xs * l_size L, is_failed := False\<rparr>)"
proof -
  have z: "length (concat (replicate (length xs) (l_to L (l_zero L)))) = length xs * l_size L"
    using length_objects [OF assms(1), of "replicate (length xs) (l_zero L)"] by simp
  have r: "is_read (length xs * l_size L) s fs = (concat (map (l_to L) xs),
      s\<lparr>is_pos := is_pos s + length xs * l_size L, is_failed := False\<rparr>)"
    using assms(2,4) length_objects [OF assms(1), of xs] by (simp add: is_read_def Let_def)
  have "map (\<lambda>i. l_of L (take (l_size L) (drop (i * l_size L) (concat (map (l_to L) xs) @ [])))) [0..<length xs] = xs"
    using nth_object [OF assms(1), of _ xs "[]"] assms(1) by (intro nth_equalityI) (simp_all add: layout_ok_def)
  then show ?thesis using r z length_objects [OF assms(1), of xs] by (simp add: ReadFromFile_vector_def)
qed

text \<open>What is written at the end of a file is read back.\<close>

lemma WriteToFile_vector_read:
  assumes "layout_ok L" "fs_ok fs" "stream_at f fs base (length base) []"
    "WriteToFile_vector L f xs fs = (r, f1, fs1)" "os_flush f1 fs1 = (f2, fs2)"
  shows "r = Inr ()" "fst (ReadFromFile_vector L (length xs)
    \<lparr>is_ino = os_ino f, is_pos = length base, is_failed = False\<rparr> fs2) = Inr xs"
proof -
  obtain k where w: "os_write (concat (map (l_to L) xs)) f fs = (k, f1, fs1)" and r: "r = Inr ()"
    using assms(4) by (cases "os_write (concat (map (l_to L) xs)) f fs") (auto simp: WriteToFile_vector_def)
  note a = os_write_spec [OF assms(3,2) w]
  have ok: "fs_ok fs1" using touches_same(1) [OF a(4)] assms(2) by simp
  note b = os_flush_spec [OF a(2) ok assms(5)]
  have d: "fs_data fs2 (os_ino f) = base @ concat (map (l_to L) xs)" using b(2) a(3) by (simp add: write_at_def)
  show "r = Inr ()" by (rule r)
  have "drop (length base) (fs_data fs2 (os_ino f)) = concat (map (l_to L) xs) @ []" using d by simp
  with vector_round_trip [OF assms(1), of "\<lparr>is_ino = os_ino f, is_pos = length base, is_failed = False\<rparr>" fs2 xs "[]"] d
  show "fst (ReadFromFile_vector L (length xs)
      \<lparr>is_ino = os_ino f, is_pos = length base, is_failed = False\<rparr> fs2) = Inr xs" by simp
qed

end
