(* ===== verification/Spec2Isabelle.thy ===== *)
theory Spec2Isabelle
  imports Samples Unit_Tests Read_Timeouts Disk_Faults Filelog Swappable_Safety Swappable_Threads Server Binary_Files
begin

text \<open>
  A model of iu9-distributed-db, a replicated key-value store in C++, and the theorems that make its
  parts correct. Source paths below are relative to \<open>src/stewkk/db\<close> and \<open>include/stewkk/db\<close>.

  \<^bold>\<open>The program.\<close> A node keeps recent writes in memory and older ones in immutable sorted tables on
  disk. A write goes to a write-ahead log and then to memory. When memory holds enough keys a
  background job swaps the log, writes the memory storage as a new table, drops the old log and, with more than
  five tables, merges all tables into one. Start-up replays the logs that a crash left. A
  request reaches the storage through a chain of middlewares (error status, session, master role) and a
  handler; the controller behind it spawns coroutines that send writes to the other nodes, and a read
  asks all nodes for the newest value. ZooKeeper elects the master and lists the nodes.

  \<^bold>\<open>Conventions.\<close> A C++ call has an outcome of type \<open>exec\<close> (\<open>Prelude\<close>): it returns, leaves by an
  exception (\<open>Throw\<close>), runs into undefined behaviour or a failed assert (\<open>Undef\<close>), or spins for ever
  (\<open>Hang\<close>). An \<open>Error\<close> of the code is the left side of a sum inside \<open>Ret\<close>. State is passed explicitly. A
  hash map is an association list with distinct keys; a moved-from string is empty; offsets, sizes and
  versions are 64-bit words. Definitions keep the names of the code, with a prefix of the class where
  several classes share a name, and \<open>new_T\<close>, \<open>T_move\<close>, \<open>T_destroy\<close> for the special members.

  \<^bold>\<open>Theories, from the bottom up.\<close>

  \<^item> \<open>Errors\<close>: \<open>logic/result\<close>. Lemmas: the chain of wrapped causes and the printed message.

  \<^item> \<open>Filesystem\<close>: \<open>logic/filesystem/filesystem.cpp\<close> over directories, inodes and buffered streams. An
    arbitrary function decides which operation of the system fails and how much of a failed write is on
    disk, another one which reads of a table entry fail. \<open>fs_ok\<close> says that the data directory is an absolute path, names and inodes fit together, fresh
    identifiers are new and no operation fails; the operations keep it, and the lemmas say which files an
    operation leaves alone. The definitions have every error branch; a theorem that is about
    success assumes \<open>fs_ok\<close>. \<open>Binary_Files\<close>: the templates of \<open>filesystem.hpp\<close>.

  \<^item> \<open>Codec\<close>: \<open>persistent.proto\<close>, \<open>wal.proto\<close> as records, with the serialisers as a parameter.
    \<open>codecs_ok\<close> is what the code relies on: parsing inverts serialising, and a delimited message that is
    cut short does not parse. \<open>Sample_Codec\<close> is a concrete instance that satisfies it.

  \<^item> \<open>Memstorage\<close>: \<open>storage/inmemory.cpp\<close> and the data types. The locale \<open>kw_storage\<close> states
    the contract of a key-value storage; \<open>MapStorage\<close> and the swappable storage interpret it.

  \<^item> \<open>Synchronization\<close>: \<open>operations_guard.hpp\<close>, \<open>job_guard.cpp\<close>. The locale \<open>counted_pointer\<close> is interpreted on
    both reference counters.

  \<^item> \<open>Swappable\<close>: \<open>swappable_memory_storage.cpp\<close> on a heap of maps and counters, because two pointers
    alias one map while a collection runs. \<open>sw_inv\<close> relates the pointers to the objects, \<open>sw_view\<close> is the
    map a reader sees. \<open>Swappable_Safety\<close>: memory safety of calls one after the other.
    \<open>Swappable_Threads\<close>: the same operations as steps of threads in any order; with the load of a pointer
    and its \<open>Add\<close> in one step every interleaving is defined (\<open>race_inv\<close>), with the two steps of the code
    there is one that uses a deleted counter.

  \<^item> \<open>Persistent\<close>: \<open>persistent.cpp\<close>, a table in a data and an index file. \<open>ps_ok\<close> is a well-formed table and
    \<open>ps_entries\<close> its sorted content; the locale \<open>sorted_table\<close> proves the binary search once.
    \<open>Collection\<close>: \<open>persistent_storage_collection.cpp\<close>. \<open>coll_inv\<close> ties the list of tables to the metadata file,
    \<open>tables_view\<close> is the map of all tables, the newest first. \<open>Compaction\<close>: \<open>compaction.cpp\<close>, the merge
    by a heap of iterators, refined to a merge of runs and to a reference definition.

  \<^item> \<open>Wal\<close>: \<open>wal_writer.cpp\<close>, \<open>swappable_wal_writer.cpp\<close> and \<open>ReadWAL\<close>; the locales \<open>wal_writer\<close> and
    \<open>swappable_wal_writer\<close> state what a log promises. \<open>Versioning\<close>: \<open>global_versioning.cpp\<close>, also as a step
    relation of the threads that race on the counter. \<open>Recovery\<close>: \<open>wal_reader.cpp\<close>.

  \<^item> \<open>Storage_System\<close>: \<open>storage_system.cpp\<close>. \<open>sys_inv\<close> is the invariant of a running storage, \<open>durable\<close> says
    that the log, replayed from nothing, gives the part of the memory map that is in no table. \<open>Swap_Job\<close>:
    \<open>Controller::SwapToPersistentStorage\<close>. \<open>Storage_Runs\<close>: runs of requests, jobs and crashes with a
    restart, simulated by an abstract store of two maps.
    \<open>Disk_Faults\<close>: requests and metadata writes on a disk of which any write, flush, opening or read of a
    table entry may fail.

  \<^item> \<open>Zookeeper\<close>: \<open>coordination/zookeeper.cpp\<close>, each callback as a function of the answer of the service.
    \<open>Election\<close>: any number of nodes and a server that owns \<open>/master\<close>; \<open>cinv\<close> is the invariant of
    elections. \<open>Replication\<close>: \<open>replication.cpp\<close>; the outcome of each call to another node is a parameter.

  \<^item> \<open>Controllers\<close>: \<open>logic/controllers\<close>. Spawned coroutines are pending jobs; \<open>ct_ready\<close> says at which
    suspension points the executor runs them, \<open>ct_env\<close> what the session has done since. \<open>guard_inv\<close>: the
    guard is held exactly if one swap job is pending or has ended by an exception, which ends the program.
    \<open>Views\<close>: handlers and middlewares. \<open>Server\<close>: \<open>main.cpp\<close> and \<open>register_handlers.cpp\<close>, with the address
    and the number of threads. \<open>Read_Timeouts\<close>: reads in a cluster in which every call takes time and ends at its
    deadline; \<open>answers_read\<close> is the relation between a request, its answer and the seconds until it.
    \<open>Filelog\<close>: \<open>file_log_sink.cpp\<close>.

  \<^item> \<open>Samples\<close>: concrete instances for the witnesses. \<open>Unit_Tests\<close>: the unit tests of the repository as
    lemmas on the model. This theory: the properties.

  \<^bold>\<open>What the properties show.\<close> Storage: a restart rebuilds exactly the accepted requests, requests and
  runs refine abstract stores, compaction keeps the map, the merge equals a reference merge, tables,
  collections and logs round-trip through the file system, also with a torn last entry.
  With a failing disk the log is off by at most one operation, and a failed read of a table ends the server,
  but the metadata can lose every table. A log without an operation, which every job leaves, makes the next
  start undefined: the properties about restarts say so.
  Concurrency: writes made during a collection survive it, versions are distinct, memory safety with
  its one condition. Cluster: at most one live master, retries and their
  delays, which nodes a write or a read reaches, how long a read waits and for what, what a refused request
  answers. Start: a server started on old data serves the same map; how many threads it has. Several properties
  state behaviour that the code can hardly mean, on all inputs of the kind and not on one example; the
  texts above them say so.

  \<^bold>\<open>Bounds, fuel, termination.\<close> There is no fuel. Loops that may not end are \<open>partial_function (option)\<close>
  (reading a log, reopening a session); their properties include that they end. The binary search, the
  merge and the loop that creates the threads end by a measure. File sizes below \<open>2 ^ 64\<close> and fewer than \<open>2 ^ 32\<close> threads (the width of a counter)
  are hypotheses where the code's arithmetic needs them.

  \<^bold>\<open>Assumed of code outside the repository.\<close> The protobuf serialisers (\<open>codecs_ok\<close>), the results of gRPC
  calls, the answers of ZooKeeper, UUIDs, the order of a directory listing, faults of the system and the
  scheduling of the executor are parameters. An exception that leaves a coroutine spawned with \<open>detached\<close> ends that
  coroutine only; one that leaves the swap job, which is spawned without a token, is thrown again out of the
  loop of the executor, and one that leaves a handler is rethrown by \<open>RethrowFirstArg\<close>: nothing catches either,
  and the program ends (\<open>Throw\<close>). The swap job is one step between the writes
  of a node. The proxies are copied by \<open>std::bind\<close>, so each kind of request has its own job guard; only
  inserts use it.

  \<^bold>\<open>Not modelled.\<close> The gRPC server with its health and reflection services and the log levels in
  \<open>main.cpp\<close>, which belong to libraries that the code only calls; the text of log messages and the callback of the ZooKeeper log, which change no state of the
  program; the move assignments of the reference counters, which do not compile when used;
  \<open>ReplicationInsert\<close>, which is declared and never defined; failures in the middle of reading a log, a metadata or an
  index file, of which only the opening may fail; class declarations without members; and the unit
  test \<open>RecoveryTest.WalWriterInitialization\<close>. What is left of the source beyond these are declarations.
\<close>

section \<open>Storage\<close>

text \<open>C3: Requests served by the storage system survive a crash. Start-up on the file system that they
  leave rebuilds the map that the accepted requests give, and numbers new versions from past the
  greatest one in the log.\<close>

theorem restart_recovers_served_requests:
  assumes "sys_inv cs s" "durable cs s" "sw_idle (ss_mem s)" "order_ok (ss_fs s)"
    "wal_files (ss_fs s) = [Wal_GetPath (ss_wal s)]"
    "log_ok cs (sys_log cs s @ accepted rs (sw_view (ss_mem s)) (sys_tables cs s))"
  shows "\<exists>s' so fs'. serve_all cs rs s = Ret (Inr (), s') \<and>
    InitializeStorages cs n (ss_fs s') = (Ret (Inr so), fs') \<and>
    tables_view cs fs' (collection (so_coll so)) ++ sw_view (so_mem so) =
      replay (accepted rs (sw_view (ss_mem s)) (sys_tables cs s)) (sys_view cs s) \<and>
    vng_current (so_gen so) = Max (op_version ` set
      (sys_log cs s @ accepted rs (sw_view (ss_mem s)) (sys_tables cs s))) + 1"
  using served_restart [OF assms] .

lemma restart_recovers_served_requests_witness:
  "\<exists>s' so fs'. serve_all sample_codecs sample_requests sample_sys = Ret (Inr (), s') \<and>
    InitializeStorages sample_codecs 1 (ss_fs s') = (Ret (Inr so), fs') \<and>
    vng_current (so_gen so) = 5"
  using restart_recovers_served_requests [OF sample_running sample_served_log_ok, of 1]
  by (auto simp: sample_accepted insert_op_def remove_op_def)

text \<open>C4: The storage system refines the abstract store. A sequence of inserts and removes always
  succeeds, appends to the log exactly the accepted operations, keeps the invariant and the
  agreement of log and memory, and a read afterwards gives what the abstract store holds.\<close>

theorem requests_refine_abstract_store:
  assumes "sys_inv cs s"
  shows "\<exists>s'. serve_all cs rs s = Ret (Inr (), s') \<and> sys_inv cs s' \<and>
    (durable cs s \<longrightarrow> durable cs s') \<and>
    sys_log cs s' = sys_log cs s @ accepted rs (sw_view (ss_mem s)) (sys_tables cs s) \<and>
    (\<forall>k. StorageSystem_Get cs k s' = Ret (lookup_result k
      (replay (accepted rs (sw_view (ss_mem s)) (sys_tables cs s)) (sw_view (ss_mem s)) k)
      (sys_tables cs s k), s'))"
  using serve_all_effect [OF assms, of rs] StorageSystem_Get_view
  by (fastforce simp: sys_tables_def)

lemma requests_refine_abstract_store_witness:
  "\<exists>s'. serve_all sample_codecs sample_requests sample_sys = Ret (Inr (), s') \<and>
    StorageSystem_Get sample_codecs ''k'' s' = Ret (Inr \<lparr>vd_value = ''v'', vd_version = 0\<rparr>, s') \<and>
    StorageSystem_Get sample_codecs ''x'' s' = Ret (Inl (key_not_found ''x''), s')"
  using requests_refine_abstract_store [OF sample_sys_inv, of sample_requests]
  by (auto simp: sample_accepted lookup_result_def op_effect_def insert_op_def remove_op_def)

text \<open>C5: Requests on a disk that may fail in any write, flush, opening or read of a table entry. The first \<open>n\<close>
  requests take effect in memory and are acknowledged; of the next ones, all that the version guard does not drop
  are refused and change nothing. The server may come to an end before the last request, at request \<open>m\<close>, only
  because a table read fails: the lookup for the version guard throws, and has not changed anything. A restart, on
  a disk that works again, finds the requests that were acknowledged, but for two cases: it may miss the last
  one that took effect (its flush failed unnoticed), or find the first one that was refused. If that leaves
  the log without an operation (a first write that is missing), start-up is undefined (C39).\<close>

theorem requests_under_faults:
  assumes "sys_inv cs (undisturbed_sys s)"
  shows "\<exists>m n ress s'. n \<le> m \<and> m \<le> length rs \<and> serve_each cs rs s = Ret (ress, s') \<and>
    (m < length rs \<longrightarrow> serve cs (rs ! m) s' = Throw) \<and> (reads_ok (ss_fs s) \<longrightarrow> m = length rs) \<and>
    ress = replicate n (Inr ()) @ answers_to (drop n (take m rs)) (sw_view (ss_mem s')) (sys_tables cs s) \<and>
    sw_view (ss_mem s') = replay (accepted (take n rs) (sw_view (ss_mem s)) (sys_tables cs s)) (sw_view (ss_mem s)) \<and>
    sys_tables cs s' = sys_tables cs s \<and>
    (durable cs (undisturbed_sys s) \<longrightarrow> sw_idle (ss_mem s) \<longrightarrow> order_ok (ss_fs s) \<longrightarrow>
     wal_files (ss_fs s) = [Wal_GetPath (ss_wal s)] \<longrightarrow> log_fits cs (sys_log cs (undisturbed_sys s')) \<longrightarrow>
     (\<exists>ops \<in> near_log (take m rs) n (sw_view (ss_mem s)) (sys_tables cs s).
      if sys_log cs (undisturbed_sys s) @ ops = [] then fst (InitializeStorages cs k (undisturbed (ss_fs s'))) = Undef
      else \<exists>so fs. InitializeStorages cs k (undisturbed (ss_fs s')) = (Ret (Inr so), fs) \<and>
        tables_view cs fs (collection (so_coll so)) ++ sw_view (so_mem so) =
          replay ops (sys_tables cs s ++ sw_view (ss_mem s))))"
proof -
  from serve_each_any [OF assms, of rs] obtain m n ress s' where r: "m \<le> length rs" "serve_each cs rs s = Ret (ress, s')"
    "served_upto cs (take m rs) n s ress s'"
    "m < length rs \<longrightarrow> serve cs (rs ! m) s' = Throw \<and> \<not> reads_ok (ss_fs s)" by blast
  then have "n \<le> m" by (simp add: served_upto_def)
  then have "take n (take m rs) = take n rs" by (simp add: min_absorb1)
  with r \<open>n \<le> m\<close> show ?thesis
    using served_upto_restart [OF r(3) assms, of k]
    by (intro exI [of _ m] exI [of _ n] exI [of _ ress] exI [of _ s'] conjI) (auto simp: served_upto_def)
qed

lemma requests_under_faults_witness:
  "\<exists>n ress s'. n \<le> 2 \<and> serve_each sample_codecs sample_requests (broken_disk sample_sys) = Ret (ress, s') \<and>
    take n ress = replicate n (Inr ()) \<and> length ress = 2"
proof -
  have inv: "sys_inv sample_codecs (undisturbed_sys (broken_disk sample_sys))"
    using sample_sys_inv undisturbed_sys_ok [OF sample_sys_inv] by (simp add: broken_disk_def)
  have reads: "reads_ok (ss_fs (broken_disk sample_sys))"
    using sys_invD(2) [OF sample_sys_inv] by (simp add: broken_disk_def fs_ok_def no_faults_def reads_ok_def)
  obtain m n ress s' where "n \<le> m" "m \<le> length sample_requests"
    "serve_each sample_codecs sample_requests (broken_disk sample_sys) = Ret (ress, s')"
    "reads_ok (ss_fs (broken_disk sample_sys)) \<longrightarrow> m = length sample_requests"
    "ress = replicate n (Inr ()) @ answers_to (drop n (take m sample_requests)) (sw_view (ss_mem s'))
      (sys_tables sample_codecs (broken_disk sample_sys))"
    using requests_under_faults [OF inv, where rs = sample_requests and k = 0] by (elim exE conjE) (rule that)
  then show ?thesis
    using reads by (intro exI [of _ n] exI [of _ ress] exI [of _ s']) (simp add: answers_to_def sample_requests_def)
qed

text \<open>C16: A disk that fails while the metadata of the tables is rewritten loses every table. The metadata file is
  emptied before the new contents are in the stream; if the write is cut so that the rest does not parse (or
  is empty), no table is found at the next start, although all their files are there, and the next table that is
  added becomes the only one for good. Unless the stream writes through, the failure is reported as success.\<close>

theorem failing_disk_loses_all_tables:
  fixes cs fs st
  defines "bs \<equiv> w_ser (c_meta cs) \<lparr>md_entry = disk_entries cs fs @ [\<lparr>me_filename = Some (filename (ps_path st))\<rparr>]\<rparr>"
  assumes "codecs_ok cs" "fs_ok (undisturbed fs)"
    "fs_fault fs (fs_clock fs) = None" "fs_fault fs (fs_clock fs + 1) = None" "fs_fault fs (fs_clock fs + 3) = Some k"
    "w_parse (c_meta cs) (take k bs) \<in> {None, Some \<lparr>md_entry = []\<rparr>}"
    "distinct (map se_key data)" "length (table_bytes cs (sort data)) < 2 ^ 64"
  shows "\<exists>fs1 fs2 next fs3 fs4 n. Collection_Add cs st c fs = (if fs_spill fs (fs_clock fs + 2)
      then (Inl (MakeError kUnknown ''failed to write metadata''), c, fs1)
      else (Inr (), c\<lparr>collection := collection c @ [st]\<rparr>, fs1)) \<and>
    agree_on (- {meta_path fs}) (undisturbed fs) (undisturbed fs1) \<and>
    new_PersistentStorageCollection cs (undisturbed fs1) = (\<lparr>collection = []\<rparr>, fs2) \<and>
    NewPersistentStorage cs data fs2 = (Inr next, fs3) \<and>
    Collection_Add cs next \<lparr>collection = []\<rparr> fs3 = (Inr (), \<lparr>collection = [next]\<rparr>, fs4) \<and>
    new_PersistentStorageCollection cs fs4 = (\<lparr>collection = [next]\<rparr>, fs4\<lparr>fs_clock := n\<rparr>) \<and>
    tables_view cs fs4 [next] = entries_view data"
proof -
  from Collection_Add_cut [OF assms(2-6), of st c] assms(7) obtain fs1 where
    a: "Collection_Add cs st c fs = (if fs_spill fs (fs_clock fs + 2)
      then (Inl (MakeError kUnknown ''failed to write metadata''), c, fs1)
      else (Inr (), c\<lparr>collection := collection c @ [st]\<rparr>, fs1))"
    and f: "fs_ok (undisturbed fs1)" "coll_inv cs (undisturbed fs1) []"
      "agree_on (- {meta_path fs}) (undisturbed fs) (undisturbed fs1)" unfolding bs_def by blast
  from cut_metadata_loses_tables [OF assms(2) f(1,2) assms(8,9)] a f(3) show ?thesis by blast
qed

lemma failing_disk_loses_all_tables_witness:
  "\<exists>fs ps r c fs1 fs2. length ps = 6 \<and> coll_inv sample_codecs (undisturbed fs) ps \<and>
    Collection_Add sample_codecs (hd ps) \<lparr>collection = ps\<rparr> fs = (r, c, fs1) \<and>
    new_PersistentStorageCollection sample_codecs (undisturbed fs1) = (\<lparr>collection = []\<rparr>, fs2)"
proof -
  obtain fs ps where t: "fs_ok fs" "coll_inv sample_codecs fs ps" "length ps = 6" by (rule sample_tables)
  let ?fs = "fs\<lparr>fs_fault := \<lambda>n. if n = fs_clock fs + 3 then Some 0 else None\<rparr>"
  have u: "undisturbed ?fs = fs" by (rule undisturbed_ok [OF t(1)])
  have "w_parse (c_meta sample_codecs) [] = None" by (simp add: sample_codecs_def entire_def d_map_def)
  then show ?thesis
    using failing_disk_loses_all_tables [OF sample_codecs_ok, of ?fs 0 "hd ps" "[]" "\<lparr>collection = ps\<rparr>"] u t
    by (auto simp: table_bytes_def) (metis)
qed

text \<open>C1: Runs of the storage refine the abstract store. From a settled storage, requests, jobs that move
  the memory storage to disk and crashes between them from which start-up comes back lead, in any order, to a
  settled storage again: memory and tables follow the abstract runs, in which a restart at most moves the
  memory map into the tables. The map is that of some of the requests in their order, the abstract run
  saying which ones the version guard left out. No request is stuck. A crash after the run loses no entry if
  the log holds an operation; if it is empty, as it is right after a job and before the first write, start-up
  is undefined (the defect of C39). Files stay below 2^64 bytes.\<close>

theorem storage_runs_refine_store:
  assumes "sys_run cs n s0 rs s" "settled_sys cs s0"
  shows "settled_sys cs s \<and> store_run (store_of cs s0) rs (store_of cs s) \<and>
    (\<exists>ops. subseq ops (map request_op rs) \<and> sys_view cs s = replay ops (sys_view cs s0)) \<and>
    (\<exists>s'. serve cs r s = Ret (Inr (), s')) \<and>
    (sys_log cs s \<noteq> [] \<longrightarrow> log_fits cs (sys_log cs s) \<longrightarrow>
      (\<exists>so fs'. InitializeStorages cs n (ss_fs s) = (Ret (Inr so), fs') \<and> sys_view cs (restarted so fs') = sys_view cs s)) \<and>
    (sys_log cs s = [] \<longrightarrow> fst (InitializeStorages cs n (ss_fs s)) = Undef)"
proof -
  from sys_run_simulated [OF assms] have s: "settled_sys cs s" "store_run (store_of cs s0) rs (store_of cs s)" by simp_all
  with sys_run_view [OF assms] settled_progress [OF s(1)] settled_empty_log [OF s(1)] show ?thesis
    unfolding log_ok_def by blast
qed

lemma storage_runs_refine_store_witness:
  "\<exists>s so fs'. sys_run sample_codecs 1 sample_sys sample_requests s \<and>
    InitializeStorages sample_codecs 1 (ss_fs s) = (Ret (Inr so), fs') \<and>
    settled_sys sample_codecs (restarted so fs')"
proof -
  obtain s where s: "sys_run sample_codecs 1 sample_sys sample_requests s" "log_ok sample_codecs (sys_log sample_codecs s)"
    by (rule sample_run)
  note t = storage_runs_refine_store [OF s(1) sample_settled]
  have l: "sys_log sample_codecs s \<noteq> []" "log_fits sample_codecs (sys_log sample_codecs s)"
    using s(2) by (simp_all add: log_ok_def)
  with t obtain so fs' where c: "InitializeStorages sample_codecs 1 (ss_fs s) = (Ret (Inr so), fs')" by blast
  with t storage_runs_refine_store [OF run_crash [OF s(1) c l(2)] sample_settled] s(1) show ?thesis by blast
qed

text \<open>C6: Compaction replaces more than five tables by one that holds the same map: start-up would load
  exactly that table, the old data files are gone, and no file outside the tables and the metadata
  changes.\<close>

theorem compaction_keeps_map:
  assumes "codecs_ok cs" "fs_ok fs" "coll_inv cs fs (collection c)" "kThreshold < Collection_Size c"
    "\<forall>st \<in> set (collection c). ps_index st \<noteq> []"
    "length (table_bytes cs (merged cs fs (collection c))) < 2 ^ 64"
  shows "\<exists>st fs' n. RunCompaction cs c fs = (Ret (), c\<lparr>collection := [st]\<rparr>, fs') \<and>
    tables_view cs fs' [st] = tables_view cs fs (collection c) \<and>
    new_PersistentStorageCollection cs fs' = (\<lparr>collection = [st]\<rparr>, fs'\<lparr>fs_clock := n\<rparr>) \<and>
    (\<forall>old \<in> set (collection c). map_of (fs_dir fs') (ps_path old) = None) \<and>
    agree_on (other_files fs) fs fs'"
  using RunCompaction_merged [OF assms] new_PersistentStorageCollection_restart [of _ cs] by metis

lemma compaction_keeps_map_witness:
  "\<exists>fs ps st fs'. length ps = 6 \<and>
    RunCompaction sample_codecs \<lparr>collection = ps\<rparr> fs = (Ret (), \<lparr>collection = [st]\<rparr>, fs') \<and>
    tables_view sample_codecs fs' [st] = tables_view sample_codecs fs ps"
proof -
  obtain fs ps where t: "fs_ok fs" "coll_inv sample_codecs fs ps" "length ps = 6"
    "\<forall>st \<in> set ps. ps_ok sample_codecs fs st \<and> ps_index st \<noteq> []"
    "merged sample_codecs fs ps = [sample_entry]" by (rule sample_tables)
  let ?c = "\<lparr>collection = ps\<rparr>"
  have "length (table_bytes sample_codecs (merged sample_codecs fs (collection ?c))) < 2 ^ 64"
    using sample_entry_bytes unfolding t(5) PersistentStorageCollection.simps .
  moreover have "coll_inv sample_codecs fs (collection ?c)" using t(2) by simp
  moreover have "kThreshold < Collection_Size ?c" using t(3) by (simp add: kThreshold_def Collection_Size_def)
  moreover have "\<forall>st \<in> set (collection ?c). ps_index st \<noteq> []" using t(4) by simp
  ultimately obtain st fs' where
    "RunCompaction sample_codecs ?c fs = (Ret (), ?c\<lparr>collection := [st]\<rparr>, fs')"
    "tables_view sample_codecs fs' [st] = tables_view sample_codecs fs (collection ?c)"
    using compaction_keeps_map [OF sample_codecs_ok t(1)] by blast
  then show ?thesis using t(3) by auto
qed

text \<open>C7: The heap-driven merge of compaction equals the reference merge: of every key the entry of the
  newest table that has it, in key order.\<close>

theorem merge_is_reference_merge:
  assumes "\<forall>st \<in> set ps. ps_ok cs fs st \<and> ps_index st \<noteq> []"
  shows "merge_loop cs fs (make_iterators ps 0) [] = Ret (Inr (merged cs fs ps)) \<and>
    sorted_wrt (<) (map se_key (merged cs fs ps)) \<and>
    entries_view (merged cs fs ps) = tables_view cs fs ps"
  using merge_loop_merged [OF assms] merged_sorted merged_view by simp

lemma merge_is_reference_merge_witness:
  "\<exists>fs ps. length ps = 6 \<and> merge_loop sample_codecs fs (make_iterators ps 0) [] = Ret (Inr [sample_entry])"
proof -
  obtain fs ps where t: "fs_ok fs" "coll_inv sample_codecs fs ps" "length ps = 6"
    "\<forall>st \<in> set ps. ps_ok sample_codecs fs st \<and> ps_index st \<noteq> []"
    "merged sample_codecs fs ps = [sample_entry]" by (rule sample_tables)
  show ?thesis
    by (rule exI [of _ fs], rule exI [of _ ps]) (use merge_is_reference_merge [OF t(4)] t(3,5) in simp)
qed

text \<open>C11: A table written to disk reads back: it can be loaded again from its path, and a lookup by
  binary search returns the entry of the key, or an error if the data has none.\<close>

theorem table_round_trip:
  assumes "codecs_ok cs" "fs_ok fs" "distinct (map se_key data)" "length (table_bytes cs (sort data)) < 2 ^ 64"
  shows "\<exists>st fs'. NewPersistentStorage cs data fs = (Inr st, fs') \<and>
    LoadPersistentStorage cs (ps_path st) fs' = (Inr st, tick (tick fs')) \<and>
    (\<forall>k. case entries_view data k of
       Some v \<Rightarrow> PersistentStorage_Get cs fs' st k = Ret (Inr (value_entry k v))
     | None \<Rightarrow> (\<exists>e. PersistentStorage_Get cs fs' st k = Ret (Inl e)))"
proof -
  from NewPersistentStorage_table [OF assms] obtain st fs' where n:
    "NewPersistentStorage cs data fs = (Inr st, fs')" "fs_ok fs'" "ps_stored cs fs' st" "ps_ok cs fs' st"
    "ps_entries cs fs' st = sort data" by blast
  have v: "entries_view data = entries_view (sort data)"
    by (rule entries_view_perm) (simp_all add: assms(3))
  have "case entries_view data k of
       Some v \<Rightarrow> PersistentStorage_Get cs fs' st k = Ret (Inr (value_entry k v))
     | None \<Rightarrow> (\<exists>e. PersistentStorage_Get cs fs' st k = Ret (Inl e))" for k
    using PersistentStorage_Get_hit [OF n(4), of k] PersistentStorage_Get_miss [OF n(4), of k]
    by (auto simp: v n(5) find_entries_view split: option.splits)
  then show ?thesis using n(1) LoadPersistentStorage_stored [OF n(2,3)] by blast
qed

lemma table_round_trip_witness:
  "\<exists>st fs'. NewPersistentStorage sample_codecs [sample_entry] sample_fs = (Inr st, fs') \<and>
     PersistentStorage_Get sample_codecs fs' st ''k'' = Ret (Inr sample_entry)"
proof -
  have "length (table_bytes sample_codecs (sort [sample_entry])) < 2 ^ 64" using sample_entry_bytes by simp
  then obtain st fs' where n: "NewPersistentStorage sample_codecs [sample_entry] sample_fs = (Inr st, fs')"
    "case entries_view [sample_entry] ''k'' of
       Some v \<Rightarrow> PersistentStorage_Get sample_codecs fs' st ''k'' = Ret (Inr (value_entry ''k'' v))
     | None \<Rightarrow> (\<exists>e. PersistentStorage_Get sample_codecs fs' st ''k'' = Ret (Inl e))"
    using table_round_trip [OF sample_codecs_ok sample_fs_ok, of "[sample_entry]"] by force
  then show ?thesis by (simp add: sample_entry_def value_entry_def entry_value_def)
qed

text \<open>C12: A table added to the collection is found by the next start, in front of the older ones: the
  abstract map of the tables is overridden by the new entries.\<close>

theorem added_table_survives_restart:
  assumes "codecs_ok cs" "fs_ok fs" "coll_inv cs fs (collection c)" "distinct (map se_key data)"
    "length (table_bytes cs (sort data)) < 2 ^ 64"
  shows "\<exists>st fs1 fs2 n. NewPersistentStorage cs data fs = (Inr st, fs1) \<and>
    Collection_Add cs st c fs1 = (Inr (), c\<lparr>collection := collection c @ [st]\<rparr>, fs2) \<and>
    new_PersistentStorageCollection cs fs2 = (\<lparr>collection = collection c @ [st]\<rparr>, fs2\<lparr>fs_clock := n\<rparr>) \<and>
    tables_view cs fs2 (collection c @ [st]) = tables_view cs fs (collection c) ++ entries_view data"
proof -
  from persist_table [OF assms] obtain st fs1 fs2 where n:
    "NewPersistentStorage cs data fs = (Inr st, fs1)"
    "Collection_Add cs st c fs1 = (Inr (), c\<lparr>collection := collection c @ [st]\<rparr>, fs2)"
    "persisted cs fs (collection c) data st fs2" by blast
  then have "fs_ok fs2" "coll_inv cs fs2 (collection c @ [st])"
    "tables_view cs fs2 (collection c @ [st]) = tables_view cs fs (collection c) ++ entries_view data"
    by (simp_all add: persisted_def)
  with n(1,2) new_PersistentStorageCollection_restart [OF this(1,2)] show ?thesis by blast
qed

lemma added_table_survives_restart_witness:
  "\<exists>st fs1 fs2 n. NewPersistentStorage sample_codecs [sample_entry] sample_fs = (Inr st, fs1) \<and>
    new_PersistentStorageCollection sample_codecs fs2 = (\<lparr>collection = [st]\<rparr>, fs2\<lparr>fs_clock := n\<rparr>)"
proof -
  have "length (table_bytes sample_codecs (sort [sample_entry])) < 2 ^ 64" using sample_entry_bytes by simp
  from added_table_survives_restart [OF sample_codecs_ok sample_fs_ok _ _ this, of "\<lparr>collection = []\<rparr>"]
  show ?thesis by fastforce
qed

text \<open>C18: A lookup in the collection searches the tables from the newest to the oldest: it returns the
  entry that the map of the tables holds for the key, or an error.\<close>

theorem collection_lookup_newest:
  assumes "coll_inv cs fs (collection c)"
  shows "case tables_view cs fs (collection c) k of
    Some v \<Rightarrow> Collection_Get cs fs c k = Ret (Inr (value_entry k v))
  | None \<Rightarrow> (\<exists>e. Collection_Get cs fs c k = Ret (Inl e))"
proof -
  have "\<forall>st \<in> set (collection c). ps_ok cs fs st" using assms coll_inv_mem(3) by blast
  from Collection_Get_find [OF this, of k] show ?thesis
    by (auto simp: find_entries_view tables_view_def split: option.splits)
qed

lemma collection_lookup_newest_witness:
  "\<exists>e. Collection_Get sample_codecs sample_fs \<lparr>collection = []\<rparr> ''k'' = Ret (Inl e)"
  using collection_lookup_newest [of sample_codecs sample_fs "\<lparr>collection = []\<rparr>" "''k''"]
  by (simp add: tables_view_def)

section \<open>The write-ahead log and recovery\<close>

text \<open>C14: A crash in the middle of an append loses only that entry: reading the log gives the operations
  that were written before it, and the position just behind the last whole entry.\<close>

theorem torn_append_loses_one_entry:
  assumes "wal_inv cs s" "sww.write_ops cs ops s = (Inr (), s')"
    "read_file (snd s') (Wal_GetPath (fst s')) = Some bs"
    "fs_ok fs'" "read_file fs' (Wal_GetPath (fst s')) = Some (bs @ part)"
    "strict_prefix part (d_ser (c_wal cs) e)"
  shows "ReadWAL cs (Wal_GetPath (fst s')) fs' = (Ret (Inr (wal_logged cs s @
    map (\<lambda>x. case x of Inl p \<Rightarrow> insert_op p | Inr (k, v) \<Rightarrow> remove_op k v) ops, length bs)), tick fs')"
proof -
  from sww.write_ops_logged [OF assms(1), of ops] assms(2) have w: "wal_inv cs s'"
    "wal_logged cs s' = wal_logged cs s @
      map (\<lambda>x. case x of Inl p \<Rightarrow> insert_op p | Inr (k, v) \<Rightarrow> remove_op k v) ops" by auto
  then obtain es where es: "codecs_ok cs" "fs_ok (snd s')" "wal_state cs (snd s') (sww_writer (fst s')) es []"
    by (auto simp: wal_inv_def)
  have p: "Wal_GetPath (fst s') = wal_path (sww_writer (fst s'))"
    by (simp add: Wal_GetPath_def WALWriterImpl_GetPath_def)
  have "bs = ser_all (c_wal cs) es" using wal_state_read [OF es(3)] assms(3) p by simp
  with ReadWAL_torn [OF es(1) assms(4,6), of "Wal_GetPath (fst s')" es] assms(5) wal_state_ops [OF es] w(2) p
  show ?thesis by (simp add: wal_logged_def)
qed

lemma torn_append_loses_one_entry_witness:
  "\<exists>s' fs' n. ReadWAL sample_codecs (Wal_GetPath (fst s')) fs' =
    (Ret (Inr ([remove_op ''k'' 7], n)), tick fs')"
proof -
  let ?s = "(ss_wal sample_sys, ss_fs sample_sys)"
  have i: "wal_inv sample_codecs ?s" using sample_sys_inv by (simp add: sys_inv_def)
  from sww.write_ops_logged [OF i, of "[Inr (''k'', 7)]"] obtain s' where
    w: "sww.write_ops sample_codecs [Inr (''k'', 7)] ?s = (Inr (), s')" "wal_inv sample_codecs s'" by blast
  then obtain es where "fs_ok (snd s')" "wal_state sample_codecs (snd s') (sww_writer (fst s')) es []"
    by (auto simp: wal_inv_def)
  note es = this wal_state_read [OF this(2)]
  let ?e = "WRemoveOp \<lparr>wr_key = None, wr_version = None\<rparr>"
  let ?i = "os_ino (wal_f (sww_writer (fst s')))"
  let ?bs = "ser_all (c_wal sample_codecs) es"
  let ?fs = "(snd s')\<lparr>fs_data := (fs_data (snd s'))(?i := ?bs @ [CHR 0x01])\<rparr>"
  have "strict_prefix [CHR 0x01] (d_ser (c_wal sample_codecs) ?e)"
    by (simp add: sample_codecs_def delimit_def e_pair_def of_WEntry_def)
  moreover have "read_file (snd s') (Wal_GetPath (fst s')) = Some ?bs"
    "read_file ?fs (Wal_GetPath (fst s')) = Some (?bs @ [CHR 0x01])"
    using es by (simp_all add: Wal_GetPath_def WALWriterImpl_GetPath_def read_file_def wal_state_def)
  moreover have "fs_ok ?fs" using es(1) by simp
  moreover have "wal_logged sample_codecs ?s = []" using sample_sys_log by (simp add: sys_log_def)
  ultimately show ?thesis
    using torn_append_loses_one_entry [OF i w(1), of ?bs ?fs "[CHR 0x01]" ?e] by auto
qed

text \<open>C15: The log that start-up opens again is not cut behind its last whole entry: the next entry overwrites
  the beginning of what a crash left behind, and what is left of that is read as entries at the next
  start, if it parses. The log then holds operations that nobody asked for; if the new entry is at
  least as long as the torn one, it holds exactly the old entries and the new one.\<close>

theorem reopened_log_keeps_torn_tail:
  assumes "codecs_ok cs" "fs_ok fs" "read_file fs f = Some (ser_all (c_wal cs) es @ part)"
    "strict_prefix part (d_ser (c_wal cs) lost)" "parent_path f \<in> set (fs_dirs fs)"
    "drop (length (d_ser (c_wal cs) new)) part = ser_all (c_wal cs) ghosts @ junk"
    "d_parse (c_wal cs) junk = Eof \<or> d_parse (c_wal cs) junk = Bad"
  shows "\<exists>pos fs1 w fs2 w' fs3. ReadWAL cs f fs = (Ret (Inr (concat (map operations_of es), pos)), fs1) \<and>
    LoadSwappableWalWriter f pos fs1 = (Inr w, fs2) \<and> Wal_WriteEntry cs new (w, fs2) = (Inr (), w', fs3) \<and>
    wal_ops cs fs3 f = concat (map operations_of (es @ new # ghosts))"
proof -
  have rd: "read_file (tick fs) f = Some (ser_all (c_wal cs) es @ part)" using assms(3) by (simp add: read_file_def tick_def)
  have "fs_ok (tick fs)" "parent_path f \<in> set (fs_dirs (tick fs))" using assms(2,5) by (simp_all add: tick_def)
  from LoadWALWriter_state [OF this(1) rd this(2)] obtain w where
    w: "LoadWALWriter f (length (ser_all (c_wal cs) es)) (tick fs) = (Inr w, tick (tick fs))"
    "wal_state cs (tick (tick fs)) w es part" "wal_path w = f" by blast
  from WriteEntry_state [OF _ w(2), of new] assms(2) obtain w' fs3 where
    n: "WALWriterImpl_WriteEntry cs new w (tick (tick fs)) = (Inr (), w', fs3)" "fs_ok fs3" "wal_path w' = f"
      "wal_state cs fs3 w' (es @ [new]) (ser_all (c_wal cs) ghosts @ junk)" using w(3) assms(6) by auto
  have "read_file fs3 f = Some (ser_all (c_wal cs) (es @ new # ghosts) @ junk)"
    using wal_state_read [OF n(4)] n(3) by simp
  from ReadWAL_entries [OF assms(1) n(2) this assms(7)]
  have "wal_ops cs fs3 f = concat (map operations_of (es @ new # ghosts))" by (simp add: wal_ops_def)
  with ReadWAL_torn [OF assms(1,2,4,3)] w(1) n(1) show ?thesis
    by (simp add: LoadSwappableWalWriter_def Wal_WriteEntry_def)
qed

lemma reopened_log_keeps_torn_tail_witness:
  "\<exists>fs fs1 w pos fs2 w' fs3 f. ReadWAL sample_codecs f fs = (Ret (Inr ([], pos)), fs1) \<and>
    LoadSwappableWalWriter f pos fs1 = (Inr w, fs2) \<and>
    Wal_WriteEntry sample_codecs (WRemoveOp \<lparr>wr_key = Some ''a'', wr_version = Some 1\<rparr>) (w, fs2) = (Inr (), w', fs3) \<and>
    wal_ops sample_codecs fs3 f = [remove_op ''a'' 1, remove_op '''' 0]"
proof -
  let ?new = "WRemoveOp \<lparr>wr_key = Some ''a'', wr_version = Some 1\<rparr>"
  let ?lost = "WRemoveOp \<lparr>wr_key = Some (replicate 33 CHR ''b''), wr_version = Some 6\<rparr>"
  let ?ghost = "WRemoveOp \<lparr>wr_key = None, wr_version = None\<rparr>"
  let ?c = "c_wal sample_codecs" and ?f = "Wal_GetPath (ss_wal sample_sys)"
  let ?part = "take 79 (d_ser ?c ?lost)" and ?i = "os_ino (wal_f (sww_writer (ss_wal sample_sys)))"
  let ?fs = "(ss_fs sample_sys)\<lparr>fs_data := (fs_data (ss_fs sample_sys))(?i := ?part)\<rparr>"
  have len: "length (d_ser ?c ?new) = 74" "length (d_ser ?c ?lost) = 138" by (simp_all add: sample_codec_defs of_WEntry_def)
  have "drop 74 ?part = d_ser ?c ?ghost" by (simp add: drop_take sample_codec_defs of_WEntry_def) code_simp
  then have d: "drop (length (d_ser ?c ?new)) ?part = ser_all ?c [?ghost] @ []" using len(1) by simp
  have sp: "strict_prefix ?part (d_ser ?c ?lost)" by (rule strict_prefix_take) (simp add: len(2))
  obtain es where "wal_state sample_codecs (ss_fs sample_sys) (sww_writer (ss_wal sample_sys)) es []"
    using sys_invD(5) [OF sample_sys_inv] by (auto simp: wal_inv_def)
  then have rd: "read_file ?fs ?f = Some (ser_all ?c [] @ ?part)"
    by (simp add: wal_state_def Wal_GetPath_def WALWriterImpl_GetPath_def read_file_def)
  have fs: "fs_ok (ss_fs sample_sys)" using sys_invD(2) [OF sample_sys_inv] .
  then have "GetDataDir (ss_fs sample_sys) \<in> set (fs_dirs (ss_fs sample_sys))"
    by (simp add: fs_ok_def datadir_ok_def GetDataDir_def)
  then have ok: "fs_ok ?fs" "parent_path ?f \<in> set (fs_dirs ?fs)"
    using fs sample_sys_inv by (simp_all add: sys_inv_def)
  have ops: "concat (map operations_of ([] @ ?new # [?ghost])) = [remove_op ''a'' 1, remove_op '''' 0]"
    "concat (map operations_of []) = []" by (simp_all add: operations_of_def remove_op_def)
  from reopened_log_keeps_torn_tail [OF sample_codecs_ok ok(1) rd sp ok(2) d
      disjI1 [OF delimited_parse_Nil [OF codecs_okD(1) [OF sample_codecs_ok]]]]
  show ?thesis unfolding ops by blast
qed

text \<open>C17: Swapping the log separates the operations: those before the swap stay readable under the old
  path, the new log holds exactly those after it.\<close>

theorem swap_separates_log:
  assumes "wal_inv cs s" "wal_logged cs s = []" "sww.write_ops cs before s = (Inr (), s1)"
    "Wal_Swap s1 = (Inr old, s2)" "sww.write_ops cs after s2 = (Inr (), s3)"
  shows "wal_ops cs (snd s2) old =
      map (\<lambda>x. case x of Inl p \<Rightarrow> insert_op p | Inr (k, v) \<Rightarrow> remove_op k v) before \<and>
    wal_logged cs s3 = map (\<lambda>x. case x of Inl p \<Rightarrow> insert_op p | Inr (k, v) \<Rightarrow> remove_op k v) after"
  using sww.write_swap_write [OF assms(1,3,4,5,2)] by blast

lemma swap_separates_log_witness:
  "\<exists>s1 old s2 s3. Wal_Swap s1 = (Inr old, s2) \<and> wal_ops sample_codecs (snd s2) old = [remove_op ''a'' 1] \<and>
    wal_logged sample_codecs s3 = [remove_op ''b'' 2]"
proof -
  let ?s = "(ss_wal sample_sys, ss_fs sample_sys)"
  have i: "wal_inv sample_codecs ?s" "wal_logged sample_codecs ?s = []"
    using sample_sys_inv sample_sys_log by (simp_all add: sys_inv_def sys_log_def)
  from sww.write_ops_logged [OF i(1), of "[Inr (''a'', 1)]"] obtain s1 where
    s1: "sww.write_ops sample_codecs [Inr (''a'', 1)] ?s = (Inr (), s1)" "wal_inv sample_codecs s1" by blast
  from sww.swap_law [OF s1(2)] obtain old s2 where s2: "Wal_Swap s1 = (Inr old, s2)" "wal_inv sample_codecs s2"
    by blast
  from sww.write_ops_logged [OF s2(2), of "[Inr (''b'', 2)]"] obtain s3 where
    s3: "sww.write_ops sample_codecs [Inr (''b'', 2)] s2 = (Inr (), s3)" by blast
  from swap_separates_log [OF i s1(1) s2(1) s3] s2(1) show ?thesis
    by (intro exI [of _ s1] exI [of _ old] exI [of _ s2] exI [of _ s3]) simp
qed

text \<open>C8: Start-up processes every log in the order of the directory, when each holds an operation (an empty
  one: C39): a log with more keys than the threshold becomes a table on top of the others, a smaller one
  becomes the memory storage and the current log. The writer that start-up hands out is the one of the last
  small log, behind the operations that were in it; if there is none, it is that of a new, empty log which was
  not in the directory. The next version is the greatest one that occurs in a log plus one, modulo 2^64.\<close>

theorem recovery_processes_every_log:
  assumes "codecs_ok cs" "fs_ok fs" "order_ok fs" "coll_inv cs fs ps"
    "\<forall>f \<in> set (wal_files fs). is_log cs fs f \<and> log_ok cs (wal_ops cs fs f)"
  defines "logs \<equiv> map (wal_ops cs fs) (wal_files fs)"
  shows "\<exists>so fs'. InitializeStorages cs n fs = (Ret (Inr so), fs') \<and> fs_ok fs' \<and>
    coll_inv cs fs' (collection (so_coll so)) \<and>
    tables_view cs fs' (collection (so_coll so)) = rec_tables n logs (tables_view cs fs ps) \<and>
    so_mem so = rec_mem n logs new_Swappable \<and>
    (\<exists>es tail. wal_state cs fs' (sww_writer (so_wal so)) es tail \<and>
       (case rec_wal n (zip (wal_files fs) logs) None of
          Some f \<Rightarrow> Wal_GetPath (so_wal so) = f \<and> concat (map operations_of es) = wal_ops cs fs f
        | None \<Rightarrow> map_of (fs_dir fs) (Wal_GetPath (so_wal so)) = None \<and> es = [] \<and> tail = [])) \<and>
    vng_current (so_gen so) = rec_max logs 0 + 1"
  using InitializeStorages_recovered [OF assms(1-5), of n]
  unfolding recovered_def current_log_def Let_def logs_def by blast

lemma recovery_processes_every_log_witness:
  "\<exists>so fs'. InitializeStorages sample_codecs 0 two_logs_fs = (Ret (Inr so), fs') \<and>
    tables_view sample_codecs fs' (collection (so_coll so)) ''a'' = Some \<lparr>val_value = None, val_version = 1\<rparr> \<and>
    vng_current (so_gen so) = 3"
proof -
  have "\<forall>f \<in> set (wal_files two_logs_fs). is_log sample_codecs two_logs_fs f \<and>
      log_ok sample_codecs (wal_ops sample_codecs two_logs_fs f)"
    by (simp add: two_logs_files two_logs_logs two_logs_ops one_op_log)
  from recovery_processes_every_log [OF sample_codecs_ok two_logs_ok two_logs_order two_logs_coll this, of 0]
  show ?thesis
    by (auto simp: two_logs_files two_logs_ops is_big_def replayed_def Apply_MapStorage_def apply_operation_def remove_op_def
        MapStorage_Remove_def new_MapStorage_def MapStorage_Size_def op_effect_def)
qed

text \<open>C38: Of several logs that are all small, only the last one in the order of the directory is loaded:
  the operations of the others are in no storage after start-up.\<close>

theorem only_last_small_log_is_loaded:
  assumes "codecs_ok cs" "fs_ok fs" "order_ok fs" "coll_inv cs fs ps" "wal_files fs \<noteq> []"
    "\<forall>f \<in> set (wal_files fs). is_log cs fs f \<and> log_ok cs (wal_ops cs fs f) \<and> \<not> is_big n (wal_ops cs fs f)"
  shows "\<exists>so fs'. InitializeStorages cs n fs = (Ret (Inr so), fs') \<and>
    tables_view cs fs' (collection (so_coll so)) = tables_view cs fs ps \<and>
    sw_view (so_mem so) = replay (wal_ops cs fs (last (wal_files fs))) Map.empty"
proof -
  from InitializeStorages_recovered [OF assms(1-4), of n] assms(6) obtain so fs' where
    r: "InitializeStorages cs n fs = (Ret (Inr so), fs')" "recovered cs n fs ps so fs'" by blast
  have l: "is_log cs fs (last (wal_files fs))" using assms(5,6) by simp
  have "\<forall>op \<in> set (wal_ops cs fs (last (wal_files fs))). op_wf op"
    by (rule ReadWAL_is_log [OF assms(1,2) l]) simp
  note rp = Apply_MapStorage_replayed [OF this]
  from small_logs [of "map (wal_ops cs fs) (wal_files fs)" n] assms(5,6) show ?thesis
    using r rp sw_view_new_from [OF rp(2)] by (auto simp: recovered_def Let_def last_map)
qed

lemma only_last_small_log_is_loaded_witness:
  "\<exists>so fs'. InitializeStorages sample_codecs 1 two_logs_fs = (Ret (Inr so), fs') \<and>
    sw_view (so_mem so) ''a'' = None \<and> tables_view sample_codecs fs' (collection (so_coll so)) ''a'' = None"
proof -
  have "\<forall>f \<in> set (wal_files two_logs_fs). is_log sample_codecs two_logs_fs f \<and>
      log_ok sample_codecs (wal_ops sample_codecs two_logs_fs f) \<and>
      \<not> is_big 1 (wal_ops sample_codecs two_logs_fs f)"
    using one_op_log by (simp add: two_logs_files two_logs_logs two_logs_ops)
  from only_last_small_log_is_loaded [OF sample_codecs_ok two_logs_ok two_logs_order two_logs_coll _ this]
  show ?thesis by (auto simp: two_logs_files two_logs_ops tables_view_def remove_op_def)
qed

text \<open>C39: A log without operations, such as the one of a server that is stopped before its first write,
  makes the next start undefined: the greatest version of an empty list is read.\<close>

theorem empty_log_stops_recovery:
  assumes "codecs_ok cs" "fs_ok fs" "coll_inv cs fs ps" "wal_files fs = f # files" "is_log cs fs f"
    "wal_ops cs fs f = []"
  shows "fst (InitializeStorages cs n fs) = Undef"
  using InitializeStorages_empty_log [OF assms] .

lemma empty_log_stops_recovery_witness:
  "fst (InitializeStorages sample_codecs kDefaultThreshold (ss_fs sample_sys)) = Undef"
  using empty_log_stops_recovery [OF sys_invD(1,2,4) [OF sample_sys_inv] sample_wal_files
      sys_log_is_log(1) [OF sample_sys_inv]] sys_log_is_log(2) [OF sample_sys_inv] by simp

section \<open>Memory storage and synchronisation\<close>

text \<open>C9: Collecting the memory storage loses no write: the collected entries are the whole map, the
  operations applied while the collection runs are seen over it, and they are what is left when
  the collected half is dropped.\<close>

theorem collection_keeps_concurrent_writes:
  assumes "sw_inv s" "sw_idle s" "\<forall>op \<in> set ops. op_wf op"
  shows "\<exists>es s1 s2 s3. SwappableCollect s = Ret (es, s1) \<and>
    Apply Swappable_Insert Swappable_Remove ops s1 = Ret s2 \<and> RemoveCollected s2 = Ret s3 \<and>
    entries_view es = sw_view s \<and> sw_view s2 = sw_view s ++ replay ops Map.empty \<and>
    sw_view s3 = replay ops Map.empty \<and> sw_inv s3 \<and> sw_idle s3"
  using sw.collect_apply_remove [OF assms] by blast

lemma collection_keeps_concurrent_writes_witness:
  "\<exists>es s1 s2 s3. SwappableCollect new_Swappable = Ret (es, s1) \<and>
    Apply Swappable_Insert Swappable_Remove [remove_op ''k'' 1] s1 = Ret s2 \<and> RemoveCollected s2 = Ret s3 \<and>
    sw_view s3 = [''k'' \<mapsto> \<lparr>val_value = None, val_version = 1\<rparr>]"
  using collection_keeps_concurrent_writes [OF sw_inv_new sw_idle_new, of "[remove_op ''k'' 1]"]
  by (force simp: op_wf_def remove_op_def op_effect_def)

text \<open>C20: The memory storage is memory safe under its protocol. From either constructor, whatever calls are
  made, every legal call returns and uses no deleted object, the heap holds exactly the two readers
  with their maps and the writer, and the destructor leaves nothing on it. Removing outside a
  collection is not legal: the next write then uses a deleted map.\<close>

theorem swappable_memory_safe:
  assumes "ms_inv m" "s0 \<in> {new_Swappable, new_Swappable_from m}" "sw_calls s0 False s c"
  shows "sw_exact s \<and> (call \<noteq> CallRemoveCollected \<or> c \<longrightarrow> (\<exists>s'. sw_perform call s = Ret s')) \<and>
    (\<exists>h. Swappable_destroy s = Ret h \<and> h_own h = Map.empty \<and> h_ref h = Map.empty \<and> h_maps h = Map.empty) \<and>
    (\<not> c \<longrightarrow> (\<exists>s'. RemoveCollected s = Ret s' \<and> Swappable_Insert p s' = Undef))"
proof -
  have t: "sw_typed c s" using assms sw_calls_typed [OF assms(3)] sw_typed_new sw_typed_new_from by auto
  then show ?thesis
    using sw_typed_perform [OF t, of call] sw_typed_destroy [OF t] RemoveCollected_dangles [of s]
    by (cases c) (auto simp: sw_typed_def)
qed

lemma swappable_memory_safe_witness:
  "\<exists>es s1 s2 h. SwappableCollect new_Swappable = Ret (es, s1) \<and> RemoveCollected s1 = Ret s2 \<and>
    Swappable_destroy s2 = Ret h \<and> h_own h = Map.empty"
proof -
  have m: "ms_inv new_MapStorage" by (simp add: ms_inv_def new_MapStorage_def)
  note t = swappable_memory_safe [OF m insertI1]
  from t [OF calls_start, of CallCollect] obtain es s1 where c: "SwappableCollect new_Swappable = Ret (es, s1)"
    by (fastforce simp: exec_bind_Ret_iff)
  then have "sw_perform CallCollect new_Swappable = Ret s1" by simp
  from calls_step [OF calls_start _ this] have r: "sw_calls new_Swappable False s1 True" by simp
  with t [OF r, of CallRemoveCollected] obtain s2 where d: "RemoveCollected s1 = Ret s2" by auto
  then have "sw_perform CallRemoveCollected s1 = Ret s2" by simp
  from t [OF calls_step [OF r _ this]] c d show ?thesis by auto
qed

text \<open>C10: Threads on the memory storage. If loading a pointer and adding a user to its counter were one step,
  every interleaving of any number of reads and writes with the job would be safe: no thread makes an
  undefined step or waits, the job waits only for a thread that holds a counter, and the map that it
  frees holds exactly the entries that it has copied, so that no write is lost. The code does them
  in two steps, and a write that is between them uses a counter that the job has deleted.\<close>

theorem threads_need_load_and_add_as_one_step:
  assumes "n < 2 ^ 32" "ms_inv m" "s0 \<in> {new_Swappable, new_Swappable_from m}"
    "race_reach True (race_start n s0) x"
  shows "(\<forall>pc \<in> set (rs_calls x). \<exists>pc' h. call_step True pc (rs_sw x) = Ret (pc', h)) \<and>
    job_step (rs_job x) (rs_sw x) \<noteq> Undef \<and>
    (job_step (rs_job x) (rs_sw x) = Hang \<longrightarrow> (\<exists>pc \<in> set (rs_calls x). \<exists>v. holds_ref v pc \<or> holds_own v pc)) \<and>
    (rs_job x = JobReplaced es old \<longrightarrow> (\<exists>b c p mb. old = Some b \<and> h_own (sw_heap (rs_sw x)) b = Some c \<and>
      orc_ptr c = Some p \<and> h_maps (sw_heap (rs_sw x)) p = Some mb \<and> entries_view es = ms_view mb)) \<and>
    (\<exists>y r. race_reach False (race_start 1 new_Swappable) y \<and> rs_calls y = [PutLoaded r 4] \<and>
      call_step False (PutLoaded r 4) (rs_sw y) = Undef)"
proof -
  have "race_inv x" using race_inv_reach [OF assms(4)] race_inv_new race_inv_new_from assms(1-3) by auto
  note s = race_inv_safe [OF this]
  have "job_step (rs_job x) (rs_sw x) \<noteq> Undef" using s(1) by (simp add: race_undefined_def)
  moreover note race_load_then_delete [of "RRemove [] 0"]
  ultimately show ?thesis using s(2-4) by blast
qed

lemma threads_need_load_and_add_as_one_step_witness:
  "\<exists>pc h. call_step True (PutStart (RRemove ''k'' 1)) new_Swappable = Ret (pc, h)"
proof -
  have m: "ms_inv new_MapStorage" by (simp add: ms_inv_def new_MapStorage_def)
  have n: "(1 :: nat) < 2 ^ 32" by simp
  let ?x = "(race_start 1 new_Swappable)\<lparr>rs_calls := [PutStart (RRemove ''k'' 1)]\<rparr>"
  have "race_step True (race_start 1 new_Swappable)
      ((race_start 1 new_Swappable)\<lparr>rs_calls := (rs_calls (race_start 1 new_Swappable))[0 := PutStart (RRemove ''k'' 1)]\<rparr>)"
    by (rule step_put) (simp_all add: race_start_def)
  then have "race_reach True (race_start 1 new_Swappable) ?x" using race_more [OF race_refl] by (simp add: race_start_def)
  from threads_need_load_and_add_as_one_step [OF n m insertI1 this] show ?thesis by (simp add: race_start_def)
qed

section \<open>Coordination\<close>

text \<open>C13: At most one node is the master of the cluster: of two nodes that both take themselves for it,
  one holds a session that has already ended, for every order of answers, lost answers, expired
  sessions and callbacks.\<close>

theorem one_live_master:
  assumes "creach (cluster_start host hosts accept f) c" "handles_unique f"
    "IsMaster (cl_node c n)" "IsMaster (cl_node c m)" "n \<noteq> m"
  shows "\<exists>k s. k \<in> {n, m} \<and> z_kZh (cl_node c k) = Some s \<and> s \<in> cl_dead c"
  using at_most_one_live_master [OF cinv_reach [OF assms(1) cinv_start] assms(2-5)] .

lemma one_live_master_witness:
  "\<exists>c k s. creach sample_cluster c \<and> IsMaster (cl_node c 0) \<and> IsMaster (cl_node c 1) \<and>
    z_kZh (cl_node c k) = Some s \<and> s \<in> cl_dead c"
proof -
  obtain c where c: "creach sample_cluster c" "IsMaster (cl_node c 0)" "IsMaster (cl_node c 1)"
    using sample_two_masters by blast
  from one_live_master [OF c(1) [unfolded sample_cluster_def] sample_handles_unique c(2,3)] c
  show ?thesis by auto
qed

text \<open>C19: Version numbers: for every interleaving of \<open>Generate\<close> and \<open>UpdateMaxVersion\<close>, as long as
  the counter has not wrapped, no number is handed out twice, each is below the counter, and the
  counter never decreases.\<close>

theorem generated_versions_distinct:
  assumes "vreach (vinit start) s" "vreach s s'" "\<not> vs_wrapped s'"
  shows "distinct (vs_issued s') \<and> (\<forall>n \<in> set (vs_issued s'). n < vs_current s') \<and>
    vs_current s \<le> vs_current s'"
proof -
  have i: "vinv s" "vinv s'" using vinv_reach [OF assms(1) vinv_init] vinv_reach [OF assms(2)] by blast+
  from i(2) assms(3) have "distinct (vs_issued s')" "\<forall>n \<in> set (vs_issued s'). n < vs_current s'"
    by (simp_all add: vinv_def)
  with vreach_current_mono [OF assms(2) i(1) assms(3)] show ?thesis by simp
qed

lemma generated_versions_distinct_witness:
  "\<exists>s. vreach (vinit 5) s \<and> vs_issued s = [5] \<and> distinct (vs_issued s) \<and> 5 < vs_current s"
proof -
  let ?s = "(vinit 5)\<lparr>vs_current := vs_current (vinit 5) + 1, vs_issued := vs_issued (vinit 5) @
    [vs_current (vinit 5)], vs_wrapped := vs_wrapped (vinit 5) \<or> vs_current (vinit 5) = - 1\<rparr>"
  have "vstep (vinit 5) ?s" by (rule vs_generate [of _ 0]) (simp add: vinit_def)
  then have r: "vreach (vinit 5) ?s" using vreach_refl vreach_step by blast
  have "\<not> vs_wrapped ?s" by (simp add: vinit_def)
  from generated_versions_distinct [OF vreach_refl r this] r show ?thesis
    by (intro exI [of _ ?s]) (simp add: vinit_def)
qed

text \<open>C24: When the session has expired, the watcher returns exactly if some later attempt to open a session
  succeeds. The handle is then that of the first such attempt, and the node is no master and has no request
  under way. It counts as expired whatever callbacks follow, until one reports the new session as connected:
  that ends it, and asks for the master's node and for the node's own entry again.\<close>

theorem expired_session_is_reopened:
  "((\<exists>z'. SessionWatcher ZOO_SESSION_EVENT ZOO_EXPIRED_SESSION_STATE z = Ret z') \<longleftrightarrow> (\<exists>n \<ge> z_inits z. z_init z n \<noteq> None)) \<and>
   (SessionWatcher ZOO_SESSION_EVENT ZOO_EXPIRED_SESSION_STATE z = Ret z1 \<longrightarrow>
     (\<exists>n h. z_inits z \<le> n \<and> z_init z n = Some h \<and> (\<forall>i. z_inits z \<le> i \<and> i < n \<longrightarrow> z_init z i = None) \<and>
        z1 = z\<lparr>z_kConnected := False, z_kIsMaster := False, z_kExpired := True, z_pending := [],
          z_kZh := Some h, z_inits := Suc n\<rparr>) \<and>
     (callbacks cbs z1 = Ret z2 \<longrightarrow> OnSession ZOO_SESSION_EVENT ZOO_CONNECTED_STATE \<notin> set cbs \<longrightarrow>
        IsConnectionExpired z2 \<and>
        (\<exists>z3. SessionWatcher ZOO_SESSION_EVENT ZOO_CONNECTED_STATE z2 = Ret z3 \<and> \<not> IsConnectionExpired z3 \<and>
          (z_accept z2 (z_calls z2) = ZOK \<longrightarrow> z_accept z2 (Suc (z_calls z2)) = ZOK \<longrightarrow>
            z_pending z3 = z_pending z2 @ [ACreateMaster (z_kDbHost z2), ACreateNode (''/nodes/'' @ z_kDbHost z2)]))))"
proof (intro conjI impI)
  show "(\<exists>z'. SessionWatcher ZOO_SESSION_EVENT ZOO_EXPIRED_SESSION_STATE z = Ret z') \<longleftrightarrow> (\<exists>n \<ge> z_inits z. z_init z n \<noteq> None)"
    using reinit_terminates [of "z_init z" "z_inits z"]
    by (cases "reinit (z_init z) (z_inits z)") (auto simp: session_expired)
next
  assume "SessionWatcher ZOO_SESSION_EVENT ZOO_EXPIRED_SESSION_STATE z = Ret z1"
  then obtain r where r: "reinit (z_init z) (z_inits z) = Some r" "z1 = z\<lparr>z_kConnected := False, z_kIsMaster := False,
      z_kExpired := True, z_pending := [], z_kZh := Some (fst r), z_inits := snd r\<rparr>"
    by (auto simp: session_expired split: option.splits)
  with reinit_least [OF r(1)] show "\<exists>n h. z_inits z \<le> n \<and> z_init z n = Some h \<and>
      (\<forall>i. z_inits z \<le> i \<and> i < n \<longrightarrow> z_init z i = None) \<and>
      z1 = z\<lparr>z_kConnected := False, z_kIsMaster := False, z_kExpired := True, z_pending := [],
        z_kZh := Some h, z_inits := Suc n\<rparr>" by auto
  assume cb: "callbacks cbs z1 = Ret z2" "OnSession ZOO_SESSION_EVENT ZOO_CONNECTED_STATE \<notin> set cbs"
  have "IsConnectionExpired z1" using r(2) by (simp add: IsConnectionExpired_def)
  from callbacks_expired [OF cb(1) this cb(2)] show e: "IsConnectionExpired z2" .
  then show "\<exists>z3. SessionWatcher ZOO_SESSION_EVENT ZOO_CONNECTED_STATE z2 = Ret z3 \<and> \<not> IsConnectionExpired z3 \<and>
      (z_accept z2 (z_calls z2) = ZOK \<longrightarrow> z_accept z2 (Suc (z_calls z2)) = ZOK \<longrightarrow>
        z_pending z3 = z_pending z2 @ [ACreateMaster (z_kDbHost z2), ACreateNode (''/nodes/'' @ z_kDbHost z2)])"
    by (simp add: SessionWatcher_def Let_def IsConnectionExpired_def request_defs) (simp add: issue_def)
qed

lemma expired_session_is_reopened_witness:
  "\<exists>z1 z2 z3. SessionWatcher ZOO_SESSION_EVENT ZOO_EXPIRED_SESSION_STATE sample_zk = Ret z1 \<and> z_kZh z1 = Some 2 \<and>
    callbacks [OnSession ZOO_SESSION_EVENT ZOO_CONNECTING_STATE, OnMaster ZNONODE None False] z1 = Ret z2 \<and>
    IsConnectionExpired z2 \<and> SessionWatcher ZOO_SESSION_EVENT ZOO_CONNECTED_STATE z2 = Ret z3 \<and> \<not> IsConnectionExpired z3"
proof -
  let ?cbs = "[OnSession ZOO_SESSION_EVENT ZOO_CONNECTING_STATE, OnMaster ZNONODE None False]"
  have s: "z_init sample_zk n = (if n < 2 then None else Some n)" "z_inits sample_zk = 0" for n
    by (simp_all add: sample_zk_def zk_start_def)
  then have "\<exists>n \<ge> z_inits sample_zk. z_init sample_zk n \<noteq> None" by (intro exI [of _ 2]) simp
  with expired_session_is_reopened [of sample_zk undefined ?cbs undefined] obtain z1 where
    z1: "SessionWatcher ZOO_SESSION_EVENT ZOO_EXPIRED_SESSION_STATE sample_zk = Ret z1" by blast
  obtain z2 where z2: "callbacks ?cbs z1 = Ret z2"
    by (simp add: SessionWatcher_def CheckMasterCompletion_def Let_def)
  note t = conjunct2 [OF expired_session_is_reopened [of sample_zk z1 ?cbs z2], rule_format, OF z1]
  from conjunct1 [OF t] obtain n h where n: "z_init sample_zk n = Some h"
    "\<forall>i. z_inits sample_zk \<le> i \<and> i < n \<longrightarrow> z_init sample_zk i = None" "z_kZh z1 = Some h" by auto
  have "\<not> 2 < n" using n(2) [rule_format, of 2] s by auto
  then have "n = 2" "h = 2" using n(1) s(1) [of n] by (auto split: if_splits)
  moreover have "OnSession ZOO_SESSION_EVENT ZOO_CONNECTED_STATE \<notin> set ?cbs" by simp
  ultimately show ?thesis using conjunct2 [OF t] z1 z2 n(3) by blast
qed

section \<open>Replication\<close>

text \<open>C21: A replica request is repeated until an attempt succeeds, five times at most, and waits 1, 2,
  4, 8 and 16 seconds after the failures: also after the last one.\<close>

theorem backoff_schedule:
  "\<exists>k \<le> 5. (\<forall>i < k. \<not> has_value (attempt rp host request i)) \<and> (k < 5 \<longrightarrow> has_value (attempt rp host request k)) \<and>
    MakeRequestWithBackoff type request host rp = (attempt rp host request (min k 4),
      rp\<lparr>rp_sent := rp_sent rp @ replicate (min (Suc k) 5) (host, RequestType_ToString type, request),
         rp_waited := rp_waited rp @ map (\<lambda>i. 2 ^ i) [0..<k]\<rparr>)"
proof (cases "\<forall>i < 5. \<not> has_value (attempt rp host request i)")
  case True
  then show ?thesis
    using backoff_loop_failure [of 5 rp host request 1]
    by (intro exI [of _ 5]) (auto simp: MakeRequestWithBackoff_def)
next
  case False
  define k where "k = (LEAST i. has_value (attempt rp host request i))"
  from False obtain i where i: "i < 5" "has_value (attempt rp host request i)" by blast
  then have k: "has_value (attempt rp host request k)" "k \<le> i" unfolding k_def
    by (auto intro: LeastI Least_le)
  have "\<forall>i < k. \<not> has_value (attempt rp host request i)" using not_less_Least unfolding k_def by blast
  moreover obtain reply where "attempt rp host request k = Inr reply" using k(1) by (auto simp: has_value_iff)
  ultimately show ?thesis
    using backoff_loop_reply [of k 5 rp host request reply 1] k i(1)
    by (intro exI [of _ k]) (auto simp: MakeRequestWithBackoff_def min_def)
qed

lemma backoff_schedule_witness:
  "rp_waited (snd (MakeRequestWithBackoff rGet (QGet \<lparr>gr_key = None, gr_source = None, gr_is_master = None\<rparr>)
     ''a'' sample_replication)) = [1, 2, 4, 8, 16]"
proof -
  have f: "\<not> has_value (attempt sample_replication ''a'' req i)" for req i
    by (simp add: attempt_def sample_replication_def new_Replication_def outcome_result_def)
  obtain k where k: "k \<le> 5" "k < 5 \<longrightarrow> has_value (attempt sample_replication ''a''
      (QGet \<lparr>gr_key = None, gr_source = None, gr_is_master = None\<rparr>) k)"
    "rp_waited (snd (MakeRequestWithBackoff rGet (QGet \<lparr>gr_key = None, gr_source = None, gr_is_master = None\<rparr>)
       ''a'' sample_replication)) = rp_waited sample_replication @ map (\<lambda>i. 2 ^ i) [0..<k]"
    using backoff_schedule [of sample_replication "''a''" "QGet \<lparr>gr_key = None, gr_source = None, gr_is_master = None\<rparr>" rGet]
    by auto
  with f have "k = 5" by fastforce
  with k(3) show ?thesis
    by (simp add: sample_replication_def new_Replication_def upt_rec)
qed

text \<open>C23: A versioned insert reaches every known node, in order, whatever happens to the others: each
  node gets the request between one and five times, and the call succeeds.\<close>

theorem insert_reaches_every_node:
  assumes "kwd_version data = Some v" "GetNodes (rp_zk rp) = Inr nodes"
  shows "\<exists>rp' new. SendInsertToReplicas data rp = (Ret (Inr ()), rp') \<and> rp_sent rp' = rp_sent rp @ new \<and>
    delivered nodes (\<lambda>host. (host, ''/iu9db.Db/Insert'', insert_request data)) new"
  using SendInsert_delivered [OF assms] .

lemma insert_reaches_every_node_witness:
  "\<exists>rp' new. SendInsertToReplicas \<lparr>kwd_key = ''k'', kwd_value = ''v'', kwd_version = Some 3\<rparr> sample_replication =
      (Ret (Inr ()), rp') \<and> rp_sent rp' = new \<and>
    delivered [''a'', ''b''] (\<lambda>host. (host, ''/iu9db.Db/Insert'',
      insert_request \<lparr>kwd_key = ''k'', kwd_value = ''v'', kwd_version = Some 3\<rparr>)) new"
  using insert_reaches_every_node [OF _ sample_replication_nodes,
      of "\<lparr>kwd_key = ''k'', kwd_value = ''v'', kwd_version = Some 3\<rparr>" 3]
  by (simp add: sample_replication_def new_Replication_def)

text \<open>C22: Of the answers of the known nodes the newest one is returned. The clients are asked one after the
  other, from the state of the call on, and the call ends in the state that the last one leaves; an error is
  returned only if none of them has given a value, and a value only if one of them has given it and none has
  given one of a greater version.\<close>

theorem newest_answer_wins:
  assumes "GetNodes (rp_zk rp) = Inr nodes"
  shows "\<exists>rs rp' res. GetNewestFromReplicas key rp = (Ret res, rp') \<and> answers key nodes rs rp rp' \<and>
    (case res of
      Inl _ \<Rightarrow> \<forall>r \<in> set rs. \<not> has_value r
    | Inr v \<Rightarrow> Inr v \<in> set rs \<and> (\<forall>w. Inr w \<in> set rs \<longrightarrow> vd_version w \<le> vd_version v))"
  using GetNewest_newest [OF assms, of key] by blast

lemma newest_answer_wins_witness:
  "\<exists>rs rp' v. GetNewestFromReplicas \<lparr>grd_key = ''k''\<rparr> sample_replication = (Ret (Inr v), rp') \<and>
    answers \<lparr>grd_key = ''k''\<rparr> [''a'', ''b''] rs sample_replication rp' \<and> Inr v \<in> set rs \<and> vd_version v = 4"
proof -
  from newest_answer_wins [OF sample_replication_nodes, of "\<lparr>grd_key = ''k''\<rparr>"] obtain rs rp' res where
    n: "GetNewestFromReplicas \<lparr>grd_key = ''k''\<rparr> sample_replication = (Ret res, rp')"
      "answers \<lparr>grd_key = ''k''\<rparr> [''a'', ''b''] rs sample_replication rp'"
      "case res of Inl _ \<Rightarrow> \<forall>r \<in> set rs. \<not> has_value r
       | Inr v \<Rightarrow> Inr v \<in> set rs \<and> (\<forall>w. Inr w \<in> set rs \<longrightarrow> vd_version w \<le> vd_version v)" by blast
  have "res = Inr \<lparr>vd_value = ''v'', vd_version = 4\<rparr>" using sample_there [of "''k''"] unfolding n(1) by simp
  with n show ?thesis by auto
qed

section \<open>The controller\<close>

text \<open>C25: A versioned insert that brings the memory storage to its threshold moves everything to disk, when
  the job it starts runs at once: the call succeeds, the tables then hold the whole map, memory and
  log are empty, at most five tables are left, and the guard is free again. Below the threshold
  nothing moves.\<close>

theorem threshold_insert_is_persisted:
  assumes "sys_inv cs (ct_sys c)" "ct_jobs c = []" "\<not> is_job_running (ct_guard c)" "ct_ready c (Suc (ct_point c))"
    "kwd_version data = Some v"
    "StorageSystem_Insert cs \<lparr>kw_key = kwd_key data, kw_value = kwd_value data, kw_version = v\<rparr> (ct_sys c) = Ret (Inr (), s)"
    "sys_inv cs s" "sw_idle (ss_mem s)" "tables_full (ss_tables s)"
    "entries_view es = sw_view (ss_mem s)" "distinct (map se_key es)" "job_fits cs s es"
  shows "\<exists>c'. Controller_Insert cs data c = (Ret (Inr ()), c') \<and> \<not> is_job_running (ct_guard c') \<and>
    (if length es < 5 then (\<exists>mem. ct_sys c' = s\<lparr>ss_mem := mem\<rparr> \<and> sw_view mem = sw_view (ss_mem s))
     else sys_tables cs (ct_sys c') = sys_view cs s \<and> sw_view (ss_mem (ct_sys c')) = Map.empty \<and>
       sys_log cs (ct_sys c') = [] \<and> Collection_Size (ss_tables (ct_sys c')) \<le> kThreshold)"
  using Controller_Insert_flushes [OF assms] by (auto simp: flushed_def split: if_splits)

lemma threshold_insert_is_persisted_witness:
  "\<exists>c'. Controller_Insert sample_codecs \<lparr>kwd_key = ''e'', kwd_value = ''v'', kwd_version = Some 1\<rparr>
      (sample_controller (\<lambda>_. True)) = (Ret (Inr ()), c') \<and>
    sys_tables sample_codecs (ct_sys c') = entries_view sample_entries \<and> sys_log sample_codecs (ct_sys c') = []"
proof -
  let ?c = "sample_controller (\<lambda>_. True)"
  have "\<not> older_than (kw_version sample_pair) (lookup_result (kw_key sample_pair)
      (sw_view (ss_mem sample_full) (kw_key sample_pair))
      (tables_view sample_codecs (ss_fs sample_full) (collection (ss_tables sample_full)) (kw_key sample_pair)))"
    using sample_full_facts(4,6)
    by (simp add: older_than_def lookup_result_def sample_pair_def ms_view_def sample_map_def sys_tables_def)
  from StorageSystem_Insert_effect [OF sample_full_facts(1) this] obtain s where
    s: "StorageSystem_Insert sample_codecs sample_pair sample_full = Ret (Inr (), s)" "sys_inv sample_codecs s"
      "sw_view (ss_mem s) = entries_view sample_entries" "sys_tables sample_codecs s = Map.empty"
      "same_logs sample_full s"
    by (auto simp: sample_full_facts(4) sample_entries_fit(5) sample_pair_def sys_tables_def
        sample_full_facts(6) [unfolded sys_tables_def])
  have i: "sw_idle (ss_mem s)" using s(5) sample_full_facts(2) by (simp add: same_logs_def)
  have t: "collection (ss_tables s) = []"
    using StorageSystem_Insert_tables [OF sample_full_facts(1) s(1)] sample_full_facts(3) by simp
  then have f: "tables_full (ss_tables s)" by (simp add: tables_full_def)
  have j: "job_fits sample_codecs s sample_entries"
    using t sample_entries_fit by (intro job_fits_no_tables)
  have "sys_view sample_codecs s = entries_view sample_entries" using s(3,4) by (simp add: sys_view_split)
  with threshold_insert_is_persisted [of sample_codecs ?c "\<lparr>kwd_key = ''e'', kwd_value = ''v'', kwd_version = Some 1\<rparr>" 1
      s sample_entries] s(1-3) i f j sample_full_facts(1) sample_entries_fit(1,3)
  show ?thesis by (auto simp: sample_pair_def)
qed

text \<open>C26: The job that moves the memory storage to disk keeps the map and leaves an empty log. So what was
  written while an earlier collection had not been dropped, and is still in memory, is in no log
  afterwards: the result is durable exactly if there was no such write.\<close>

theorem swap_job_keeps_map_but_not_log:
  assumes "sys_inv cs s" "tables_full (ss_tables s)" "SwappableCollect (ss_mem s) = Ret (data, mem1)" "job_fits cs s data"
  shows "\<exists>s'. SwapToPersistentStorage cs s = (Ret (), s') \<and> sys_inv cs s' \<and> sys_view cs s' = sys_view cs s \<and>
    sw_view (ss_mem s') = sw_recent (ss_mem s) \<and> sys_log cs s' = [] \<and>
    map_of (fs_dir (ss_fs s')) (Wal_GetPath (ss_wal s)) = None \<and>
    (durable cs s' \<longleftrightarrow> sw_recent (ss_mem s) = Map.empty)"
  using SwapToPersistentStorage_ok [OF assms] SwapToPersistentStorage_view [OF assms(1)]
    SwapToPersistentStorage_durable by metis

lemma swap_job_keeps_map_but_not_log_witness:
  "\<exists>s'. SwapToPersistentStorage sample_codecs sample_full = (Ret (), s') \<and>
    sys_view sample_codecs s' = ms_view sample_map \<and> durable sample_codecs s'"
proof -
  have i: "sw_inv (ss_mem sample_full)" using sample_full_facts(1) by (simp add: sys_inv_def)
  from rep_Collect [OF sample_map_rep] obtain mem1 where
    c: "SwappableCollect (ss_mem sample_full) = Ret (ToEntries (ms_map sample_map), mem1)"
    by (auto simp: sample_full_def)
  have "job_fits sample_codecs sample_full (ToEntries (ms_map sample_map))"
    using sample_full_facts(3)
    by (intro job_fits_no_tables)
      (simp_all add: sample_map_def value_entry_def table_bytes_def sample_codec_defs)
  from swap_job_keeps_map_but_not_log [OF sample_full_facts(1,5) c this]
  show ?thesis using sw.idle_recent [OF i sample_full_facts(2)] sample_full_facts(4,6)
    by (auto simp: sys_view_split)
qed

text \<open>C27: For every order of client calls and turns of the executor, at most one job that moves the memory
  storage is pending, and the guard is held exactly if one is pending or has been ended by an
  exception.\<close>

theorem one_swap_job:
  assumes "ctl_reach cs (new_Controller s gen rp ready env weak) c"
  shows "count_list (ct_jobs c) JobSwap \<le> 1 \<and>
    (is_job_running (ct_guard c) \<longleftrightarrow> JobSwap \<in> set (ct_jobs c) \<union> set (ct_aborted c))"
proof -
  have "guard_inv [] c" using guard_inv_reach [OF assms guard_inv_new] .
  then show ?thesis
    by (auto simp: guard_inv_def swap_jobs_def count_list_0_iff split: if_splits)
      (metis add_is_0 count_list_0_iff count_notin nat.simps(3))+
qed

lemma one_swap_job_witness:
  "count_list (ct_jobs (sample_controller (\<lambda>_. True))) JobSwap \<le> 1"
  using one_swap_job [OF ctl_refl, of sample_full "new_VersionNumberGenerator 7" sample_replication
      "\<lambda>_. True" "\<lambda>_ z. z" 0] by (simp add: sample_controller_def)

text \<open>C31: What an insert without version sends to the other nodes depends on when the executor runs the
  coroutine that replicates it, which refers to the parameter of the call. At once: the request
  with its new version. After the parameter has been moved from: a request with an empty key and an
  empty value. After the call has returned: undefined behaviour.\<close>

theorem insert_replication_schedule:
  assumes "ct_jobs c = []" "kwd_version data = None" "nodes_stay nodes c" "fst (Generate (ct_gen c)) = version"
    "snd (Controller_Insert cs data c) = c'"
  shows "(ct_ready c (ct_point c) \<longrightarrow> (\<exists>new. sent c' = sent c @ new \<and>
        delivered nodes (\<lambda>host. (host, ''/iu9db.Db/Insert'', insert_request (data\<lparr>kwd_version := Some version\<rparr>))) new)) \<and>
    (\<not> ct_ready c (ct_point c) \<and> ct_ready c (Suc (ct_point c)) \<longrightarrow> (\<exists>new. sent c' = sent c @ new \<and>
        delivered nodes (\<lambda>host. (host, ''/iu9db.Db/Insert'',
          insert_request \<lparr>kwd_key = [], kwd_value = [], kwd_version = Some version\<rparr>)) new)) \<and>
    ((\<forall>k \<in> {0, 1, 2}. \<not> ct_ready c (ct_point c + k)) \<longrightarrow>
      sent c' = sent c \<and> fst (poll cs (c'\<lparr>ct_ready := \<lambda>_. True\<rparr>)) = Undef)"
  using Controller_Insert_schedule [OF assms] by blast

lemma insert_replication_schedule_witness:
  "\<exists>new. sent (snd (Controller_Insert sample_codecs \<lparr>kwd_key = ''k'', kwd_value = ''v'', kwd_version = None\<rparr>
       (sample_controller (\<lambda>k. k = 1)))) = sent (sample_controller (\<lambda>k. k = 1)) @ new \<and>
    delivered [''a'', ''b''] (\<lambda>host. (host, ''/iu9db.Db/Insert'',
      insert_request \<lparr>kwd_key = [], kwd_value = [], kwd_version = Some 7\<rparr>)) new"
  using insert_replication_schedule [OF _ _ sample_nodes_stay, of "\<lambda>k. k = 1" "\<lparr>kwd_key = ''k'', kwd_value = ''v'', kwd_version = None\<rparr>" 7
      sample_codecs "snd (Controller_Insert sample_codecs \<lparr>kwd_key = ''k'', kwd_value = ''v'', kwd_version = None\<rparr>
       (sample_controller (\<lambda>k. k = 1)))"]
  by (simp add: Generate_def new_VersionNumberGenerator_def)

text \<open>C35: A removal is never replicated, when no coroutine that replicates another call is pending: neither
  \<open>Controller::Remove\<close> nor any number of turns of the executor after it, whenever it runs, sends a request to
  any node, whether the version comes from the client or is generated. With a version of the client, no
  coroutine is started at all. Without one, it either has run during the call, without sending anything, or
  is still pending when the call returns: then it refers to a parameter that is gone, and the next turn in
  which the executor runs does not come to its end.\<close>

theorem removals_never_replicated:
  assumes "set (ct_jobs c) \<subseteq> {JobSwap}" "Controller_Remove cs data c = (r, c')"
  shows "sent c' = sent c \<and> sent (snd (executor_turns cs k (c'\<lparr>ct_ready := rd\<rparr>))) = sent c \<and>
    (\<forall>j \<in> set (ct_jobs c'). j \<noteq> JobSwap \<longrightarrow> kd_version data = None \<and> j = JobSendRemove (ct_next c) \<and>
      ct_frames c' (ct_next c) = None \<and> fst (poll cs (c'\<lparr>ct_ready := \<lambda>_. True\<rparr>)) \<noteq> Ret ())"
proof (intro conjI ballI impI)
  note s = Controller_Remove_silent [OF assms]
  show "sent c' = sent c" using s(1) [of 0] by simp
  show "sent (snd (executor_turns cs k (c'\<lparr>ct_ready := rd\<rparr>))) = sent c" by (rule s(1))
  fix j assume j: "j \<in> set (ct_jobs c')" "j \<noteq> JobSwap"
  with s(2) show e: "j = JobSendRemove (ct_next c)" by blast
  show "kd_version data = None" using s(4) j by blast
  show "ct_frames c' (ct_next c) = None" by (rule s(3))
  show "fst (poll cs (c'\<lparr>ct_ready := \<lambda>_. True\<rparr>)) \<noteq> Ret ()"
    by (rule poll_dangling [of "ct_next c"]) (use j(1) e s(2,3) in simp_all)
qed

lemma removals_never_replicated_witness:
  "sent (snd (executor_turns sample_codecs 3 ((snd (Controller_Remove sample_codecs \<lparr>kd_key = ''k'', kd_version = None\<rparr>
     (sample_controller (\<lambda>_. False))))\<lparr>ct_ready := \<lambda>_. True\<rparr>))) = []"
  using removals_never_replicated [of "sample_controller (\<lambda>_. False)" sample_codecs "\<lparr>kd_key = ''k'', kd_version = None\<rparr>",
      OF _ prod.collapse [symmetric], of 3 "\<lambda>_. True"]
  by (simp add: sample_replication_def new_Replication_def)

text \<open>C32: A read returns the newer one of the value found on this node and the newest value of the other
  nodes; if the latter is newer, it is stored here. Tables and other keys do not change.\<close>

theorem read_repair:
  assumes "sys_inv cs (ct_sys c)" "ct_jobs c = []"
    "fst (GetNewestFromReplicas data (ct_rep c)) = Ret there"
    "lookup_result (grd_key data) (sw_view (ss_mem (ct_sys c)) (grd_key data)) (sys_tables cs (ct_sys c) (grd_key data)) = here"
  shows "\<exists>c'. Controller_Get cs data c = (Ret (if newer_elsewhere here there then there else here), c') \<and>
    sys_inv cs (ct_sys c') \<and> sys_tables cs (ct_sys c') = sys_tables cs (ct_sys c) \<and>
    sw_view (ss_mem (ct_sys c')) = (case there of
        Inl _ \<Rightarrow> sw_view (ss_mem (ct_sys c))
      | Inr v \<Rightarrow> if newer_elsewhere here there
          then (sw_view (ss_mem (ct_sys c)))(grd_key data \<mapsto> \<lparr>val_value = Some (vd_value v), val_version = vd_version v\<rparr>)
          else sw_view (ss_mem (ct_sys c)))"
  using Controller_Get_repair [OF assms(1-3)] assms(4) by (auto simp: local_answer_def)

lemma read_repair_witness:
  "\<exists>c'. Controller_Get sample_codecs \<lparr>grd_key = ''k''\<rparr> (sample_controller (\<lambda>_. True)) =
      (Ret (Inr \<lparr>vd_value = ''v'', vd_version = 4\<rparr>), c') \<and>
    sw_view (ss_mem (ct_sys c')) ''k'' = Some \<lparr>val_value = Some ''v'', val_version = 4\<rparr>"
  using read_repair [of sample_codecs "sample_controller (\<lambda>_. True)" "\<lparr>grd_key = ''k''\<rparr>"
      "Inr \<lparr>vd_value = ''v'', vd_version = 4\<rparr>" "Inl (key_not_found ''k'')"] sample_there sample_full_facts(1,4,6)
  by (force simp: newer_elsewhere_def lookup_result_def ms_view_def sample_map_def)

text \<open>C33: An older value of another node replaces a newer one in memory: a value found in memory counts as
  version 0, so every answer with a version above 0 is returned and stored over it.\<close>

theorem older_replica_value_wins_over_memory:
  assumes "sys_inv cs (ct_sys c)" "ct_jobs c = []"
    "fst (GetNewestFromReplicas data (ct_rep c)) = Ret (Inr v)" "0 < vd_version v"
    "sw_view (ss_mem (ct_sys c)) (grd_key data) = Some \<lparr>val_value = Some x, val_version = newer\<rparr>"
  shows "\<exists>c'. Controller_Get cs data c = (Ret (Inr v), c') \<and>
    sw_view (ss_mem (ct_sys c')) (grd_key data) = Some \<lparr>val_value = Some (vd_value v), val_version = vd_version v\<rparr>"
proof -
  have "local_answer cs (ct_sys c) (grd_key data) = Inr \<lparr>vd_value = x, vd_version = 0\<rparr>"
    using assms(5) by (simp add: local_answer_def lookup_result_def)
  from Controller_Get_repair [OF assms(1-3) this] assms(4) show ?thesis
    by (auto simp: newer_elsewhere_def)
qed

lemma older_replica_value_wins_over_memory_witness:
  "\<exists>c c'. sw_view (ss_mem (ct_sys c)) ''a'' = Some \<lparr>val_value = Some ''v'', val_version = 1\<rparr> \<and>
    Controller_Get sample_codecs \<lparr>grd_key = ''a''\<rparr> c = (Ret (Inr \<lparr>vd_value = ''v'', vd_version = 4\<rparr>), c')"
proof -
  have m: "sw_view (ss_mem sample_full) ''a'' = Some \<lparr>val_value = Some ''v'', val_version = 1\<rparr>"
    using sample_full_facts(4) by (simp add: ms_view_def sample_map_def)
  with older_replica_value_wins_over_memory [of sample_codecs "sample_controller (\<lambda>_. True)" "\<lparr>grd_key = ''a''\<rparr>"
      "\<lparr>vd_value = ''v'', vd_version = 4\<rparr>" "''v''" 1] sample_there sample_full_facts(1)
  obtain c' where "Controller_Get sample_codecs \<lparr>grd_key = ''a''\<rparr> (sample_controller (\<lambda>_. True)) =
    (Ret (Inr \<lparr>vd_value = ''v'', vd_version = 4\<rparr>), c')" by auto
  with m show ?thesis by (intro exI [of _ "sample_controller (\<lambda>_. True)"] exI [of _ c']) simp
qed
section \<open>Request handlers\<close>

text \<open>C29: When a client's insert is acknowledged: exactly if the node was connected and the master when the
  request came, the controller has inserted the entry, and the node was still the master and then
  still connected when the controller had returned.\<close>

theorem acknowledged_insert_was_on_master:
  assumes "get_Source (kvr_source request) = SOURCE_CLIENT"
  shows "HandlersProxy_InsertHandler cs request c = (Ret (Finish r), c') \<longleftrightarrow>
    \<not> IsConnectionExpired (zk_of (polled c)) \<and> IsMaster (zk_of (polled (polled c))) \<and>
    (\<exists>c1. Controller_Insert cs (insert_data request) (polled (polled c)) = (Ret (Inr ()), c1) \<and>
      IsMaster (zk_of (polled c1)) \<and> \<not> IsConnectionExpired (zk_of (polled (polled c1))) \<and>
      c' = polled (polled c1))"
  using acknowledged_insert [OF assms] .

lemma acknowledged_insert_was_on_master_witness:
  "\<forall>c'. HandlersProxy_InsertHandler sample_codecs \<lparr>kvr_key = Some ''k'', kvr_value = Some ''v'', kvr_version = Some 9,
     kvr_source = None\<rparr> (sample_controller (\<lambda>_. True)) \<noteq> (Ret (Finish EmptyReply), c')"
proof
  fix c'
  let ?r = "\<lparr>kvr_key = Some ''k'', kvr_value = Some ''v'', kvr_version = Some 9, kvr_source = None\<rparr>"
  have "\<not> IsMaster (zk_of (polled (polled (sample_controller (\<lambda>_. True)))))"
    by (simp add: sample_controller_def new_Controller_def sample_replication_def new_Replication_def
        IsMaster_def zk_start_def)
  with acknowledged_insert_was_on_master [of ?r sample_codecs "sample_controller (\<lambda>_. True)" EmptyReply c']
  show "HandlersProxy_InsertHandler sample_codecs ?r (sample_controller (\<lambda>_. True)) \<noteq> (Ret (Finish EmptyReply), c')"
    by (simp add: get_Source_def)
qed

text \<open>C36: How a client's insert is refused. A node that is not connected answers \<open>UNAVAILABLE\<close>, one that is not
  the master \<open>FAILED_PRECONDITION\<close>, and neither calls the controller. A node that stops being the
  master during the request answers the same, with the entry inserted.\<close>

theorem refused_inserts:
  assumes "get_Source (kvr_source request) = SOURCE_CLIENT"
  shows "(IsConnectionExpired (zk_of (polled c)) \<longrightarrow> HandlersProxy_InsertHandler cs request c =
      (Ret (FinishWithError UNAVAILABLE ''node is not connected to cluster''), polled c)) \<and>
    (\<not> IsConnectionExpired (zk_of (polled c)) \<and> \<not> IsMaster (zk_of (polled (polled c))) \<and>
     \<not> IsConnectionExpired (zk_of (polled (polled (polled c)))) \<longrightarrow> HandlersProxy_InsertHandler cs request c =
      (Ret (FinishWithError FAILED_PRECONDITION ''node is not master''), polled (polled (polled c)))) \<and>
    (\<not> IsConnectionExpired (zk_of (polled c)) \<and> IsMaster (zk_of (polled (polled c))) \<and>
     Controller_Insert cs (insert_data request) (polled (polled c)) = (Ret (Inr ()), c1) \<and>
     \<not> IsMaster (zk_of (polled c1)) \<and> \<not> IsConnectionExpired (zk_of (polled (polled c1))) \<longrightarrow>
     HandlersProxy_InsertHandler cs request c =
      (Ret (FinishWithError FAILED_PRECONDITION ''node is not master''), polled (polled c1)))"
  using refused_insert [OF assms] by blast

lemma refused_inserts_witness:
  "fst (HandlersProxy_InsertHandler sample_codecs \<lparr>kvr_key = Some ''k'', kvr_value = Some ''v'', kvr_version = Some 9,
     kvr_source = None\<rparr> (sample_controller (\<lambda>_. True))) = Ret (FinishWithError FAILED_PRECONDITION ''node is not master'')"
  using refused_inserts [of "\<lparr>kvr_key = Some ''k'', kvr_value = Some ''v'', kvr_version = Some 9, kvr_source = None\<rparr>"
      "sample_controller (\<lambda>_. True)" sample_codecs]
  by (simp add: get_Source_def)
    (simp add: sample_controller_def new_Controller_def sample_replication_def new_Replication_def IsMaster_def
      IsConnectionExpired_def zk_start_def)

text \<open>C28: No write is ever replicated by a server: the handlers pass every write on with a version, and the
  controller replicates only writes without one. Whatever requests come and however they end, all
  that a server ever sends to other nodes are reads.\<close>

theorem servers_send_only_reads:
  assumes "server_run cs (new_Controller s gen (new_Replication z oc) ready env weak) c"
  shows "\<forall>(host, path, q) \<in> set (rp_sent (ct_rep c)). \<exists>g. q = QGet g"
proof -
  have "reads_only (new_Controller s gen (new_Replication z oc) ready env weak)"
    by (simp add: reads_only_def only_gets_def new_Controller_def new_Replication_def)
  from reads_only_run [OF assms this] show ?thesis by (auto simp: reads_only_def only_gets_def)
qed

lemma servers_send_only_reads_witness:
  "only_gets (sent (snd (HandlersProxy_InsertHandler sample_codecs
     \<lparr>kvr_key = Some ''k'', kvr_value = Some ''v'', kvr_version = None, kvr_source = None\<rparr> (sample_master sample_full))))"
proof -
  let ?r = "\<lparr>kvr_key = Some ''k'', kvr_value = Some ''v'', kvr_version = None, kvr_source = None\<rparr>"
  have "server_run sample_codecs (sample_master sample_full) (snd (HandlersProxy_InsertHandler sample_codecs ?r (sample_master sample_full)))"
    by (rule server_insert [where kv = ?r, OF server_start]) (rule prod.collapse [symmetric])
  from servers_send_only_reads [OF this [unfolded sample_master_def]] show ?thesis
    unfolding only_gets_def sample_master_def by fastforce
qed

text \<open>C30: A client that leaves out the version writes version 0: on a key that is in the tables with a newer
  value and not in memory, and with fewer than five keys in memory, the master acknowledges the insert and drops it.\<close>

theorem unversioned_insert_is_dropped:
  assumes "settled c" "get_Source (kvr_source request) = SOURCE_CLIENT" "kvr_version request = None"
    "sys_inv cs (ct_sys c)" "sw_idle (ss_mem (ct_sys c))" "ct_jobs c = []"
    "entries_view es = sw_view (ss_mem (ct_sys c))" "distinct (map se_key es)" "length es < 5"
    "sw_view (ss_mem (ct_sys c)) (get_string (kvr_key request)) = None"
    "sys_tables cs (ct_sys c) (get_string (kvr_key request)) = Some v" "val_value v \<noteq> None" "0 < val_version v"
  shows "\<exists>c'. HandlersProxy_InsertHandler cs request c = (Ret (Finish EmptyReply), c') \<and>
    sys_view cs (ct_sys c') = sys_view cs (ct_sys c) \<and> sys_log cs (ct_sys c') = sys_log cs (ct_sys c)"
  using unversioned_insert_dropped [OF assms] .

lemma unversioned_insert_is_dropped_witness:
  "\<exists>s c'. sys_view sample_codecs s ''a'' = Some \<lparr>val_value = Some ''v'', val_version = 1\<rparr> \<and>
    HandlersProxy_InsertHandler sample_codecs \<lparr>kvr_key = Some ''a'', kvr_value = Some ''new'', kvr_version = None,
      kvr_source = None\<rparr> (sample_master s) = (Ret (Finish EmptyReply), c') \<and>
    sys_view sample_codecs (ct_sys c') ''a'' = Some \<lparr>val_value = Some ''v'', val_version = 1\<rparr>"
proof -
  from sample_stored obtain s where s: "sys_inv sample_codecs s" "sw_idle (ss_mem s)" "sw_view (ss_mem s) = Map.empty"
    "sys_tables sample_codecs s = ms_view sample_map" by blast
  then have v: "sys_tables sample_codecs s ''a'' = Some \<lparr>val_value = Some ''v'', val_version = 1\<rparr>"
    by (simp add: ms_view_def sample_map_def)
  let ?r = "\<lparr>kvr_key = Some ''a'', kvr_value = Some ''new'', kvr_version = None, kvr_source = None\<rparr>"
  from unversioned_insert_is_dropped [of "sample_master s" ?r sample_codecs "[]"] s v obtain c' where
    "HandlersProxy_InsertHandler sample_codecs ?r (sample_master s) = (Ret (Finish EmptyReply), c')"
    "sys_view sample_codecs (ct_sys c') = sys_view sample_codecs s" by (auto simp: get_Source_def)
  moreover have "sys_view sample_codecs s ''a'' = Some \<lparr>val_value = Some ''v'', val_version = 1\<rparr>"
    using s(3) v by (simp add: sys_view_split)
  ultimately show ?thesis by (intro exI [of _ s] exI [of _ c']) simp
qed

text \<open>C34: A read learns nothing from the other nodes. Let every node of the cluster be in order and every call
  reach the node that it is made to. Then no node answers the read of another one before its deadline of five
  seconds, because it asks all nodes first: every call of a read times out and is made five times. What the
  caller is told is what the one node knows, after 56 seconds at least for every node in the list.\<close>

theorem reads_wait_for_timeouts:
  assumes "read_run (answers_read cs) cs c nodes request r t" "sys_inv cs (ct_sys c)" "k = get_string (gr_key request)"
  shows "r = read_end k (local_answer cs (ct_sys c) k) \<and> real (length nodes) * 56 \<le> t \<and>
    sent (snd (HandlersProxy_GetHandler cs request c)) = sent c @ five_calls k nodes \<and>
    (\<forall>q e u. answers_read cs q e u \<and> get_Source (gr_source q) = SOURCE_NODE \<longrightarrow> real request_deadline \<le> u)"
  using read_run_result [OF assms] answers_read_late [of cs] by (auto simp: network_def)

lemma reads_wait_for_timeouts_witness:
  "fst (HandlersProxy_GetHandler sample_codecs \<lparr>gr_key = Some ''a'', gr_source = None, gr_is_master = None\<rparr> sample_alone) =
      Ret (Finish \<lparr>gp_value = Some ''v'', gp_version = Some 0\<rparr>) \<and>
    length (sent (snd (HandlersProxy_GetHandler sample_codecs \<lparr>gr_key = Some ''a'', gr_source = None, gr_is_master = None\<rparr> sample_alone))) = 10"
proof -
  let ?q = "\<lparr>gr_key = Some ''a'', gr_source = None, gr_is_master = None\<rparr>"
  have l: "local_answer sample_codecs sample_full ''a'' = Inr \<lparr>vd_value = ''v'', vd_version = 0\<rparr>"
    using sample_full_facts(4,6) by (simp add: local_answer_def lookup_result_def ms_view_def sample_map_def)
  have c: "calm sample_alone" "GetNodes (zk_of sample_alone) = Inr [''a'', ''b'']" "ct_sys sample_alone = sample_full"
    "sent sample_alone = []" "ct_jobs sample_alone = []"
    using sample_replication_nodes
    by (simp_all add: sample_alone_def calm_def IsConnectionExpired_def sample_controller_def new_Controller_def
        sample_replication_def new_Replication_def zk_start_def)
  have run: "read_run (answers_read sample_codecs) sample_codecs sample_alone [''a'', ''b''] ?q
      (read_end ''a'' (local_answer sample_codecs (ct_sys sample_alone) ''a'')) (real (length [''a'', ''b'']) * 56)"
    by (rule read_run_exists [OF c(1,5,2), where message = "[]" and details = "[]"])
      (use sample_full_facts(1) c(3) in \<open>simp_all add: may_read_def get_bool_def sample_alone_def\<close>)
  then have "fst (HandlersProxy_GetHandler sample_codecs ?q sample_alone) =
      Ret (read_end ''a'' (local_answer sample_codecs (ct_sys sample_alone) ''a''))" by (simp add: read_run_def)
  then show ?thesis
    using reads_wait_for_timeouts [OF run, of "''a''"] sample_full_facts(1) c(3,4) l
    by (simp add: read_end_def five_calls_def)
qed

section \<open>The server\<close>



text \<open>C37: The threads of the server. With \<open>n\<close> hardware threads the loop creates \<open>n - 1\<close> workers, for every \<open>n\<close>
  from 1 to \<open>2 ^ 31\<close>. The standard lets \<open>hardware_concurrency\<close> return 0 when it cannot tell: then the
  unsigned bound of the loop wraps to the greatest one, the loop creates threads until its \<open>int\<close> overflows,
  and the server never opens its storage.\<close>

theorem server_threads:
  "worker_threads tc = (if 0 < unat tc \<and> unat tc \<le> 2 ^ 31 then Ret (unat tc - 1) else Undef) \<and>
    RunServer cs host port 0 hosts rp ready env weak fs = (Undef, fs)"
  by (simp add: worker_threads_eq RunServer_def)

end
